(* ===== verification/Prelude.thy ===== *)
theory Prelude
  imports Complex_Main "HOL-Library.Word" "HOL-Library.Sublist"
begin

text \<open>
  What every component of the development shares.

  \<^item> Names for the Rust integer types. A \<open>usize\<close> is a natural number: the crates run on
    64-bit targets and every index they compute stays far below \<open>2 ^ 64\<close>.
  \<^item> \<open>outcome\<close>: the result of a Rust function that can return \<open>Ok\<close>, return \<open>Err\<close> or panic.
    Indexing and slicing out of range are panics, so \<^emph>\<open>never panics\<close> is a statement one can prove.
  \<^item> Loops that collect results (\<open>omap\<close>), little-endian integers (\<open>le_nat\<close>, \<open>le_bytes\<close>),
    decimal numerals, byte strings.
\<close>

unbundle bit_operations_syntax

declare add_2_eq_Suc [simp del] add_2_eq_Suc' [simp del]

named_theorems outcome_simps \<open>rewriting of the outcome combinators\<close>
named_theorems slice_simps \<open>rewriting of slices of appended byte lists\<close>
named_theorems no_panic \<open>introduction rules: an operation does not panic\<close>

type_synonym u8 = "8 word"
type_synonym u16 = "16 word"
type_synonym u32 = "32 word"
type_synonym u64 = "64 word"
type_synonym usize = nat
type_synonym bytes = "u8 list"

definition USIZE_MAX :: usize where
  "USIZE_MAX = 2 ^ 64 - 1"

section \<open>Outcomes\<close>

datatype ('a, 'e) outcome = Ok 'a | Err 'e | Panic

fun obind :: "('a, 'e) outcome \<Rightarrow> ('a \<Rightarrow> ('b, 'e) outcome) \<Rightarrow> ('b, 'e) outcome" where
  "obind (Ok a) f = f a"
| "obind (Err e) f = Err e"
| "obind Panic f = Panic"

fun map_err :: "('e \<Rightarrow> 'f) \<Rightarrow> ('a, 'e) outcome \<Rightarrow> ('a, 'f) outcome" where
  "map_err g (Ok a) = Ok a"
| "map_err g (Err e) = Err (g e)"
| "map_err g Panic = Panic"

text \<open>A \<open>for\<close> loop that pushes one result per element and stops at the first failure.\<close>

fun omap :: "('a \<Rightarrow> ('b, 'e) outcome) \<Rightarrow> 'a list \<Rightarrow> ('b list, 'e) outcome" where
  "omap f [] = Ok []"
| "omap f (x # xs) = obind (f x) (\<lambda>y. obind (omap f xs) (\<lambda>ys. Ok (y # ys)))"

text \<open>A \<open>for\<close> loop that threads a state and can panic.\<close>

fun ofold :: "('a \<Rightarrow> 's \<Rightarrow> ('s, 'e) outcome) \<Rightarrow> 'a list \<Rightarrow> 's \<Rightarrow> ('s, 'e) outcome" where
  "ofold f [] s = Ok s"
| "ofold f (x # xs) s = obind (f x s) (ofold f xs)"

lemma obind_Ok_iff [outcome_simps]:
  "obind m f = Ok b \<longleftrightarrow> (\<exists>a. m = Ok a \<and> f a = Ok b)"
  by (cases m) auto

lemma Ok_obind_iff [outcome_simps]:
  "Ok b = obind m f \<longleftrightarrow> (\<exists>a. m = Ok a \<and> f a = Ok b)"
  by (cases m) auto

lemma obind_Panic_iff [outcome_simps]:
  "obind m f = Panic \<longleftrightarrow> m = Panic \<or> (\<exists>a. m = Ok a \<and> f a = Panic)"
  by (cases m) auto

lemma obind_Err_iff [outcome_simps]:
  "obind m f = Err e \<longleftrightarrow> m = Err e \<or> (\<exists>a. m = Ok a \<and> f a = Err e)"
  by (cases m) auto

lemma obind_assoc: "obind (obind m f) g = obind m (\<lambda>x. obind (f x) g)"
  by (cases m) auto

lemma obind_no_panic [no_panic]:
  assumes "m \<noteq> Panic" and "\<And>a. m = Ok a \<Longrightarrow> f a \<noteq> Panic"
  shows "obind m f \<noteq> Panic"
  using assms by (auto simp: outcome_simps)

lemma obind_cong:
  assumes "m = m'" and "\<And>a. m' = Ok a \<Longrightarrow> f a = g a"
  shows "obind m f = obind m' g"
  using assms by (cases m') auto

lemma omap_no_panic [no_panic]:
  assumes "\<And>x. x \<in> set xs \<Longrightarrow> f x \<noteq> Panic"
  shows "omap f xs \<noteq> Panic"
  using assms by (induction xs) (auto simp: outcome_simps)

lemma omap_Ok_length: "omap f xs = Ok ys \<Longrightarrow> length ys = length xs"
  by (induction xs arbitrary: ys) (auto simp: outcome_simps)

lemma omap_Ok_nth:
  "omap f xs = Ok ys \<Longrightarrow> i < length xs \<Longrightarrow> f (xs ! i) = Ok (ys ! i)"
proof (induction xs arbitrary: ys i)
  case (Cons x xs)
  then show ?case by (cases i) (auto simp: outcome_simps)
qed simp

lemma omap_Ok_setD:
  "omap f xs = Ok ys \<Longrightarrow> y \<in> set ys \<Longrightarrow> \<exists>x\<in>set xs. f x = Ok y"
  by (induction xs arbitrary: ys) (auto simp: outcome_simps)

lemma omap_OkI:
  assumes "length ys = length xs" and "\<And>i. i < length xs \<Longrightarrow> f (xs ! i) = Ok (ys ! i)"
  shows "omap f xs = Ok ys"
  using assms
proof (induction xs arbitrary: ys)
  case (Cons x xs)
  then obtain z zs where ys: "ys = z # zs" by (cases ys) auto
  with Cons.prems(2)[of 0] have "f x = Ok z" by simp
  moreover have "omap f xs = Ok zs"
  proof (rule Cons.IH)
    show "length zs = length xs" using Cons.prems(1) ys by simp
    show "f (xs ! i) = Ok (zs ! i)" if "i < length xs" for i
      using Cons.prems(2)[of "Suc i"] that ys by simp
  qed
  ultimately show ?case using ys by simp
qed simp

lemma omap_append:
  "omap f (xs @ ys) = obind (omap f xs) (\<lambda>as. obind (omap f ys) (\<lambda>bs. Ok (as @ bs)))"
  by (induction xs) (simp_all add: obind_assoc, cases "omap f ys", simp_all)

lemma ofold_append: "ofold f (xs @ ys) s = obind (ofold f xs s) (ofold f ys)"
proof (induction xs arbitrary: s)
  case (Cons x xs)
  then show ?case by (cases "f x s") simp_all
qed simp

lemma ofold_invariant:
  assumes "ofold f xs s = Ok s'" and "P s"
    and "\<And>x s s'. x \<in> set xs \<Longrightarrow> P s \<Longrightarrow> f x s = Ok s' \<Longrightarrow> P s'"
  shows "P s'"
  using assms by (induction xs arbitrary: s) (auto simp: outcome_simps)

section \<open>Indexing and slicing\<close>

text \<open>\<open>buf[i]\<close> and \<open>buf[a..b]\<close>: a panic when out of range.\<close>

definition index_at :: "'a list \<Rightarrow> usize \<Rightarrow> ('a, 'e) outcome" where
  "index_at xs i = (if i < length xs then Ok (xs ! i) else Panic)"

definition slice_range :: "'a list \<Rightarrow> usize \<Rightarrow> usize \<Rightarrow> ('a list, 'e) outcome" where
  "slice_range xs a b = (if a \<le> b \<and> b \<le> length xs then Ok (take (b - a) (drop a xs)) else Panic)"

text \<open>\<open>xs.get(i)\<close>: an option.\<close>

definition get_at :: "'a list \<Rightarrow> usize \<Rightarrow> 'a option" where
  "get_at xs i = (if i < length xs then Some (xs ! i) else None)"

lemma index_at_Ok [simp]: "i < length xs \<Longrightarrow> index_at xs i = Ok (xs ! i)"
  by (simp add: index_at_def)

lemma slice_range_Ok [simp]:
  "a \<le> b \<Longrightarrow> b \<le> length xs \<Longrightarrow> slice_range xs a b = Ok (take (b - a) (drop a xs))"
  by (simp add: slice_range_def)

lemma slice_range_OkD:
  "slice_range xs a b = Ok ys \<Longrightarrow> a \<le> b \<and> b \<le> length xs \<and> ys = take (b - a) (drop a xs)"
  by (simp add: slice_range_def split: if_splits)

lemma slice_range_length: "slice_range xs a b = Ok ys \<Longrightarrow> length ys = b - a"
  by (auto dest!: slice_range_OkD)

lemma get_at_Some_iff: "get_at xs i = Some x \<longleftrightarrow> i < length xs \<and> x = xs ! i"
  by (auto simp: get_at_def)

lemma index_at_get: "get_at xs i = Some x \<Longrightarrow> index_at xs i = Ok x"
  by (simp add: get_at_Some_iff)

lemma take_drop_append [slice_simps]:
  "length pre = a \<Longrightarrow> length mid = n \<Longrightarrow> take n (drop a (pre @ mid @ post)) = mid"
  by simp

text \<open>\<open>iter().position(p)\<close>: the first index where the predicate holds.\<close>

fun position :: "('a \<Rightarrow> bool) \<Rightarrow> 'a list \<Rightarrow> nat option" where
  "position p [] = None"
| "position p (x # xs) = (if p x then Some 0 else map_option Suc (position p xs))"

fun unwrap_or :: "'a \<Rightarrow> 'a option \<Rightarrow> 'a" where
  "unwrap_or d None = d"
| "unwrap_or d (Some x) = x"

lemma position_takeWhile:
  "unwrap_or (length xs) (position p xs) = length (takeWhile (\<lambda>x. \<not> p x) xs)"
proof (induction xs)
  case (Cons x xs)
  then show ?case by (cases "position p xs") auto
qed simp

lemma position_SomeD: "position p xs = Some i \<Longrightarrow> i < length xs \<and> p (xs ! i)"
  by (induction xs arbitrary: i) (auto split: if_splits)

lemma position_None_iff: "position p xs = None \<longleftrightarrow> (\<forall>x\<in>set xs. \<not> p x)"
  by (induction xs) auto

text \<open>\<open>iter().find(p)\<close>.\<close>

definition find_first :: "('a \<Rightarrow> bool) \<Rightarrow> 'a list \<Rightarrow> 'a option" where
  "find_first p xs = List.find p xs"

text \<open>A table of records of one width, and where its \<open>i\<close>-th record starts.\<close>

lemma length_concat_fixed:
  "(\<And>x. x \<in> set xs \<Longrightarrow> length x = w) \<Longrightarrow> length (concat xs) = length xs * w"
  by (induction xs) auto

lemma drop_concat_fixed:
  assumes "\<And>x. x \<in> set xs \<Longrightarrow> length x = w" and "i < length xs"
  shows "drop (i * w) (concat xs @ rest) = xs ! i @ concat (drop (Suc i) xs) @ rest"
proof -
  have "length (concat (take i xs)) = i * w"
    using assms length_concat_fixed[of "take i xs" w] by (auto dest: in_set_takeD)
  moreover have "concat xs = concat (take i xs) @ xs ! i @ concat (drop (Suc i) xs)"
    by (metis assms(2) concat.simps(2) concat_append id_take_nth_drop)
  ultimately show ?thesis by simp
qed

text \<open>\<open>iter().step_by(stride)\<close>: every \<open>stride\<close>-th element from the first.\<close>

function step_by :: "nat \<Rightarrow> 'a list \<Rightarrow> 'a list" where
  "step_by k [] = []"
| "step_by k (x # xs) = x # step_by k (drop (k - 1) xs)"
  by pat_completeness auto
termination
  by (relation "measure (\<lambda>(k, xs). length xs)") auto

lemma step_by_subseq: "subseq (step_by k xs) xs"
proof (induction k xs rule: step_by.induct)
  case (2 k x xs)
  have "subseq (step_by k (drop (k - 1) xs)) xs"
    using "2.IH" subseq_order.trans[OF _ suffix_imp_subseq[OF suffix_drop]] by blast
  then show ?case by simp
qed simp

definition div_ceil :: "nat \<Rightarrow> nat \<Rightarrow> nat" where
  "div_ceil a b = (if a mod b = 0 then a div b else a div b + 1)"

lemma length_step_by:
  assumes "0 < k"
  shows "length (step_by k xs) = div_ceil (length xs) k"
  using assms
proof (induction k xs rule: step_by.induct)
  case (1 k)
  then show ?case by (simp add: div_ceil_def)
next
  case (2 k x xs)
  show ?case
  proof (cases "Suc (length xs) \<le> k")
    case True
    with "2" have "length (step_by k (x # xs)) = 1"
      by (simp add: div_ceil_def)
    moreover from True have "div_ceil (Suc (length xs)) k = 1"
      by (cases "Suc (length xs) = k") (simp_all add: div_ceil_def)
    ultimately show ?thesis by simp
  next
    case False
    define m where "m = length xs - (k - 1)"
    have m: "Suc (length xs) = m + k" using False "2.prems" by (simp add: m_def)
    have "length (step_by k (x # xs)) = Suc (div_ceil m k)"
      using "2" by (simp add: m_def)
    also have "\<dots> = div_ceil (m + k) k"
      using "2.prems" by (simp add: div_ceil_def)
    finally show ?thesis using m by simp
  qed
qed

lemma div_ceil_le:
  assumes "0 < b"
  shows "a \<le> div_ceil a b * b" and "div_ceil a b \<le> a"
proof -
  have e: "a = a div b * b + a mod b" by simp
  have l: "a mod b < b" using assms by simp
  show "a \<le> div_ceil a b * b"
  proof (cases "a mod b = 0")
    case True
    then show ?thesis using e by (simp add: div_ceil_def)
  next
    case False
    then have "div_ceil a b * b = a div b * b + b" by (simp add: div_ceil_def)
    then show ?thesis using e l by linarith
  qed
  show "div_ceil a b \<le> a"
  proof (cases "a mod b = 0")
    case True
    then show ?thesis by (simp add: div_ceil_def)
  next
    case False
    have "a div b \<le> a div b * b" using assms by (cases b) simp_all
    moreover have "div_ceil a b = a div b + 1" using False by (simp add: div_ceil_def)
    ultimately show ?thesis using e False by linarith
  qed
qed

lemma div_ceil_leI:
  assumes "0 < b" and "a \<le> m * b"
  shows "div_ceil a b \<le> m"
proof (cases "a mod b = 0")
  case True
  have "a div b * b \<le> m * b" using assms(2) by (meson div_times_less_eq_dividend order_trans)
  then show ?thesis using True assms(1) by (simp add: div_ceil_def)
next
  case False
  have "a div b * b + a mod b \<le> m * b" using assms(2) by simp
  then have "a div b * b < m * b" using False by linarith
  then show ?thesis using False by (simp add: div_ceil_def)
qed

section \<open>Checked arithmetic\<close>

text \<open>
  \<open>a + b\<close>, \<open>a - b\<close>, \<open>a * b\<close> and \<open>a << k\<close> on machine integers panic on overflow when the crate is
  built with overflow checks (\<open>chk\<close>, the default of a debug build) and wrap around otherwise (the
  release profile of \<open>viewer/Cargo.toml\<close>). A shift by the width or more wraps the shift amount.
\<close>

definition add_chk :: "bool \<Rightarrow> 'a::len word \<Rightarrow> 'a word \<Rightarrow> ('a word, 'e) outcome" where
  "add_chk chk a b = (if chk \<and> 2 ^ LENGTH('a) \<le> unat a + unat b then Panic else Ok (a + b))"

definition sub_chk :: "bool \<Rightarrow> 'a::len word \<Rightarrow> 'a word \<Rightarrow> ('a word, 'e) outcome" where
  "sub_chk chk a b = (if chk \<and> a < b then Panic else Ok (a - b))"

definition mul_chk :: "bool \<Rightarrow> 'a::len word \<Rightarrow> 'a word \<Rightarrow> ('a word, 'e) outcome" where
  "mul_chk chk a b = (if chk \<and> 2 ^ LENGTH('a) \<le> unat a * unat b then Panic else Ok (a * b))"

definition shl_chk :: "bool \<Rightarrow> 'a::len word \<Rightarrow> nat \<Rightarrow> ('a word, 'e) outcome" where
  "shl_chk chk a k = (if chk \<and> LENGTH('a) \<le> k then Panic else Ok (push_bit (k mod LENGTH('a)) a))"

definition shr_chk :: "bool \<Rightarrow> 'a::len word \<Rightarrow> nat \<Rightarrow> ('a word, 'e) outcome" where
  "shr_chk chk a k = (if chk \<and> LENGTH('a) \<le> k then Panic else Ok (drop_bit (k mod LENGTH('a)) a))"

lemma add_chk_Ok: "unat a + unat b < 2 ^ LENGTH('a) \<Longrightarrow> add_chk chk a (b :: 'a::len word) = Ok (a + b)"
  by (simp add: add_chk_def)

lemma sub_chk_Ok: "b \<le> a \<Longrightarrow> sub_chk chk a b = Ok (a - b)"
  by (auto simp: sub_chk_def)

lemma mul_chk_Ok: "unat a * unat b < 2 ^ LENGTH('a) \<Longrightarrow> mul_chk chk a (b :: 'a::len word) = Ok (a * b)"
  by (simp add: mul_chk_def)

lemma shl_chk_Ok: "k < LENGTH('a) \<Longrightarrow> shl_chk chk (a :: 'a::len word) k = Ok (push_bit k a)"
  by (simp add: shl_chk_def)

lemma shr_chk_Ok: "k < LENGTH('a) \<Longrightarrow> shr_chk chk (a :: 'a::len word) k = Ok (drop_bit k a)"
  by (simp add: shr_chk_def)

lemmas chk_Ok = add_chk_Ok sub_chk_Ok mul_chk_Ok shl_chk_Ok shr_chk_Ok

lemma chk_False [simp]:
  "add_chk False a b = Ok (a + b)" "sub_chk False a b = Ok (a - b)" "mul_chk False a b = Ok (a * b)"
  by (simp_all add: add_chk_def sub_chk_def mul_chk_def)

section \<open>Little-endian integers\<close>

text \<open>\<open>from_le_bytes\<close> and \<open>to_le_bytes\<close> of every width, through the number they denote.\<close>

fun le_nat :: "bytes \<Rightarrow> nat" where
  "le_nat [] = 0"
| "le_nat (b # bs) = unat b + 256 * le_nat bs"

fun le_bytes :: "nat \<Rightarrow> nat \<Rightarrow> bytes" where
  "le_bytes 0 k = []"
| "le_bytes (Suc n) k = of_nat (k mod 256) # le_bytes n (k div 256)"

definition le_word :: "bytes \<Rightarrow> 'a::len word" where
  "le_word bs = of_nat (le_nat bs)"

definition word_le :: "nat \<Rightarrow> 'a::len word \<Rightarrow> bytes" where
  "word_le n w = le_bytes n (unat w)"

lemma unat_lt2p: "unat (w :: 'a::len word) < 2 ^ LENGTH('a)"
  by (rule unsigned_less)

lemma unat_byte_less [simp]: "unat (b :: u8) < 256"
  using unat_lt2p[of b] by simp

lemma length_le_bytes [simp]: "length (le_bytes n k) = n"
  by (induction n arbitrary: k) auto

lemma length_word_le [simp]: "length (word_le n w) = n"
  by (simp add: word_le_def)

lemma unat_byte_mod [simp]: "unat (of_nat (k mod 256) :: u8) = k mod 256"
  by (simp add: unat_of_nat)

lemma le_nat_le_bytes: "le_nat (le_bytes n k) = k mod 256 ^ n"
proof (induction n arbitrary: k)
  case (Suc n)
  then show ?case by (simp add: mod_mult2_eq)
qed simp

lemma le_nat_less: "le_nat bs < 256 ^ length bs"
proof (induction bs)
  case (Cons b bs)
  have "unat b < 256" by simp
  moreover have "256 * le_nat bs + 256 \<le> 256 * 256 ^ length bs" using Cons by simp
  ultimately show ?case by (simp del: unat_byte_less)
qed simp

lemma le_bytes_le_nat: "le_bytes (length bs) (le_nat bs) = bs"
proof (induction bs)
  case (Cons b bs)
  have "unat b < 256" using unat_lt2p[of b] by simp
  with Cons show ?case by simp
qed simp

lemma le_word_word_le [simp]:
  "LENGTH('a) = 8 * n \<Longrightarrow> le_word (word_le n w) = (w :: 'a::len word)"
proof -
  assume n: "LENGTH('a) = 8 * n"
  have "(256::nat) ^ n = 2 ^ LENGTH('a)" by (simp add: n power_mult)
  then show ?thesis
    using unat_lt2p[of w] by (simp add: le_word_def word_le_def le_nat_le_bytes)
qed

lemma unat_le_word:
  "length bs = n \<Longrightarrow> 8 * n \<le> LENGTH('a) \<Longrightarrow> unat (le_word bs :: 'a::len word) = le_nat bs"
proof -
  assume a: "length bs = n" "8 * n \<le> LENGTH('a)"
  have "le_nat bs < 2 ^ (8 * n)" using le_nat_less[of bs] a by (simp add: power_mult)
  also have "\<dots> \<le> 2 ^ LENGTH('a)" using a by simp
  finally show ?thesis by (simp add: le_word_def unat_of_nat)
qed

section \<open>Strings\<close>

text \<open>
  A Rust \<open>String\<close> is the list of its UTF-8 bytes, each written as a HOL character: literals are
  \<open>''abc''\<close>, and \<open>length\<close> is the byte length as \<open>str::len\<close> is.
\<close>

definition str_of_bytes :: "bytes \<Rightarrow> string" where
  "str_of_bytes bs = map (\<lambda>b. char_of (unat b)) bs"

definition bytes_of_str :: "string \<Rightarrow> bytes" where
  "bytes_of_str s = map (\<lambda>c. of_nat (of_char c)) s"

lemma length_str_of_bytes [simp]: "length (str_of_bytes bs) = length bs"
  by (simp add: str_of_bytes_def)

lemma length_bytes_of_str [simp]: "length (bytes_of_str s) = length s"
  by (simp add: bytes_of_str_def)

lemma of_char_less: "of_char c < (256::nat)"
  using range_nat_of_char by (metis atLeastLessThan_iff rangeI)

lemma str_of_bytes_of_str [simp]: "str_of_bytes (bytes_of_str s) = s"
  by (simp add: str_of_bytes_def bytes_of_str_def comp_def unat_of_nat of_char_less)

lemma bytes_of_str_of_bytes [simp]: "bytes_of_str (str_of_bytes bs) = bs"
proof -
  have "unat b mod 256 = unat b" for b :: u8
    using unat_lt2p[of b] by simp
  then show ?thesis
    by (simp add: str_of_bytes_def bytes_of_str_def comp_def)
qed

section \<open>Decimal numerals\<close>

text \<open>\<open>format!("{n}")\<close> and \<open>str::parse\<close> of an unsigned integer.\<close>

definition digit_char :: "nat \<Rightarrow> char" where
  "digit_char d = char_of (48 + d)"

definition char_digit :: "char \<Rightarrow> nat option" where
  "char_digit c = (if 48 \<le> (of_char c :: nat) \<and> (of_char c :: nat) \<le> 57
     then Some (of_char c - 48) else None)"

fun show_nat :: "nat \<Rightarrow> string" where
  "show_nat n = (if n < 10 then [digit_char n] else show_nat (n div 10) @ [digit_char (n mod 10)])"

declare show_nat.simps [simp del]

fun parse_digits :: "nat \<Rightarrow> string \<Rightarrow> nat option" where
  "parse_digits acc [] = Some acc"
| "parse_digits acc (c # cs) =
     (case char_digit c of None \<Rightarrow> None | Some d \<Rightarrow> parse_digits (10 * acc + d) cs)"

lemma char_digit_digit_char [simp]: "d < 10 \<Longrightarrow> char_digit (digit_char d) = Some d"
  by (simp add: char_digit_def digit_char_def)

lemma parse_digits_append:
  "parse_digits acc (xs @ ys) =
     (case parse_digits acc xs of None \<Rightarrow> None | Some a \<Rightarrow> parse_digits a ys)"
  by (induction xs arbitrary: acc) (auto split: option.splits)

lemma parse_digits_show_nat: "parse_digits 0 (show_nat n) = Some n"
proof (induction n rule: show_nat.induct)
  case (1 n)
  then show ?case
    by (subst show_nat.simps) (simp add: parse_digits_append)
qed

lemma show_nat_nonempty [simp]: "show_nat n \<noteq> []"
  by (subst show_nat.simps) simp

lemma show_nat_digits: "c \<in> set (show_nat n) \<Longrightarrow> \<exists>d<10. c = digit_char d"
proof (induction n rule: show_nat.induct)
  case (1 n)
  show ?case
  proof (cases "n < 10")
    case True
    with "1.prems" show ?thesis by (subst (asm) show_nat.simps) auto
  next
    case False
    with "1.prems" have "c \<in> set (show_nat (n div 10)) \<or> c = digit_char (n mod 10)"
      by (subst (asm) show_nat.simps) auto
    moreover have "n mod 10 < 10" by simp
    ultimately show ?thesis using "1.IH"[OF False] by blast
  qed
qed

end
