(* ===== verification/Utf8.thy ===== *)
theory Utf8
  imports Prelude
begin

text \<open>
  UTF-8 as Rust's standard library checks it: \<open>str::from_utf8\<close> (fails on the first malformed
  sequence) and \<open>String::from_utf8_lossy\<close> (replaces every maximal malformed prefix by U+FFFD). Both
  walk the bytes sequence by sequence; \<open>utf8_head\<close> says whether a well-formed character starts here
  and how many bytes the character, or the malformed prefix, takes.
\<close>

definition utf8_width :: "nat \<Rightarrow> nat" where
  "utf8_width b =
     (if b < 0x80 then 1 else if 0xC2 \<le> b \<and> b \<le> 0xDF then 2
      else if 0xE0 \<le> b \<and> b \<le> 0xEF then 3 else if 0xF0 \<le> b \<and> b \<le> 0xF4 then 4 else 0)"

definition is_cont :: "nat \<Rightarrow> bool" where
  "is_cont b \<longleftrightarrow> 0x80 \<le> b \<and> b \<le> 0xBF"

definition second_ok :: "nat \<Rightarrow> nat \<Rightarrow> bool" where
  "second_ok b c =
     (if b = 0xE0 then 0xA0 \<le> c \<and> c \<le> 0xBF else if b = 0xED then 0x80 \<le> c \<and> c \<le> 0x9F
      else if b = 0xF0 then 0x90 \<le> c \<and> c \<le> 0xBF else if b = 0xF4 then 0x80 \<le> c \<and> c \<le> 0x8F
      else is_cont c)"

text \<open>The number of leading bytes of \<open>bs\<close>, at most \<open>n\<close>, that are continuation bytes.\<close>

fun conts :: "nat \<Rightarrow> bytes \<Rightarrow> nat" where
  "conts 0 bs = 0"
| "conts (Suc n) [] = 0"
| "conts (Suc n) (b # bs) = (if is_cont (unat b) then Suc (conts n bs) else 0)"

fun utf8_head :: "bytes \<Rightarrow> bool \<times> nat" where
  "utf8_head [] = (False, 0)"
| "utf8_head (b # bs) =
     (let w = utf8_width (unat b) in
      if w = 0 then (False, 1)
      else if w = 1 then (True, 1)
      else case bs of
             [] \<Rightarrow> (False, 1)
           | c # cs \<Rightarrow>
               if \<not> second_ok (unat b) (unat c) then (False, 1)
               else let n = conts (w - 2) cs in (n = w - 2, n + 2))"

lemma utf8_head_pos: "bs \<noteq> [] \<Longrightarrow> 0 < snd (utf8_head bs)"
  by (cases bs) (auto simp: Let_def split: list.splits)

lemma conts_le: "conts n bs \<le> length bs"
  by (induction n bs rule: conts.induct) auto

lemma conts_le_n: "conts n bs \<le> n"
  by (induction n bs rule: conts.induct) auto

lemma utf8_head_le: "snd (utf8_head bs) \<le> length bs"
proof (cases bs)
  case (Cons b cs)
  then show ?thesis
    using conts_le by (cases cs) (auto simp: Let_def)
qed simp

function utf8_valid :: "bytes \<Rightarrow> bool" where
  "utf8_valid bs =
     (if bs = [] then True
      else let (ok, n) = utf8_head bs in ok \<and> utf8_valid (drop n bs))"
  by pat_completeness auto
termination
proof (relation "measure length")
  fix bs :: bytes and x ok n
  assume "bs \<noteq> []" "x = utf8_head bs" "(ok, n) = x"
  then show "(drop n bs, bs) \<in> measure length"
    using utf8_head_pos[of bs] by (cases "utf8_head bs") auto
qed simp

declare utf8_valid.simps [simp del]

definition from_utf8 :: "bytes \<Rightarrow> string option" where
  "from_utf8 bs = (if utf8_valid bs then Some (str_of_bytes bs) else None)"

text \<open>U+FFFD in UTF-8.\<close>

definition replacement :: bytes where
  "replacement = [0xEF, 0xBF, 0xBD]"

function utf8_lossy :: "bytes \<Rightarrow> bytes" where
  "utf8_lossy bs =
     (if bs = [] then []
      else let (ok, n) = utf8_head bs
           in (if ok then take n bs else replacement) @ utf8_lossy (drop n bs))"
  by pat_completeness auto
termination
proof (relation "measure length")
  fix bs :: bytes and x ok n
  assume "bs \<noteq> []" "x = utf8_head bs" "(ok, n) = x"
  then show "(drop n bs, bs) \<in> measure length"
    using utf8_head_pos[of bs] by (cases "utf8_head bs") auto
qed simp

declare utf8_lossy.simps [simp del]

definition from_utf8_lossy :: "bytes \<Rightarrow> string" where
  "from_utf8_lossy bs = str_of_bytes (utf8_lossy bs)"

text \<open>\<open>str::chars\<close>: the characters of a valid string, each as its bytes.\<close>

function chars :: "bytes \<Rightarrow> bytes list" where
  "chars bs =
     (if bs = [] then []
      else let n = snd (utf8_head bs) in take n bs # chars (drop n bs))"
  by pat_completeness auto
termination
proof (relation "measure length")
  fix bs :: bytes and n
  assume "bs \<noteq> []" "n = snd (utf8_head bs)"
  then show "(drop n bs, bs) \<in> measure length"
    using utf8_head_pos[of bs] by auto
qed simp

declare chars.simps [simp del]

section \<open>Facts\<close>

lemma utf8_valid_Nil [simp]: "utf8_valid []"
  by (simp add: utf8_valid.simps)

lemma conts_append: "conts n bs = n \<Longrightarrow> conts n (bs @ cs) = n"
  by (induction n bs rule: conts.induct) (auto split: if_splits)

lemma utf8_head_append: "utf8_head bs = (True, n) \<Longrightarrow> utf8_head (bs @ cs) = (True, n)"
proof (cases bs)
  case (Cons b ds)
  assume h: "utf8_head bs = (True, n)"
  show ?thesis
  proof (cases ds)
    case Nil
    with Cons h show ?thesis by (auto simp: Let_def split: if_splits)
  next
    case (Cons d es)
    with \<open>bs = b # ds\<close> h show ?thesis
      by (auto simp: Let_def conts_append split: if_splits)
  qed
qed simp

lemma conts_take: "conts n bs = n \<Longrightarrow> conts n (take n bs) = n"
  by (induction n bs rule: conts.induct) (auto split: if_splits)

lemma utf8_head_take:
  assumes "utf8_head bs = (True, n)"
  shows "utf8_head (take n bs) = (True, n)"
proof (cases bs)
  case (Cons b ds)
  show ?thesis
  proof (cases ds)
    case Nil
    with Cons assms show ?thesis by (auto simp: Let_def split: if_splits)
  next
    case (Cons d es)
    show ?thesis
    proof (cases "utf8_width (unat b) = 1")
      case True
      moreover have "n = 1" using True \<open>bs = b # ds\<close> assms by simp
      ultimately show ?thesis using \<open>bs = b # ds\<close> by simp
    next
      case False
      with Cons \<open>bs = b # ds\<close> assms show ?thesis
        by (auto simp: Let_def conts_take numeral_2_eq_2 split: if_splits)
    qed
  qed
qed (use assms in simp)

lemma utf8_valid_append: "utf8_valid xs \<Longrightarrow> utf8_valid (xs @ ys) = utf8_valid ys"
proof (induction xs rule: utf8_valid.induct)
  case (1 xs)
  show ?case
  proof (cases "xs = []")
    case False
    obtain ok n where h: "utf8_head xs = (ok, n)" by (cases "utf8_head xs")
    with False "1.prems" have ok: "ok" "utf8_valid (drop n xs)"
      by (auto simp: utf8_valid.simps[of xs])
    have n: "n \<le> length xs" using utf8_head_le[of xs] h by simp
    have "utf8_valid (drop n xs @ ys) = utf8_valid ys"
      using False h[symmetric] ok by (intro "1.IH"[OF False h[symmetric] refl]) auto
    moreover have "utf8_head (xs @ ys) = (True, n)" using h ok utf8_head_append by simp
    ultimately show ?thesis using False n by (simp add: utf8_valid.simps[of "xs @ ys"])
  qed simp
qed

lemma utf8_valid_replacement [simp]: "utf8_valid replacement"
  by code_simp

lemma utf8_valid_char: "utf8_head bs = (True, n) \<Longrightarrow> utf8_valid (take n bs)"
  using utf8_head_take[of bs n] utf8_head_le[of "take n bs"]
  by (cases "take n bs = []") (auto simp: utf8_valid.simps[of "take n bs"])

text \<open>The lossy decoder always yields valid UTF-8, and changes nothing that is valid.\<close>

lemma utf8_valid_lossy: "utf8_valid (utf8_lossy bs)"
proof (induction bs rule: utf8_lossy.induct)
  case (1 bs)
  show ?case
  proof (cases "bs = []")
    case False
    obtain ok n where h: "utf8_head bs = (ok, n)" by (cases "utf8_head bs")
    have "utf8_valid (utf8_lossy (drop n bs))" by (rule "1.IH"[OF False h[symmetric] refl])
    then show ?thesis
      using False h utf8_valid_char[of bs n] by (cases ok) (simp_all add: utf8_lossy.simps[of bs] utf8_valid_append)
  qed (simp add: utf8_lossy.simps)
qed

lemma utf8_lossy_valid: "utf8_valid bs \<Longrightarrow> utf8_lossy bs = bs"
proof (induction bs rule: utf8_lossy.induct)
  case (1 bs)
  show ?case
  proof (cases "bs = []")
    case False
    obtain ok n where h: "utf8_head bs = (ok, n)" by (cases "utf8_head bs")
    with False "1.prems" have ok: "ok" "utf8_valid (drop n bs)"
      by (auto simp: utf8_valid.simps[of bs])
    then have "utf8_lossy (drop n bs) = drop n bs" by (intro "1.IH"[OF False h[symmetric] refl])
    then show ?thesis using False h ok by (simp add: utf8_lossy.simps[of bs])
  qed (simp add: utf8_lossy.simps)
qed

lemma utf8_valid_ascii: "(\<And>b. b \<in> set bs \<Longrightarrow> unat b < 0x80) \<Longrightarrow> utf8_valid bs"
proof (induction bs)
  case (Cons b bs)
  then show ?case by (simp add: utf8_valid.simps[of "b # bs"] utf8_width_def)
qed simp

lemma chars_concat: "concat (chars bs) = bs"
proof (induction bs rule: chars.induct)
  case (1 bs)
  then show ?case
    by (cases "bs = []") (simp_all add: chars.simps[of bs] chars.simps[of "[]"] Let_def)
qed

end
