(* ===== verification/Strings.thy ===== *)
theory Strings
  imports Utf8 "HOL-Library.Char_ord" "HOL-Library.List_Lexorder" "HOL-Library.Product_Lexorder"
    "HOL-Library.AList"
begin

text \<open>
  The operations of Rust's \<open>str\<close>, \<open>String\<close>, \<open>HashMap\<close> and \<open>sort_by\<close> that the viewer uses. A string
  is the list of its UTF-8 bytes, so the order on strings (\<open>List_Lexorder\<close> over \<open>Char_ord\<close>) is Rust's
  byte-wise order. A \<open>HashMap\<close> is an association list with distinct keys: the order of the list is
  the order in which an iteration over the map happens to visit it, so a statement about every such
  list is a statement about every iteration order.
\<close>

section \<open>Hash maps\<close>

type_synonym ('k, 'v) hashmap = "('k \<times> 'v) list"

abbreviation hm_get :: "('k, 'v) hashmap \<Rightarrow> 'k \<Rightarrow> 'v option" where
  "hm_get m k \<equiv> map_of m k"

abbreviation hm_insert :: "'k \<Rightarrow> 'v \<Rightarrow> ('k, 'v) hashmap \<Rightarrow> ('k, 'v) hashmap" where
  "hm_insert \<equiv> AList.update"

abbreviation hm_remove :: "'k \<Rightarrow> ('k, 'v) hashmap \<Rightarrow> ('k, 'v) hashmap" where
  "hm_remove \<equiv> AList.delete"

abbreviation hm_ok :: "('k, 'v) hashmap \<Rightarrow> bool" where
  "hm_ok m \<equiv> distinct (map fst m)"

lemma hm_get_insert [simp]: "hm_get (hm_insert k v m) j = (if j = k then Some v else hm_get m j)"
  by (simp add: update_conv')

lemma hm_get_remove [simp]: "hm_get (hm_remove k m) j = (if j = k then None else hm_get m j)"
  by (simp add: delete_conv')

lemma hm_ok_insert [simp]: "hm_ok m \<Longrightarrow> hm_ok (hm_insert k v m)"
  by (rule distinct_update)

lemma hm_ok_remove [simp]: "hm_ok m \<Longrightarrow> hm_ok (hm_remove k m)"
  by (rule distinct_delete)

lemma hm_keys_insert: "fst ` set (hm_insert k v m) = insert k (fst ` set m)"
  by (simp flip: dom_map_of_conv_image_fst add: update_conv')

text \<open>\<open>iter().collect::<HashMap<_, _>>()\<close>: one insert after the other, the last value of a key wins.\<close>

definition hm_collect :: "('k \<times> 'v) list \<Rightarrow> ('k, 'v) hashmap" where
  "hm_collect kvs = fold (\<lambda>(k, v). hm_insert k v) kvs []"

lemma hm_collect_fold: "hm_get (fold (\<lambda>(k, v). hm_insert k v) kvs m) k
    = (case map_of (rev kvs) k of None \<Rightarrow> hm_get m k | Some v \<Rightarrow> Some v)"
proof (induction kvs arbitrary: m)
  case (Cons kv kvs)
  then show ?case by (cases kv) (simp add: map_add_def split: option.splits)
qed simp

lemma hm_get_collect: "hm_get (hm_collect kvs) k = map_of (rev kvs) k"
  by (simp add: hm_collect_def hm_collect_fold split: option.splits)

lemma hm_ok_collect [simp]: "hm_ok (hm_collect kvs)"
proof -
  have "hm_ok m \<Longrightarrow> hm_ok (fold (\<lambda>(k, v). hm_insert k v) kvs m)" for m :: "('a, 'b) hashmap"
  proof (induction kvs arbitrary: m)
    case (Cons kv kvs)
    then show ?case by (cases kv) simp
  qed simp
  then show ?thesis by (simp add: hm_collect_def)
qed

lemma hm_get_collect_unique:
  "distinct (map fst kvs) \<Longrightarrow> hm_get (hm_collect kvs) k = map_of kvs k"
  using map_of_inject_set[of "rev kvs" kvs] by (simp add: hm_get_collect flip: rev_map)

section \<open>Searching and splitting\<close>

fun str_contains :: "string \<Rightarrow> string \<Rightarrow> bool" where
  "str_contains [] needle = (needle = [])"
| "str_contains (c # s) needle = (prefix needle (c # s) \<or> str_contains s needle)"

lemma str_contains_iff: "str_contains s needle \<longleftrightarrow> sublist needle s"
  by (induction s) (auto simp: sublist_Cons_right)

definition strip_prefix :: "string \<Rightarrow> string \<Rightarrow> string option" where
  "strip_prefix p s = (if prefix p s then Some (drop (length p) s) else None)"

lemma strip_prefix_append [simp]: "strip_prefix p (p @ s) = Some s"
  by (simp add: strip_prefix_def)

text \<open>\<open>rsplit_once\<close>: around the last occurrence.\<close>

definition rsplit_once :: "char \<Rightarrow> string \<Rightarrow> (string \<times> string) option" where
  "rsplit_once c s =
     (case position (\<lambda>x. x = c) (rev s) of
        None \<Rightarrow> None
      | Some i \<Rightarrow> Some (take (length s - i - 1) s, drop (length s - i) s))"

lemma position_append_not:
  "(\<And>x. x \<in> set xs \<Longrightarrow> \<not> p x) \<Longrightarrow> p y \<Longrightarrow> position p (xs @ y # ys) = Some (length xs)"
  by (induction xs) auto

lemma rsplit_once_last:
  assumes "c \<notin> set t"
  shows "rsplit_once c (s @ c # t) = Some (s, t)"
proof -
  have "position (\<lambda>x. x = c) (rev t @ c # rev s) = Some (length (rev t))"
    using assms by (intro position_append_not) auto
  then show ?thesis by (simp add: rsplit_once_def)
qed

lemma rsplit_once_None: "c \<notin> set s \<Longrightarrow> rsplit_once c s = None"
  using position_None_iff[of "\<lambda>x. x = c" "rev s"] by (auto simp: rsplit_once_def)

section \<open>ASCII case and white space\<close>

definition is_ascii_upper :: "char \<Rightarrow> bool" where
  "is_ascii_upper c \<longleftrightarrow> 65 \<le> (of_char c :: nat) \<and> (of_char c :: nat) \<le> 90"

definition to_ascii_lower :: "char \<Rightarrow> char" where
  "to_ascii_lower c = (if is_ascii_upper c then char_of ((of_char c :: nat) + 32) else c)"

definition to_ascii_lowercase :: "string \<Rightarrow> string" where
  "to_ascii_lowercase s = map to_ascii_lower s"

definition is_ascii_alphanumeric :: "char \<Rightarrow> bool" where
  "is_ascii_alphanumeric c \<longleftrightarrow>
     (let n = of_char c :: nat in 48 \<le> n \<and> n \<le> 57 \<or> 65 \<le> n \<and> n \<le> 90 \<or> 97 \<le> n \<and> n \<le> 122)"

lemma of_char_eq_iff: "(of_char c :: nat) = of_char d \<longleftrightarrow> c = d"
  by (metis char_of_char)

lemma to_ascii_lower_not_upper: "\<not> is_ascii_upper (to_ascii_lower c)"
  by (auto simp: to_ascii_lower_def is_ascii_upper_def)

lemma to_ascii_lower_id: "\<not> is_ascii_upper c \<Longrightarrow> to_ascii_lower c = c"
  by (simp add: to_ascii_lower_def)

lemma to_ascii_lower_idem [simp]: "to_ascii_lower (to_ascii_lower c) = to_ascii_lower c"
  using to_ascii_lower_not_upper to_ascii_lower_id by blast

lemma to_ascii_lowercase_idem [simp]:
  "to_ascii_lowercase (to_ascii_lowercase s) = to_ascii_lowercase s"
  by (simp add: to_ascii_lowercase_def comp_def)

text \<open>The characters of a string, and the ones \<open>str::trim\<close> removes (Unicode \<open>White_Space\<close>).\<close>

definition str_chars :: "string \<Rightarrow> string list" where
  "str_chars s = map str_of_bytes (chars (bytes_of_str s))"

definition white_space :: "bytes list" where
  "white_space =
     [[0x09], [0x0A], [0x0B], [0x0C], [0x0D], [0x20], [0xC2, 0x85], [0xC2, 0xA0], [0xE1, 0x9A, 0x80],
      [0xE2, 0x80, 0x80], [0xE2, 0x80, 0x81], [0xE2, 0x80, 0x82], [0xE2, 0x80, 0x83],
      [0xE2, 0x80, 0x84], [0xE2, 0x80, 0x85], [0xE2, 0x80, 0x86], [0xE2, 0x80, 0x87],
      [0xE2, 0x80, 0x88], [0xE2, 0x80, 0x89], [0xE2, 0x80, 0x8A], [0xE2, 0x80, 0xA8],
      [0xE2, 0x80, 0xA9], [0xE2, 0x80, 0xAF], [0xE2, 0x81, 0x9F], [0xE3, 0x80, 0x80]]"

definition is_whitespace :: "string \<Rightarrow> bool" where
  "is_whitespace c \<longleftrightarrow> bytes_of_str c \<in> set white_space"

definition str_trim :: "string \<Rightarrow> string" where
  "str_trim s = concat (rev (dropWhile is_whitespace (rev (dropWhile is_whitespace (str_chars s)))))"

text \<open>\<open>trim_matches\<close> of one ASCII character.\<close>

definition trim_matches :: "char \<Rightarrow> string \<Rightarrow> string" where
  "trim_matches c s = rev (dropWhile (\<lambda>x. x = c) (rev (dropWhile (\<lambda>x. x = c) s)))"

section \<open>Parsing and sorting\<close>

text \<open>\<open>u16::from_str\<close>: an optional plus sign, then digits; the first failing character decides.\<close>

datatype int_error = IE_Empty | IE_InvalidDigit | IE_PosOverflow

fun parse_u16_digits :: "nat \<Rightarrow> string \<Rightarrow> (u16, int_error) outcome" where
  "parse_u16_digits acc [] = Ok (of_nat acc)"
| "parse_u16_digits acc (c # cs) =
     (case char_digit c of
        None \<Rightarrow> Err IE_InvalidDigit
      | Some d \<Rightarrow> if 65535 < 10 * acc + d then Err IE_PosOverflow
                  else parse_u16_digits (10 * acc + d) cs)"

fun parse_u16 :: "string \<Rightarrow> (u16, int_error) outcome" where
  "parse_u16 [] = Err IE_Empty"
| "parse_u16 (c # cs) =
     (if (c = CHR ''+'' \<or> c = CHR ''-'') \<and> cs = [] then Err IE_InvalidDigit
      else if c = CHR ''+'' then parse_u16_digits 0 cs
      else parse_u16_digits 0 (c # cs))"

lemma parse_digits_mono: "parse_digits acc s = Some n \<Longrightarrow> acc \<le> n"
  by (induction s arbitrary: acc) (fastforce split: option.splits)+

lemma parse_u16_digits_eq:
  "parse_digits acc s = Some n \<Longrightarrow> n \<le> 65535 \<Longrightarrow> parse_u16_digits acc s = Ok (of_nat n)"
proof (induction s arbitrary: acc)
  case (Cons c s)
  then obtain d where d: "char_digit c = Some d" "parse_digits (10 * acc + d) s = Some n"
    by (auto split: option.splits)
  with parse_digits_mono have "10 * acc + d \<le> 65535" using Cons.prems(2) le_trans by blast
  with Cons d show ?case by simp
qed simp

lemma char_digit_sign [simp]: "char_digit CHR ''+'' = None" "char_digit CHR ''-'' = None"
  by (simp_all add: char_digit_def)

lemma parse_u16_show: "parse_u16 (show_nat (unat (p :: u16))) = Ok p"
proof -
  have n: "unat p \<le> 65535" using unat_lt2p[of p] by simp
  obtain c cs where s: "show_nat (unat p) = c # cs" by (meson neq_Nil_conv show_nat_nonempty)
  obtain d where d: "d < 10" "c = digit_char d"
    using show_nat_digits[of c "unat p"] s by auto
  have "c \<noteq> CHR ''+''" "c \<noteq> CHR ''-''"
    using char_digit_digit_char[OF d(1)] d(2) char_digit_sign by (metis option.distinct(1))+
  then have "parse_u16 (show_nat (unat p)) = parse_u16_digits 0 (show_nat (unat p))"
    by (simp add: s)
  then show ?thesis using parse_u16_digits_eq[OF parse_digits_show_nat n] by simp
qed

text \<open>
  \<open>sort_by\<close> is stable; a comparator that compares keys is \<open>sort_key\<close>, whose stability and sortedness
  are \<open>stable_sort_key_sort_key\<close> and \<open>sorted_sort_key\<close>.
\<close>

section \<open>Characters of appended strings\<close>

lemma bytes_of_str_append: "bytes_of_str (s @ t) = bytes_of_str s @ bytes_of_str t"
  by (simp add: bytes_of_str_def)

lemma bytes_of_str_concat: "bytes_of_str (concat ss) = concat (map bytes_of_str ss)"
  by (induction ss) (simp_all add: bytes_of_str_def)

lemma chars_append:
  "utf8_valid xs \<Longrightarrow> chars (xs @ ys) = chars xs @ chars ys"
proof (induction xs rule: utf8_valid.induct)
  case (1 xs)
  show ?case
  proof (cases "xs = []")
    case False
    obtain ok n where h: "utf8_head xs = (ok, n)" by (cases "utf8_head xs")
    with False "1.prems" have ok: "ok" "utf8_valid (drop n xs)"
      by (auto simp: utf8_valid.simps[of xs])
    have n: "n \<le> length xs" using utf8_head_le[of xs] h by simp
    have "chars (drop n xs @ ys) = chars (drop n xs) @ chars ys"
      using False h[symmetric] ok by (intro "1.IH"[OF False h[symmetric] refl]) auto
    moreover have "utf8_head (xs @ ys) = (True, n)" using h ok utf8_head_append by simp
    ultimately show ?thesis
      using False n h by (simp add: chars.simps[of "xs @ ys"] chars.simps[of xs] Let_def)
  qed (simp add: chars.simps)
qed

lemma chars_valid: "utf8_valid bs \<Longrightarrow> c \<in> set (chars bs) \<Longrightarrow> utf8_valid c \<and> chars c = [c]"
proof (induction bs rule: utf8_valid.induct)
  case (1 bs)
  show ?case
  proof (cases "bs = []")
    case True
    with "1.prems" show ?thesis by (simp add: chars.simps)
  next
    case False
    obtain ok n where h: "utf8_head bs = (ok, n)" by (cases "utf8_head bs")
    with False "1.prems" have ok: "ok" "utf8_valid (drop n bs)"
      by (auto simp: utf8_valid.simps[of bs])
    have np: "0 < n" using utf8_head_pos[OF False] h by simp
    have t: "utf8_head (take n bs) = (True, n)" using utf8_head_take h ok by simp
    from "1.prems"(2) consider "c = take n bs" | "c \<in> set (chars (drop n bs))"
      using False h by (auto simp: chars.simps[of bs] Let_def)
    then show ?thesis
    proof cases
      case 1
      have "chars (take n bs) = [take n bs]"
        using False np t by (simp add: chars.simps[of "take n bs"] chars.simps[of "[]"] Let_def)
      then show ?thesis using 1 utf8_valid_char h ok by simp
    next
      case 2
      then show ?thesis using "1.IH"[OF False h[symmetric] refl] ok by blast
    qed
  qed
qed

lemma chars_concat_list:
  "(\<And>c. c \<in> set cs \<Longrightarrow> utf8_valid c \<and> chars c = [c])
    \<Longrightarrow> utf8_valid (concat cs) \<and> chars (concat cs) = cs"
  by (induction cs) (simp_all add: chars.simps[of "[]"] chars_append utf8_valid_append)

end
