(* ===== verification/Slices.thy ===== *)
theory Slices
  imports Prelude
begin

text \<open>
  The slice searches of Rust's standard library that the store and the renderers call:
  \<open>binary_search_by\<close> (the loop of the current library, whose trip count depends on the length
  only) and \<open>partition_point\<close>, which the library defines through it.

  On a slice that is partitioned by the predicate, \<open>partition_point\<close> is the length of the prefix
  where the predicate holds. On any slice, sorted or not, it is monotone in the predicate: that is
  what makes the window \<open>samples[lo..hi]\<close> of a range query well-formed.
\<close>

datatype ordering = Less | Equal | Greater

function bs_loop :: "('a \<Rightarrow> ordering) \<Rightarrow> 'a list \<Rightarrow> nat \<Rightarrow> nat \<Rightarrow> nat" where
  "bs_loop f xs base len =
     (if len \<le> 1 then base
      else let half = len div 2; mid = base + half
           in bs_loop f xs (if f (xs ! mid) = Greater then base else mid) (len - half))"
  by pat_completeness auto
termination
  by (relation "measure (\<lambda>(f, xs, base, len). len)") auto

declare bs_loop.simps [simp del]

definition binary_search_by :: "('a \<Rightarrow> ordering) \<Rightarrow> 'a list \<Rightarrow> (nat, nat) outcome" where
  "binary_search_by f xs =
     (if xs = [] then Err 0
      else let base = bs_loop f xs 0 (length xs)
           in case f (xs ! base) of
                Equal \<Rightarrow> Ok base
              | Less \<Rightarrow> Err (base + 1)
              | Greater \<Rightarrow> Err base)"

definition partition_point :: "('a \<Rightarrow> bool) \<Rightarrow> 'a list \<Rightarrow> nat" where
  "partition_point p xs =
     (case binary_search_by (\<lambda>x. if p x then Less else Greater) xs of
        Ok i \<Rightarrow> i | Err i \<Rightarrow> i | Panic \<Rightarrow> 0)"

lemma bs_loop_range:
  "0 < len \<Longrightarrow> base \<le> bs_loop f xs base len \<and> bs_loop f xs base len < base + len"
proof (induction f xs base len rule: bs_loop.induct)
  case (1 f xs base len)
  show ?case
  proof (cases "len \<le> 1")
    case True
    with "1.prems" show ?thesis by (simp add: bs_loop.simps[of f xs base len])
  next
    case False
    define b where "b = (if f (xs ! (base + len div 2)) = Greater then base else base + len div 2)"
    have e: "bs_loop f xs base len = bs_loop f xs b (len - len div 2)"
      using False by (simp add: bs_loop.simps[of f xs base len] b_def Let_def)
    have "b \<le> bs_loop f xs b (len - len div 2) \<and>
        bs_loop f xs b (len - len div 2) < b + (len - len div 2)"
      unfolding b_def using False by (intro "1.IH") auto
    moreover have "base \<le> b" and "b + (len - len div 2) \<le> base + len"
      using False by (auto simp: b_def)
    ultimately show ?thesis unfolding e by linarith
  qed
qed

lemma bs_loop_mono:
  assumes "0 < len" and "\<And>x. g x = Greater \<Longrightarrow> f x = Greater"
  shows "bs_loop f xs base len \<le> bs_loop g xs base len"
  using assms
proof (induction f xs base len rule: bs_loop.induct)
  case (1 f xs base len)
  let ?half = "len div 2" and ?mid = "base + len div 2"
  show ?case
  proof (cases "len \<le> 1")
    case True
    then show ?thesis by (simp add: bs_loop.simps[of f xs base len] bs_loop.simps[of g xs base len])
  next
    case False
    note unf = bs_loop.simps[of f xs base len] bs_loop.simps[of g xs base len]
    show ?thesis
    proof (cases "(f (xs ! ?mid) = Greater) = (g (xs ! ?mid) = Greater)")
      case True
      have "bs_loop f xs (if f (xs ! ?mid) = Greater then base else ?mid) (len - ?half)
          \<le> bs_loop g xs (if f (xs ! ?mid) = Greater then base else ?mid) (len - ?half)"
        using False "1.prems" by (intro "1.IH") auto
      with True False show ?thesis by (simp add: unf Let_def)
    next
      case neq: False
      then have fg: "f (xs ! ?mid) = Greater" "g (xs ! ?mid) \<noteq> Greater"
        using "1.prems"(2) by auto
      have "bs_loop f xs base (len - ?half) < base + (len - ?half)"
        using bs_loop_range[of "len - ?half" base f xs] False by simp
      moreover have "?mid \<le> bs_loop g xs ?mid (len - ?half)"
        using bs_loop_range[of "len - ?half" ?mid g xs] False by simp
      ultimately have "bs_loop f xs base (len - ?half) \<le> bs_loop g xs ?mid (len - ?half)"
        by linarith
      with fg False show ?thesis by (simp add: unf Let_def)
    qed
  qed
qed

lemma partition_point_eq:
  assumes "xs \<noteq> []"
  shows "partition_point p xs =
    (let b = bs_loop (\<lambda>x. if p x then Less else Greater) xs 0 (length xs)
     in if p (xs ! b) then b + 1 else b)"
  using assms by (simp add: partition_point_def binary_search_by_def Let_def)

lemma partition_point_Nil [simp]: "partition_point p [] = 0"
  by (simp add: partition_point_def binary_search_by_def)

lemma partition_point_le: "partition_point p xs \<le> length xs"
proof (cases "xs = []")
  case False
  then have "bs_loop (\<lambda>x. if p x then Less else Greater) xs 0 (length xs) < length xs"
    using bs_loop_range[of "length xs" 0 _ xs] by simp
  then show ?thesis using False by (simp add: partition_point_eq Let_def)
qed simp

lemma partition_point_mono:
  assumes "\<And>x. p x \<Longrightarrow> q x"
  shows "partition_point p xs \<le> partition_point q xs"
proof (cases "xs = []")
  case False
  let ?f = "\<lambda>x. if p x then Less else Greater" and ?g = "\<lambda>x. if q x then Less else Greater"
  have "bs_loop ?f xs 0 (length xs) \<le> bs_loop ?g xs 0 (length xs)"
    using False assms by (intro bs_loop_mono) (auto split: if_splits)
  then consider "bs_loop ?f xs 0 (length xs) < bs_loop ?g xs 0 (length xs)"
    | "bs_loop ?f xs 0 (length xs) = bs_loop ?g xs 0 (length xs)" by linarith
  then show ?thesis
    by cases (use False assms in \<open>auto simp: partition_point_eq Let_def\<close>)
qed simp

text \<open>The loop on a slice partitioned at \<open>k\<close>.\<close>

lemma bs_loop_partitioned:
  assumes "0 < len" and "base + len \<le> length xs"
    and "\<And>i. i < length xs \<Longrightarrow> f (xs ! i) \<noteq> Greater \<longleftrightarrow> i < k"
    and "base = 0 \<or> base < k" and "k \<le> base + len"
  shows "(bs_loop f xs base len = 0 \<or> bs_loop f xs base len < k) \<and> k \<le> bs_loop f xs base len + 1"
  using assms
proof (induction f xs base len rule: bs_loop.induct)
  case (1 f xs base len)
  show ?case
  proof (cases "len \<le> 1")
    case True
    with "1.prems" show ?thesis by (auto simp: bs_loop.simps[of f xs base len])
  next
    case False
    define b where "b = (if f (xs ! (base + len div 2)) = Greater then base else base + len div 2)"
    have e: "bs_loop f xs base len = bs_loop f xs b (len - len div 2)"
      using False by (simp add: bs_loop.simps[of f xs base len] b_def Let_def)
    have mid: "f (xs ! (base + len div 2)) \<noteq> Greater \<longleftrightarrow> base + len div 2 < k"
      using "1.prems"(2) False by (intro "1.prems"(3)) linarith
    show ?thesis
      unfolding e b_def
    proof (rule "1.IH"[OF False refl refl])
      show "0 < len - len div 2" using False by simp
      show "(if f (xs ! (base + len div 2)) = Greater then base else base + len div 2)
          + (len - len div 2) \<le> length xs"
        using "1.prems"(2) by auto
      show "\<And>i. i < length xs \<Longrightarrow> f (xs ! i) \<noteq> Greater \<longleftrightarrow> i < k" by (rule "1.prems"(3))
      show "(if f (xs ! (base + len div 2)) = Greater then base else base + len div 2) = 0 \<or>
          (if f (xs ! (base + len div 2)) = Greater then base else base + len div 2) < k"
        using "1.prems"(4) mid by auto
      show "k \<le> (if f (xs ! (base + len div 2)) = Greater then base else base + len div 2)
          + (len - len div 2)"
        using "1.prems"(5) mid by auto
    qed
  qed
qed

lemma partition_point_unique:
  assumes k: "k \<le> length xs" and part: "\<And>i. i < length xs \<Longrightarrow> p (xs ! i) \<longleftrightarrow> i < k"
  shows "partition_point p xs = k"
proof (cases "xs = []")
  case True
  with k show ?thesis by simp
next
  case False
  let ?f = "\<lambda>x. if p x then Less else Greater"
  let ?b = "bs_loop ?f xs 0 (length xs)"
  have "(?b = 0 \<or> ?b < k) \<and> k \<le> ?b + 1"
    using False k part by (intro bs_loop_partitioned) auto
  moreover have "?b < length xs"
    using False bs_loop_range[of "length xs" 0 ?f xs] by simp
  ultimately show ?thesis
    using False part[of ?b] by (auto simp: partition_point_eq Let_def)
qed

lemma partition_point_takeWhile:
  assumes "\<forall>x\<in>set (dropWhile p xs). \<not> p x"
  shows "partition_point p xs = length (takeWhile p xs)"
proof (rule partition_point_unique)
  show "length (takeWhile p xs) \<le> length xs" by (rule length_takeWhile_le)
  fix i assume i: "i < length xs"
  show "p (xs ! i) \<longleftrightarrow> i < length (takeWhile p xs)"
  proof
    assume "i < length (takeWhile p xs)"
    then show "p (xs ! i)" by (metis nth_mem set_takeWhileD takeWhile_nth)
  next
    assume pi: "p (xs ! i)"
    show "i < length (takeWhile p xs)"
    proof (rule ccontr)
      assume n: "\<not> i < length (takeWhile p xs)"
      then have "xs ! i = dropWhile p xs ! (i - length (takeWhile p xs))"
        by (metis nth_append takeWhile_dropWhile_id)
      moreover have "i - length (takeWhile p xs) < length (dropWhile p xs)"
        using i n by (simp add: dropWhile_eq_drop)
      ultimately have "xs ! i \<in> set (dropWhile p xs)" by simp
      with pi assms show False by blast
    qed
  qed
qed

text \<open>For a slice sorted by a key the partition points of threshold predicates.\<close>

lemma sorted_filter_split:
  assumes "sorted (map key xs)" and "\<And>a b. a \<le> b \<Longrightarrow> P b \<Longrightarrow> P a"
  shows "filter (\<lambda>x. P (key x)) xs = takeWhile (\<lambda>x. P (key x)) xs"
    and "filter (\<lambda>x. \<not> P (key x)) xs = dropWhile (\<lambda>x. P (key x)) xs"
  using assms(1)
proof (induction xs)
  case (Cons x xs)
  { case 1
    have "filter (\<lambda>x. P (key x)) xs = []" if "\<not> P (key x)"
      using that 1 assms(2) by (auto simp: filter_empty_conv)
    then show ?case using Cons(1) 1 by auto
  next
    case 2
    have "filter (\<lambda>x. \<not> P (key x)) xs = xs" if "\<not> P (key x)"
      using that 2 assms(2) by (auto simp: filter_id_conv)
    then show ?case using Cons(2) 2 by auto }
qed simp_all

lemma partition_point_sorted:
  assumes "sorted (map key xs)" and "\<And>a b. a \<le> b \<Longrightarrow> P b \<Longrightarrow> P a"
  shows "partition_point (\<lambda>x. P (key x)) xs = length (filter (\<lambda>x. P (key x)) xs)"
proof -
  note sp = sorted_filter_split[where P = P, OF assms]
  have "set (dropWhile (\<lambda>x. P (key x)) xs) = set (filter (\<lambda>x. \<not> P (key x)) xs)"
    by (simp only: sp(2))
  then have "\<forall>x\<in>set (dropWhile (\<lambda>x. P (key x)) xs). \<not> P (key x)"
    by simp
  then show ?thesis
    by (simp only: partition_point_takeWhile sp(1))
qed

lemma take_partition_point:
  assumes "sorted (map key xs)" and "\<And>a b. a \<le> b \<Longrightarrow> P b \<Longrightarrow> P a"
  shows "take (partition_point (\<lambda>x. P (key x)) xs) xs = filter (\<lambda>x. P (key x)) xs"
    and "drop (partition_point (\<lambda>x. P (key x)) xs) xs = filter (\<lambda>x. \<not> P (key x)) xs"
proof -
  note sp = sorted_filter_split[where P = P, OF assms]
  have e: "partition_point (\<lambda>x. P (key x)) xs = length (takeWhile (\<lambda>x. P (key x)) xs)"
    using partition_point_sorted[where P = P, OF assms] by (simp only: sp(1))
  show "take (partition_point (\<lambda>x. P (key x)) xs) xs = filter (\<lambda>x. P (key x)) xs"
    by (simp only: e sp(1) takeWhile_eq_take[symmetric])
  show "drop (partition_point (\<lambda>x. P (key x)) xs) xs = filter (\<lambda>x. \<not> P (key x)) xs"
    by (simp only: e sp(2) dropWhile_eq_drop[symmetric])
qed

end
