(* ===== verification/Float64.thy ===== *)
theory Float64
  imports Prelude "HOL-Library.Log_Nat"
begin

text \<open>
  The part of Rust's \<open>f64\<close> (IEEE 754 binary64) the crates use: decoding of bit patterns,
  conversion from integers, comparison, \<open>min\<close>/\<open>max\<close>, the four operations, \<open>floor\<close> and the
  saturating casts back to integers.

  A value is a NaN, an infinity or the rational number it denotes. Every operation computes the
  exact rational result and rounds it to the nearest representable number, ties to even, with
  gradual underflow at exponent \<open>-1074\<close> and overflow to infinity at \<open>2 ^ 1024\<close>. The sign of zero and
  the payload of a NaN are not represented: nothing modelled here reads them.
\<close>

datatype f64 = FNaN | FInf bool | Fin rat

section \<open>Rounding\<close>

text \<open>The binary exponent of a positive rational.\<close>

definition ilog2 :: "rat \<Rightarrow> int" where
  "ilog2 x = (let (a, b) = quotient_of x; k = bitlen a - bitlen b
              in if 2 powi k \<le> x then k else k - 1)"

definition round_half_even :: "rat \<Rightarrow> int" where
  "round_half_even x = (let n = \<lfloor>x\<rfloor>; d = x - of_int n in
     if d < 1 / 2 then n else if 1 / 2 < d then n + 1 else if even n then n else n + 1)"

definition f64_exp :: "rat \<Rightarrow> int" where
  "f64_exp x = max (- 1074) (ilog2 x - 52)"

definition round_pos :: "rat \<Rightarrow> rat" where
  "round_pos x = (let u = 2 powi f64_exp x in of_int (round_half_even (x / u)) * u)"

definition f32_exp :: "rat \<Rightarrow> int" where
  "f32_exp x = max (ilog2 x - 23) (- 149)"

definition f32_round_pos :: "rat \<Rightarrow> rat" where
  "f32_round_pos x = (let u = 2 powi f32_exp x in of_int (round_half_even (x / u)) * u)"

definition f64_round :: "rat \<Rightarrow> f64" where
  "f64_round x =
     (if x = 0 then Fin 0
      else if 0 < x then (if 2 powi 1024 \<le> round_pos x then FInf False else Fin (round_pos x))
      else (if 2 powi 1024 \<le> round_pos (- x) then FInf True else Fin (- round_pos (- x))))"

lemma powi2_pos [simp]: "0 < (2::rat) powi k"
  by (simp add: zero_less_power_int)

lemma powi2_add: "(2::rat) powi (a + b) = 2 powi a * 2 powi b"
  by (simp add: power_int_add)

lemma powi2_mono: "a \<le> b \<Longrightarrow> (2::rat) powi a \<le> 2 powi b"
  by (simp add: power_int_increasing)

lemma powi2_less: "(2::rat) powi a < 2 powi b \<longleftrightarrow> a < b"
  by (metis linorder_not_less powi2_mono power_int_strict_increasing one_less_numeral_iff semiring_norm(76))

lemma powi2_nat: "0 \<le> k \<Longrightarrow> (2::rat) powi k = of_int (2 ^ nat k)"
  by (simp add: power_int_def)

lemma bitlen_rat_bounds:
  assumes "0 < (a::int)"
  shows "2 powi (bitlen a - 1) \<le> (of_int a :: rat)" and "(of_int a :: rat) < 2 powi (bitlen a)"
proof -
  have b: "2 ^ nat (bitlen a - 1) \<le> a" "a < 2 ^ nat (bitlen a)"
    using bitlen_bounds[OF assms] by auto
  have b3: "0 < bitlen a"
    using bitlen_nonneg[of a] bitlen_eq_zero_iff[of a] assms by linarith
  have "(of_int (2 ^ nat (bitlen a - 1)) :: rat) \<le> of_int a" using b(1) by (simp only: of_int_le_iff)
  then show "2 powi (bitlen a - 1) \<le> (of_int a :: rat)" using b3 by (simp add: powi2_nat)
  have "(of_int a :: rat) < of_int (2 ^ nat (bitlen a))" using b(2) by (simp only: of_int_less_iff)
  then show "(of_int a :: rat) < 2 powi (bitlen a)" using b3 by (simp add: powi2_nat)
qed

lemma ilog2_bounds:
  assumes "0 < x"
  shows "2 powi ilog2 x \<le> x" and "x < 2 powi (ilog2 x + 1)"
proof -
  obtain a b where q: "quotient_of x = (a, b)" by (cases "quotient_of x")
  have x: "x = of_int a / of_int b" using quotient_of_div[OF q] .
  have b: "0 < b" using quotient_of_denom_pos[OF q] .
  have a: "0 < a" using assms x b by (simp add: zero_less_divide_iff)
  define k where "k = bitlen a - bitlen b"
  note ba = bitlen_rat_bounds[OF a] and bb = bitlen_rat_bounds[OF b]
  have b': "(0::rat) < of_int b" using b by simp
  have "x * 2 powi (bitlen b - 1) \<le> x * of_int b"
    using bb(1) assms by (intro mult_left_mono) auto
  also have "\<dots> = of_int a" using x b' by simp
  also have "\<dots> < 2 powi (bitlen a)" by (rule ba(2))
  also have "\<dots> = 2 powi (k + 1) * 2 powi (bitlen b - 1)"
    by (simp add: k_def flip: powi2_add)
  finally have up: "x < 2 powi (k + 1)" by (simp add: mult_less_cancel_right)
  have "(2::rat) powi (k - 1) * 2 powi (bitlen b) = 2 powi (bitlen a - 1)"
    by (simp add: k_def flip: powi2_add)
  also have "\<dots> \<le> of_int a" by (rule ba(1))
  also have "\<dots> = x * of_int b" using x b' by simp
  also have "\<dots> < x * 2 powi (bitlen b)"
    using bb(2) assms by simp
  finally have lo: "2 powi (k - 1) < x" by (simp add: mult_less_cancel_right)
  have e: "ilog2 x = (if 2 powi k \<le> x then k else k - 1)"
    by (simp add: ilog2_def q k_def)
  show "2 powi ilog2 x \<le> x" using e lo by (auto split: if_splits)
  show "x < 2 powi (ilog2 x + 1)" using e up by (auto split: if_splits)
qed

lemma ilog2_eqI:
  assumes "2 powi k \<le> x" and "x < 2 powi (k + 1)"
  shows "ilog2 x = k"
proof -
  have x: "0 < x" using assms(1) powi2_pos[of k] by linarith
  have "(2::rat) powi ilog2 x < 2 powi (k + 1)" and "(2::rat) powi k < 2 powi (ilog2 x + 1)"
    using ilog2_bounds[OF x] assms by linarith+
  then show ?thesis by (simp add: powi2_less)
qed

lemma ilog2_mono: "0 < x \<Longrightarrow> x \<le> y \<Longrightarrow> ilog2 x \<le> ilog2 y"
proof -
  assume "0 < x" "x \<le> y"
  then have "(2::rat) powi ilog2 x < 2 powi (ilog2 y + 1)"
    using ilog2_bounds[of x] ilog2_bounds[of y] by linarith
  then show ?thesis by (simp add: powi2_less)
qed

lemma round_half_even_near:
  "of_int (round_half_even x) \<le> x + 1 / 2" "x - 1 / 2 \<le> of_int (round_half_even x)"
proof -
  have f: "of_int \<lfloor>x\<rfloor> \<le> x" "x < of_int \<lfloor>x\<rfloor> + 1" by linarith+
  show "of_int (round_half_even x) \<le> x + 1 / 2"
    unfolding round_half_even_def Let_def using f by (simp split: if_split) linarith
  show "x - 1 / 2 \<le> of_int (round_half_even x)"
    unfolding round_half_even_def Let_def using f by (simp split: if_split)
qed

lemma round_half_even_of_int [simp]: "round_half_even (of_int n) = n"
  by (simp add: round_half_even_def)

lemma round_half_even_mono:
  assumes "x \<le> y"
  shows "round_half_even x \<le> round_half_even y"
proof (cases "\<lfloor>x\<rfloor> = \<lfloor>y\<rfloor>")
  case True
  with assms show ?thesis by (auto simp: round_half_even_def Let_def)
next
  case False
  with assms have "\<lfloor>x\<rfloor> + 1 \<le> \<lfloor>y\<rfloor>" using floor_mono[OF assms] by linarith
  moreover have "round_half_even x \<le> \<lfloor>x\<rfloor> + 1" and "\<lfloor>y\<rfloor> \<le> round_half_even y"
    by (auto simp: round_half_even_def Let_def)
  ultimately show ?thesis by linarith
qed

text \<open>
  What the two binary formats share: \<open>p\<close> fraction bits, a least exponent, and a significand rounded half to even
  at the exponent of the number.
\<close>

locale float_format =
  fixes expo :: "rat \<Rightarrow> int" and rpos :: "rat \<Rightarrow> rat" and p :: nat and emin :: int
  assumes expo: "expo x = max emin (ilog2 x - int p)"
    and rpos: "rpos x = of_int (round_half_even (x / 2 powi expo x)) * 2 powi expo x"
    and emin: "emin \<le> 0"
begin

lemma exact:
  assumes "x / 2 powi expo x = of_int m"
  shows "rpos x = x"
proof -
  have "rpos x = x / 2 powi expo x * 2 powi expo x" unfolding rpos assms by simp
  then show ?thesis by simp
qed

lemma le_int: "x \<le> of_int m * 2 powi expo x \<Longrightarrow> rpos x \<le> of_int m * 2 powi expo x"
proof -
  assume "x \<le> of_int m * 2 powi expo x"
  then have "x / 2 powi expo x \<le> of_int m" by (simp add: divide_le_eq)
  from round_half_even_mono[OF this] show ?thesis by (simp add: rpos)
qed

lemma ge_int: "of_int m * 2 powi expo x \<le> x \<Longrightarrow> of_int m * 2 powi expo x \<le> rpos x"
proof -
  assume "of_int m * 2 powi expo x \<le> x"
  then have "of_int m \<le> x / 2 powi expo x" by (simp add: le_divide_eq)
  from round_half_even_mono[OF this] show ?thesis by (simp add: rpos)
qed

lemma mono:
  assumes "0 < x" and "x \<le> y"
  shows "rpos x \<le> rpos y"
proof (cases "expo x = expo y")
  case True
  have "x / 2 powi expo x \<le> y / 2 powi expo x"
    using assms by (simp add: divide_right_mono less_imp_le)
  from round_half_even_mono[OF this] show ?thesis by (simp add: rpos True)
next
  case False
  let ?k = "ilog2 y"
  have le: "ilog2 x \<le> ?k" by (rule ilog2_mono[OF assms])
  have ey: "expo y = ?k - int p" and lt: "ilog2 x < ?k" and ex: "expo x \<le> ?k"
    using False le by (auto simp: expo)
  have px: "(2::rat) powi ?k = of_int (2 ^ nat (?k - expo x)) * 2 powi expo x"
  proof -
    have "(2::rat) powi ?k = 2 powi (?k - expo x) * 2 powi expo x"
      using powi2_add[of "?k - expo x" "expo x"] by simp
    then show ?thesis using ex powi2_nat[of "?k - expo x"] by simp
  qed
  have "x < 2 powi (ilog2 x + 1)" using ilog2_bounds(2)[OF assms(1)] .
  also have "\<dots> \<le> 2 powi ?k" using lt by (intro powi2_mono) simp
  finally have "rpos x \<le> 2 powi ?k" unfolding px by (intro le_int) simp
  moreover have "2 powi ?k \<le> rpos y"
  proof -
    have "(2::rat) powi ?k = of_int (2 ^ p) * 2 powi expo y"
      using powi2_add[of "int p" "?k - int p"] powi2_nat[of "int p"] by (simp add: ey)
    moreover have "2 powi ?k \<le> y" using ilog2_bounds(1)[of y] assms by simp
    ultimately show ?thesis using ge_int[of "2 ^ p" y] by simp
  qed
  ultimately show ?thesis by simp
qed

lemma nonneg: "0 < x \<Longrightarrow> 0 \<le> rpos x"
proof -
  assume "0 < x"
  then have "(0::rat) \<le> x / 2 powi expo x" by simp
  from round_half_even_mono[OF this] have "0 \<le> round_half_even (x / 2 powi expo x)"
    using round_half_even_of_int[of 0] by simp
  then show ?thesis by (simp add: rpos)
qed

text \<open>Integers of at most one bit more than the fraction are exact.\<close>

lemma integer:
  assumes "0 < n" and "n \<le> 2 ^ (p + 1)"
  shows "rpos (of_int n) = of_int n"
proof -
  have x: "(0::rat) < of_int n" using assms by simp
  show ?thesis
  proof (cases "n = 2 ^ (p + 1)")
    case True
    have n: "(of_int n :: rat) = 2 powi (int p + 1)" using powi2_nat[of "int p + 1"] by (simp add: True nat_add_distrib)
    have "ilog2 (of_int n) = int p + 1" unfolding n by (intro ilog2_eqI) (simp_all add: powi2_less)
    then have e: "expo (of_int n) = 1" using emin by (simp add: expo)
    have "of_int n / 2 powi expo (of_int n) = (of_int (2 ^ p) :: rat)" unfolding e using True by simp
    then show ?thesis by (rule exact)
  next
    case False
    then have "(of_int n :: rat) < of_int (2 ^ (p + 1))" using assms(2) by (simp only: of_int_less_iff)
    also have "\<dots> = 2 powi (int p + 1)" using powi2_nat[of "int p + 1"] by (simp add: nat_add_distrib)
    finally have "(2::rat) powi ilog2 (of_int n) < 2 powi (int p + 1)" using ilog2_bounds(1)[OF x] by simp
    then have "ilog2 (of_int n) < int p + 1" by (simp only: powi2_less)
    then have e: "expo (of_int n) \<le> 0" using emin by (simp add: expo)
    have "(of_int n :: rat) / 2 powi expo (of_int n) = of_int n * 2 powi (- expo (of_int n))"
      by (simp add: power_int_minus_divide)
    also have "\<dots> = of_int (n * 2 ^ nat (- expo (of_int n)))"
      using e powi2_nat[of "- expo (of_int n)"] by simp
    finally show ?thesis by (rule exact)
  qed
qed

lemma powi:
  assumes "emin + int p \<le> k"
  shows "rpos (2 powi k) = 2 powi k"
proof -
  have "ilog2 (2 powi k) = k" by (rule ilog2_eqI) (simp_all add: powi2_less)
  then have e: "expo (2 powi k) = k - int p" using assms by (simp add: expo)
  have "(2::rat) powi k = 2 powi (int p + (k - int p))" by simp
  also have "\<dots> = of_int (2 ^ p) * 2 powi (k - int p)" by (simp only: powi2_add) (simp add: powi2_nat)
  finally have "(2::rat) powi k / 2 powi (k - int p) = of_int (2 ^ p)" by simp
  then show ?thesis using e by (intro exact) simp
qed

end

interpretation binary64: float_format f64_exp round_pos 52 "- 1074"
  by unfold_locales (simp_all add: f64_exp_def round_pos_def Let_def)

interpretation binary32: float_format f32_exp f32_round_pos 23 "- 149"
  by unfold_locales (simp_all add: f32_exp_def f32_round_pos_def Let_def max.commute)

lemmas round_pos_exact = binary64.exact
lemmas round_pos_mono = binary64.mono
lemmas round_pos_nonneg = binary64.nonneg
lemmas round_pos_int = binary64.integer [simplified]
lemmas round_pos_powi = binary64.powi [simplified]

text \<open>In the normal range the relative error is at most \<open>2 ^ -53\<close>.\<close>

lemma round_pos_rel_error:
  assumes "2 powi (- 1022) \<le> x"
  shows "round_pos x \<le> x * (1 + 2 powi (- 53))" and "x * (1 - 2 powi (- 53)) \<le> round_pos x"
proof -
  have x: "0 < x" using assms powi2_pos[of "- 1022"] by linarith
  have "(2::rat) powi (- 1022) < 2 powi (ilog2 x + 1)" using ilog2_bounds(2)[OF x] assms by linarith
  then have "- 1022 < ilog2 x + 1" by (simp only: powi2_less)
  then have e: "f64_exp x = ilog2 x - 52" by (simp add: f64_exp_def)
  define u where "u = (2::rat) powi f64_exp x"
  have u: "0 < u" by (simp add: u_def)
  have "u / 2 = 2 powi (ilog2 x) * 2 powi (- 53)"
    unfolding u_def e using powi2_add[of "ilog2 x - 53" 1] powi2_add[of "ilog2 x" "- 53"] by simp
  then have h: "u / 2 \<le> x * 2 powi (- 53)" using ilog2_bounds(1)[OF x] by simp
  have r: "round_pos x = of_int (round_half_even (x / u)) * u" by (simp add: round_pos_def Let_def u_def)
  have "round_pos x \<le> (x / u + 1 / 2) * u"
    unfolding r using round_half_even_near(1)[of "x / u"] u by (intro mult_right_mono) auto
  also have "\<dots> = x + u / 2" using u by (simp add: field_simps)
  finally show "round_pos x \<le> x * (1 + 2 powi (- 53))" using h by (simp add: distrib_left)
  have "x - u / 2 = (x / u - 1 / 2) * u" using u by (simp add: field_simps)
  also have "\<dots> \<le> round_pos x"
    unfolding r using round_half_even_near(2)[of "x / u"] u by (intro mult_right_mono) auto
  finally show "x * (1 - 2 powi (- 53)) \<le> round_pos x" using h by (simp add: right_diff_distrib)
qed

section \<open>Conversions and operations\<close>

text \<open>\<open>n as f64\<close> for an integer \<open>n\<close> of any width.\<close>

definition f64_of_int :: "int \<Rightarrow> f64" where
  "f64_of_int n = f64_round (of_int n)"

text \<open>\<open>f64::from_le_bytes\<close> after the bytes are put together, and \<open>f32::from_le_bytes(..) as f64\<close>,
  which is exact.\<close>

definition f64_of_bits :: "u64 \<Rightarrow> f64" where
  "f64_of_bits w =
     (let neg = (2 ^ 63 \<le> unat w); e = unat w div 2 ^ 52 mod 2 ^ 11; m = unat w mod 2 ^ 52;
          s = (if neg then - 1 else 1) in
      if e = 2047 then (if m = 0 then FInf neg else FNaN)
      else if e = 0 then Fin (s * of_nat m * 2 powi (- 1074))
      else Fin (s * of_nat (2 ^ 52 + m) * 2 powi (int e - 1075)))"

definition f64_of_f32_bits :: "u32 \<Rightarrow> f64" where
  "f64_of_f32_bits w =
     (let neg = (2 ^ 31 \<le> unat w); e = unat w div 2 ^ 23 mod 2 ^ 8; m = unat w mod 2 ^ 23;
          s = (if neg then - 1 else 1) in
      if e = 255 then (if m = 0 then FInf neg else FNaN)
      else if e = 0 then Fin (s * of_nat m * 2 powi (- 149))
      else Fin (s * of_nat (2 ^ 23 + m) * 2 powi (int e - 150)))"

fun f64_neg :: "f64 \<Rightarrow> f64" where
  "f64_neg FNaN = FNaN"
| "f64_neg (FInf s) = FInf (\<not> s)"
| "f64_neg (Fin x) = Fin (- x)"

fun f64_add :: "f64 \<Rightarrow> f64 \<Rightarrow> f64" where
  "f64_add (Fin x) (Fin y) = f64_round (x + y)"
| "f64_add (FInf s) (FInf t) = (if s = t then FInf s else FNaN)"
| "f64_add (FInf s) (Fin y) = FInf s"
| "f64_add (Fin x) (FInf t) = FInf t"
| "f64_add _ _ = FNaN"

definition f64_sub :: "f64 \<Rightarrow> f64 \<Rightarrow> f64" where
  "f64_sub a b = f64_add a (f64_neg b)"

fun f64_mul :: "f64 \<Rightarrow> f64 \<Rightarrow> f64" where
  "f64_mul (Fin x) (Fin y) = f64_round (x * y)"
| "f64_mul (FInf s) (FInf t) = FInf (s \<noteq> t)"
| "f64_mul (FInf s) (Fin y) = (if y = 0 then FNaN else FInf (s \<noteq> (y < 0)))"
| "f64_mul (Fin x) (FInf t) = (if x = 0 then FNaN else FInf (t \<noteq> (x < 0)))"
| "f64_mul _ _ = FNaN"

text \<open>A zero divisor is taken as positive zero; the crates never divide by zero.\<close>

fun f64_div :: "f64 \<Rightarrow> f64 \<Rightarrow> f64" where
  "f64_div (Fin x) (Fin y) =
     (if y = 0 then (if x = 0 then FNaN else FInf (x < 0)) else f64_round (x / y))"
| "f64_div (FInf s) (Fin y) = FInf (s \<noteq> (y < 0))"
| "f64_div (Fin x) (FInf t) = Fin 0"
| "f64_div _ _ = FNaN"

text \<open>The IEEE comparisons: every comparison with a NaN is false.\<close>

fun f64_lt :: "f64 \<Rightarrow> f64 \<Rightarrow> bool" where
  "f64_lt (Fin x) (Fin y) = (x < y)"
| "f64_lt (FInf s) (Fin y) = s"
| "f64_lt (Fin x) (FInf t) = (\<not> t)"
| "f64_lt (FInf s) (FInf t) = (s \<and> \<not> t)"
| "f64_lt _ _ = False"

definition f64_le :: "f64 \<Rightarrow> f64 \<Rightarrow> bool" where
  "f64_le a b \<longleftrightarrow> a \<noteq> FNaN \<and> b \<noteq> FNaN \<and> \<not> f64_lt b a"

text \<open>\<open>f64::min\<close> and \<open>f64::max\<close>: a NaN argument yields the other one.\<close>

definition f64_min :: "f64 \<Rightarrow> f64 \<Rightarrow> f64" where
  "f64_min a b = (if a = FNaN then b else if b = FNaN then a else if f64_lt b a then b else a)"

definition f64_max :: "f64 \<Rightarrow> f64 \<Rightarrow> f64" where
  "f64_max a b = (if a = FNaN then b else if b = FNaN then a else if f64_lt a b then b else a)"

fun f64_floor :: "f64 \<Rightarrow> f64" where
  "f64_floor (Fin x) = Fin (of_int \<lfloor>x\<rfloor>)"
| "f64_floor a = a"

text \<open>\<open>x as u64\<close> and friends: truncation towards zero, saturating at the bounds, NaN to 0.\<close>

definition trunc_rat :: "rat \<Rightarrow> int" where
  "trunc_rat x = (if 0 \<le> x then \<lfloor>x\<rfloor> else - \<lfloor>- x\<rfloor>)"

definition f64_to_int :: "int \<Rightarrow> int \<Rightarrow> f64 \<Rightarrow> int" where
  "f64_to_int lo hi a = (case a of FNaN \<Rightarrow> 0 | FInf neg \<Rightarrow> (if neg then lo else hi)
     | Fin x \<Rightarrow> max lo (min hi (trunc_rat x)))"

definition f64_to_i64 :: "f64 \<Rightarrow> int" where
  "f64_to_i64 = f64_to_int (- (2 ^ 63)) (2 ^ 63 - 1)"

definition f64_to_u64 :: "f64 \<Rightarrow> u64" where
  "f64_to_u64 a = of_int (f64_to_int 0 (2 ^ 64 - 1) a)"

definition f64_to_u32 :: "f64 \<Rightarrow> u32" where
  "f64_to_u32 a = of_int (f64_to_int 0 (2 ^ 32 - 1) a)"

fun f64_abs :: "f64 \<Rightarrow> f64" where
  "f64_abs FNaN = FNaN"
| "f64_abs (FInf neg) = FInf False"
| "f64_abs (Fin r) = Fin \<bar>r\<bar>"

text \<open>\<open>as f32\<close>; the development keeps the exact value of an \<open>f32\<close>.\<close>

fun f64_to_f32 :: "f64 \<Rightarrow> f64" where
  "f64_to_f32 (Fin x) =
     (if x = 0 then Fin 0
      else if 0 < x then (if 2 powi 128 \<le> f32_round_pos x then FInf False else Fin (f32_round_pos x))
      else (if 2 powi 128 \<le> f32_round_pos (- x) then FInf True else Fin (- f32_round_pos (- x))))"
| "f64_to_f32 a = a"

section \<open>Facts\<close>

lemma f64_lt_irrefl [simp]: "\<not> f64_lt a a"
  by (cases a) auto

lemma f64_lt_trans: "f64_lt a b \<Longrightarrow> f64_lt b c \<Longrightarrow> f64_lt a c"
  by (cases a; cases b; cases c) auto

lemma f64_le_refl [simp]: "f64_le a a \<longleftrightarrow> a \<noteq> FNaN"
  by (simp add: f64_le_def)

lemma f64_le_trans: "f64_le a b \<Longrightarrow> f64_le b c \<Longrightarrow> f64_le a c"
  by (cases a; cases b; cases c) (auto simp: f64_le_def)

lemma f64_min_le:
  "b \<noteq> FNaN \<Longrightarrow> f64_le (f64_min a b) b" "a \<noteq> FNaN \<Longrightarrow> f64_le (f64_min a b) a"
  by (cases a; cases b; auto simp: f64_le_def f64_min_def)+

lemma f64_max_ge:
  "b \<noteq> FNaN \<Longrightarrow> f64_le b (f64_max a b)" "a \<noteq> FNaN \<Longrightarrow> f64_le a (f64_max a b)"
  by (cases a; cases b; auto simp: f64_le_def f64_max_def)+

lemma f64_min_choice: "f64_min a b = a \<or> f64_min a b = b"
  by (simp add: f64_min_def)

lemma f64_max_choice: "f64_max a b = a \<or> f64_max a b = b"
  by (simp add: f64_max_def)

lemma f64_min_NaN [simp]: "f64_min a b = FNaN \<longleftrightarrow> a = FNaN \<and> b = FNaN"
  by (simp add: f64_min_def)

lemma f64_max_NaN [simp]: "f64_max a b = FNaN \<longleftrightarrow> a = FNaN \<and> b = FNaN"
  by (simp add: f64_max_def)

text \<open>Integers up to \<open>2 ^ 53\<close> in size convert exactly.\<close>

lemma f64_of_int_exact:
  assumes "\<bar>n\<bar> \<le> 2 ^ 53"
  shows "f64_of_int n = Fin (of_int n)"
proof -
  have big: "\<not> (2::rat) powi 1024 \<le> of_int k" if "k \<le> 2 ^ 53" for k
  proof -
    have "(of_int k :: rat) \<le> of_int (2 ^ 53)" using that by (simp only: of_int_le_iff)
    also have "\<dots> = 2 powi 53" by simp
    also have "\<dots> < 2 powi 1024" by (simp only: powi2_less)
    finally show ?thesis by simp
  qed
  consider "n = 0" | "0 < n" | "n < 0" by linarith
  then show ?thesis
  proof cases
    case 1
    then show ?thesis by (simp add: f64_of_int_def f64_round_def)
  next
    case 2
    then show ?thesis
      using assms round_pos_int[of n] big[of n] by (simp add: f64_of_int_def f64_round_def)
  next
    case 3
    then show ?thesis
      using assms round_pos_int[of "- n"] big[of "- n"]
      by (simp add: f64_of_int_def f64_round_def)
  qed
qed

text \<open>Conversion from unsigned 64-bit integers is finite, monotone and accurate.\<close>

definition u64_real :: "nat \<Rightarrow> rat" where
  "u64_real n = (if n = 0 then 0 else round_pos (of_nat n))"

lemma u64_real_mono: "m \<le> n \<Longrightarrow> u64_real m \<le> u64_real n"
  by (auto simp: u64_real_def intro: round_pos_mono round_pos_nonneg)

lemma u64_real_nonneg [simp]: "0 \<le> u64_real n"
  by (simp add: u64_real_def round_pos_nonneg)

lemma u64_real_exact: "n \<le> 2 ^ 53 \<Longrightarrow> u64_real n = of_nat n"
  using round_pos_int[of "int n"] by (auto simp: u64_real_def)

lemma u64_real_pow64: "u64_real (2 ^ 64) = 2 ^ 64"
proof -
  have "ilog2 (2 ^ 64) = 64" by (rule ilog2_eqI) simp_all
  then have "(2 ^ 64 :: rat) / 2 powi f64_exp (2 ^ 64) = of_int (2 ^ 52)"
    by (simp add: f64_exp_def)
  then show ?thesis by (simp add: u64_real_def round_pos_exact)
qed

lemma f64_of_nat_eq:
  assumes "n \<le> 2 ^ 64"
  shows "f64_of_int (int n) = Fin (u64_real n)"
proof (cases "n = 0")
  case False
  have "u64_real n \<le> 2 ^ 64" using u64_real_mono[OF assms] u64_real_pow64 by simp
  also have "(2 ^ 64 :: rat) = 2 powi 64" by simp
  also have "\<dots> < 2 powi 1024" by (simp only: powi2_less)
  finally have "\<not> 2 powi 1024 \<le> u64_real n" by simp
  then show ?thesis using False by (simp add: f64_of_int_def f64_round_def u64_real_def)
qed (simp add: f64_of_int_def f64_round_def u64_real_def)

lemma u64_real_ge_1: "0 < n \<Longrightarrow> 1 \<le> u64_real n"
  using u64_real_mono[of 1 n] u64_real_exact[of 1] by simp

text \<open>Rounding of non-negative numbers as a total function.\<close>

definition rnd :: "rat \<Rightarrow> rat" where
  "rnd x = (if x = 0 then 0 else round_pos x)"

lemma rnd_mono: "0 \<le> x \<Longrightarrow> x \<le> y \<Longrightarrow> rnd x \<le> rnd y"
  by (auto simp: rnd_def intro: round_pos_mono round_pos_nonneg)

lemma rnd_nonneg: "0 \<le> x \<Longrightarrow> 0 \<le> rnd x"
  by (simp add: rnd_def round_pos_nonneg)

lemma rnd_ge_powi: "- 1022 \<le> k \<Longrightarrow> 2 powi k \<le> x \<Longrightarrow> 2 powi k \<le> rnd x"
  using round_pos_mono[of "2 powi k" x] round_pos_powi[of k] powi2_pos[of k]
  by (simp add: rnd_def)

lemma rnd_le_powi: "- 1022 \<le> k \<Longrightarrow> 0 \<le> x \<Longrightarrow> x \<le> 2 powi k \<Longrightarrow> rnd x \<le> 2 powi k"
  using round_pos_mono[of x "2 powi k"] round_pos_powi[of k]
  by (auto simp: rnd_def order_less_le)

lemma f64_round_rnd:
  assumes "0 \<le> x" and "x \<le> 2 powi 1000"
  shows "f64_round x = Fin (rnd x)"
proof -
  have "rnd x \<le> 2 powi 1000" using assms by (intro rnd_le_powi) simp_all
  moreover have "(2::rat) powi 1000 < 2 powi 1024" by (simp only: powi2_less)
  ultimately have "\<not> 2 powi 1024 \<le> rnd x" by (meson leD order_le_less_trans)
  then show ?thesis using assms(1) unfolding f64_round_def rnd_def
    by (cases "x = 0") (simp_all del: power_int_numeral)
qed

lemma u64_real_le: "n \<le> 2 ^ 64 \<Longrightarrow> u64_real n \<le> 2 powi 64"
  using u64_real_mono[of n "2 ^ 64"] u64_real_pow64 by simp

lemma unat_le_pow64: "unat (d :: u64) \<le> 2 ^ 64"
  using unat_lt2p[of d] by simp

lemma rnd_rel_error:
  assumes "2 powi (- 1022) \<le> x \<or> x = 0"
  shows "rnd x \<le> x * (1 + 2 powi (- 53))" and "x * (1 - 2 powi (- 53)) \<le> rnd x"
  using assms round_pos_rel_error[of x] by (auto simp: rnd_def)

end
