(* ===== verification/Store.thy ===== *)
theory Store
  imports Slices Float64
begin

text \<open>
  The sample store: \<open>viewer/crates/btelem-store/src/lib.rs\<close> (the types and the \<open>Store\<close> trait with
  its default methods) and \<open>mock.rs\<close> (\<open>MockStore\<close>, the implementation the viewer runs on).

  The state is the record behind the lock; every method is one critical section, so an operation is
  a function from the old record to the new one. Panics of slicing and of unsigned subtraction are
  modelled (\<open>chk\<close> says whether overflow checks are compiled in); the theorems show that they cannot
  happen on channels whose timestamps do not decrease, and which of them cannot happen at all.
\<close>

section \<open>Types (lib.rs)\<close>

type_synonym channel_id = u32
type_synonym timestamp = u64
type_synonym 'a run = "('a, unit) outcome"

datatype channel_kind = CK_Scalar | CK_State "string list" | CK_Text

record channel_info =
  ci_id :: channel_id
  ci_path :: string
  ci_kind :: channel_kind
  ci_integer_storage :: bool

record bucket =
  bk_t :: timestamp
  bk_min :: f64
  bk_max :: f64

record state_run =
  sr_t_start :: timestamp
  sr_t_end :: timestamp
  sr_value :: u32

section \<open>MockStore: state and registration (mock.rs)\<close>

record store =
  st_channels :: "channel_info list"
  st_scalars :: "(timestamp \<times> f64) list list"
  st_states :: "state_run list list"
  st_texts :: "(timestamp \<times> string) list list"
  st_revision :: u64
  st_word_to_bits :: "channel_id \<rightharpoonup> channel_id list"

definition store_new :: store where
  "store_new = \<lparr>st_channels = [], st_scalars = [], st_states = [], st_texts = [],
     st_revision = 0, st_word_to_bits = Map.empty\<rparr>"

text \<open>The body the three registration methods share.\<close>

definition add_channel :: "string \<Rightarrow> channel_kind \<Rightarrow> bool \<Rightarrow> store \<Rightarrow> channel_id \<times> store" where
  "add_channel path kind int_storage g =
     (let cid = of_nat (length (st_channels g)) in
      (cid, g\<lparr>st_channels := st_channels g @
                [\<lparr>ci_id = cid, ci_path = path, ci_kind = kind, ci_integer_storage = int_storage\<rparr>],
              st_scalars := st_scalars g @ [[]],
              st_states := st_states g @ [[]],
              st_texts := st_texts g @ [[]],
              st_revision := st_revision g + 1\<rparr>))"

definition add_scalar_with :: "string \<Rightarrow> bool \<Rightarrow> store \<Rightarrow> channel_id \<times> store" where
  "add_scalar_with path int_storage g = add_channel path CK_Scalar int_storage g"

definition add_scalar :: "string \<Rightarrow> store \<Rightarrow> channel_id \<times> store" where
  "add_scalar path g = add_scalar_with path False g"

definition add_scalar_int :: "string \<Rightarrow> store \<Rightarrow> channel_id \<times> store" where
  "add_scalar_int path g = add_scalar_with path True g"

definition add_state :: "string \<Rightarrow> string list \<Rightarrow> store \<Rightarrow> channel_id \<times> store" where
  "add_state path labels g = add_channel path (CK_State labels) True g"

definition add_text :: "string \<Rightarrow> store \<Rightarrow> channel_id \<times> store" where
  "add_text path g = add_channel path CK_Text False g"

definition register_word_bits :: "channel_id \<Rightarrow> channel_id list \<Rightarrow> store \<Rightarrow> store" where
  "register_word_bits word bits g = g\<lparr>st_word_to_bits := (st_word_to_bits g)(word \<mapsto> bits)\<rparr>"

definition bits_for_word :: "store \<Rightarrow> channel_id \<Rightarrow> channel_id list option" where
  "bits_for_word g word = st_word_to_bits g word"

section \<open>MockStore: appending samples\<close>

definition push_scalar :: "channel_id \<Rightarrow> timestamp \<Rightarrow> f64 \<Rightarrow> store \<Rightarrow> store" where
  "push_scalar ch t v g =
     (let i = unat ch in
      if i < length (st_scalars g)
      then g\<lparr>st_scalars := (st_scalars g)[i := st_scalars g ! i @ [(t, v)]],
             st_revision := st_revision g + 1\<rparr>
      else g)"

text \<open>The \<open>match runs.last_mut()\<close> of \<open>push_state\<close>: extend the last run or close it and open one.\<close>

definition push_run :: "timestamp \<Rightarrow> u32 \<Rightarrow> state_run list \<Rightarrow> state_run list" where
  "push_run t value runs =
     (if runs = [] then [\<lparr>sr_t_start = t, sr_t_end = t, sr_value = value\<rparr>]
      else let closed = butlast runs @ [(last runs)\<lparr>sr_t_end := t\<rparr>] in
        if sr_value (last runs) = value then closed
        else closed @ [\<lparr>sr_t_start = t, sr_t_end = t, sr_value = value\<rparr>])"

definition push_state :: "channel_id \<Rightarrow> timestamp \<Rightarrow> u32 \<Rightarrow> store \<Rightarrow> store" where
  "push_state ch t value g =
     (let i = unat ch in
      if i < length (st_states g)
      then g\<lparr>st_states := (st_states g)[i := push_run t value (st_states g ! i)],
             st_revision := st_revision g + 1\<rparr>
      else g)"

definition push_text :: "channel_id \<Rightarrow> timestamp \<Rightarrow> string \<Rightarrow> store \<Rightarrow> store" where
  "push_text ch t value g =
     (let i = unat ch in
      if i < length (st_texts g)
      then g\<lparr>st_texts := (st_texts g)[i := st_texts g ! i @ [(t, value)]],
             st_revision := st_revision g + 1\<rparr>
      else g)"

definition store_clear :: "store \<Rightarrow> store" where
  "store_clear g = g\<lparr>st_channels := [], st_scalars := [], st_states := [], st_texts := [],
     st_word_to_bits := Map.empty, st_revision := st_revision g + 1\<rparr>"

section \<open>MockStore: queries\<close>

text \<open>One step of the three loops of \<open>time_bounds\<close>: first and last timestamp of a non-empty series.\<close>

definition widen :: "('a \<Rightarrow> timestamp) \<Rightarrow> ('a \<Rightarrow> timestamp) \<Rightarrow> 'a list
    \<Rightarrow> timestamp option \<times> timestamp option \<Rightarrow> timestamp option \<times> timestamp option" where
  "widen lo hi xs = (\<lambda>(mn, mx).
     if xs = [] then (mn, mx)
     else (Some (case mn of None \<Rightarrow> lo (hd xs) | Some m \<Rightarrow> min m (lo (hd xs))),
           Some (case mx of None \<Rightarrow> hi (last xs) | Some m \<Rightarrow> max m (hi (last xs)))))"

definition time_bounds :: "store \<Rightarrow> (timestamp \<times> timestamp) option" where
  "time_bounds g =
     (let acc = fold (widen fst fst) (st_scalars g) (None, None);
          acc = fold (widen sr_t_start sr_t_end) (st_states g) acc;
          acc = fold (widen fst fst) (st_texts g) acc
      in case acc of (Some mn, Some mx) \<Rightarrow> Some (mn, mx) | _ \<Rightarrow> None)"

text \<open>The window \<open>samples[lo..hi]\<close> between two partition points.\<close>

definition time_window :: "(timestamp \<times> 'a) list \<Rightarrow> timestamp \<Rightarrow> timestamp
    \<Rightarrow> (timestamp \<times> 'a) list run" where
  "time_window samples t0 t1 =
     (let lo = partition_point (\<lambda>s. fst s < t0) samples;
          hi = partition_point (\<lambda>s. fst s < t1) samples
      in slice_range samples lo hi)"

text \<open>The loop that fills equal-width time buckets.\<close>

definition bucket_idx :: "f64 \<Rightarrow> u64 \<Rightarrow> int" where
  "bucket_idx bw d = f64_to_i64 (f64_floor (f64_div (f64_of_int (uint d)) bw))"

definition bucket_step :: "bool \<Rightarrow> timestamp \<Rightarrow> f64 \<Rightarrow> timestamp \<times> f64
    \<Rightarrow> bucket list \<times> int \<times> bucket \<Rightarrow> (bucket list \<times> int \<times> bucket) run" where
  "bucket_step chk t0 bw = (\<lambda>(t, v) (out, cur_idx, cur).
     obind (sub_chk chk t t0) (\<lambda>d.
       let idx = bucket_idx bw d in
       if idx \<noteq> cur_idx
       then Ok (if 0 \<le> cur_idx then out @ [cur] else out, idx, \<lparr>bk_t = t, bk_min = v, bk_max = v\<rparr>)
       else Ok (out, cur_idx,
         cur\<lparr>bk_min := f64_min (bk_min cur) v, bk_max := f64_max (bk_max cur) v\<rparr>)))"

definition downsample :: "bool \<Rightarrow> timestamp \<Rightarrow> timestamp \<Rightarrow> usize \<Rightarrow> (timestamp \<times> f64) list
    \<Rightarrow> bucket list run" where
  "downsample chk t0 t1 max_buckets in_range =
     (let span = f64_of_int (uint (t1 - t0));
          bw = f64_div span (f64_of_int (int max_buckets)) in
      obind (ofold (bucket_step chk t0 bw) in_range
              ([], - 1, \<lparr>bk_t = 0, bk_min = FInf False, bk_max = FInf True\<rparr>))
        (\<lambda>(out, cur_idx, cur). Ok (if 0 \<le> cur_idx then out @ [cur] else out)))"

definition query_scalar :: "bool \<Rightarrow> store \<Rightarrow> channel_id \<Rightarrow> timestamp \<Rightarrow> timestamp \<Rightarrow> usize
    \<Rightarrow> bucket list run" where
  "query_scalar chk g ch t0 t1 max_buckets =
     (if max_buckets = 0 \<or> t1 \<le> t0 then Ok []
      else case get_at (st_scalars g) (unat ch) of
        None \<Rightarrow> Ok []
      | Some samples \<Rightarrow>
          obind (time_window samples t0 t1) (\<lambda>in_range.
          if in_range = [] then Ok []
          else if length in_range \<le> max_buckets
          then Ok (map (\<lambda>(t, v). \<lparr>bk_t = t, bk_min = v, bk_max = v\<rparr>) in_range)
          else downsample chk t0 t1 max_buckets in_range))"

text \<open>The common body of \<open>query_raw\<close> and \<open>query_text\<close>: the window, thinned by a stride.\<close>

definition query_series :: "(timestamp \<times> 'a) list list \<Rightarrow> channel_id \<Rightarrow> timestamp \<Rightarrow> timestamp
    \<Rightarrow> usize \<Rightarrow> (timestamp \<times> 'a) list run" where
  "query_series series ch t0 t1 max_samples =
     (if max_samples = 0 \<or> t1 \<le> t0 then Ok []
      else case get_at series (unat ch) of
        None \<Rightarrow> Ok []
      | Some samples \<Rightarrow>
          obind (time_window samples t0 t1) (\<lambda>in_range.
          if length in_range \<le> max_samples then Ok in_range
          else let stride = max (div_ceil (length in_range) max_samples) 1
               in Ok (step_by stride in_range)))"

definition query_raw :: "store \<Rightarrow> channel_id \<Rightarrow> timestamp \<Rightarrow> timestamp \<Rightarrow> usize
    \<Rightarrow> (timestamp \<times> f64) list run" where
  "query_raw g = query_series (st_scalars g)"

definition query_text :: "store \<Rightarrow> channel_id \<Rightarrow> timestamp \<Rightarrow> timestamp \<Rightarrow> usize
    \<Rightarrow> (timestamp \<times> string) list run" where
  "query_text g = query_series (st_texts g)"

text \<open>The end of run \<open>i\<close> as queries see it: the trailing run is held to the end of time.\<close>

definition effective_end :: "state_run list \<Rightarrow> nat \<Rightarrow> timestamp" where
  "effective_end runs i = (if i = length runs - 1 then - 1 else sr_t_end (runs ! i))"

definition query_state :: "store \<Rightarrow> channel_id \<Rightarrow> timestamp \<Rightarrow> timestamp \<Rightarrow> state_run list" where
  "query_state g ch t0 t1 =
     (case get_at (st_states g) (unat ch) of
        None \<Rightarrow> []
      | Some runs \<Rightarrow>
          if runs = [] then []
          else let last_idx = length runs - 1;
                   start = (if last_idx = 0 then 0
                            else partition_point (\<lambda>r. sr_t_end r \<le> t0) (take last_idx runs))
               in map (\<lambda>(i, r). \<lparr>sr_t_start = sr_t_start r,
                          sr_t_end = (if start + i = last_idx then - 1 else sr_t_end r),
                          sr_value = sr_value r\<rparr>)
                    (takeWhile (\<lambda>(i, r). sr_t_start r < t1)
                      (enumerate 0 (drop start runs))))"

definition sample_scalar_at :: "bool \<Rightarrow> (timestamp \<times> f64) list \<Rightarrow> timestamp \<Rightarrow> f64 option run" where
  "sample_scalar_at chk s t =
     (if s = [] then Ok None
      else case binary_search_by
                  (\<lambda>x. if fst x < t then Less else if fst x = t then Equal else Greater) s of
        Ok i \<Rightarrow> obind (index_at s i) (\<lambda>x. Ok (Some (snd x)))
      | Err i \<Rightarrow>
          if i = 0 \<or> i = length s then Ok None
          else obind (index_at s (i - 1)) (\<lambda>(t_a, v_a).
               obind (index_at s i) (\<lambda>(t_b, v_b).
               obind (sub_chk chk t t_a) (\<lambda>d.
               obind (sub_chk chk t_b t_a) (\<lambda>w.
               let frac = f64_div (f64_of_int (uint d)) (f64_of_int (uint w))
               in Ok (Some (f64_add v_a (f64_mul frac (f64_sub v_b v_a))))))))
      | Panic \<Rightarrow> Panic)"

definition sample_state_at :: "state_run list \<Rightarrow> timestamp \<Rightarrow> f64 option run" where
  "sample_state_at runs t =
     (if runs = [] then Ok None
      else let idx = partition_point (\<lambda>r. sr_t_start r \<le> t) runs in
        if idx = 0 then Ok None
        else obind (index_at runs (idx - 1)) (\<lambda>r.
             if t < effective_end runs (idx - 1)
             then Ok (Some (f64_of_int (uint (sr_value r)))) else Ok None))"

definition sample_at :: "bool \<Rightarrow> store \<Rightarrow> channel_id \<Rightarrow> timestamp \<Rightarrow> f64 option run" where
  "sample_at chk g ch t =
     (case get_at (st_channels g) (unat ch) of
        None \<Rightarrow> Ok None
      | Some info \<Rightarrow>
          (case ci_kind info of
             CK_Scalar \<Rightarrow> obind (index_at (st_scalars g) (unat ch)) (\<lambda>s. sample_scalar_at chk s t)
           | CK_State _ \<Rightarrow> obind (index_at (st_states g) (unat ch)) (\<lambda>runs. sample_state_at runs t)
           | CK_Text \<Rightarrow> Ok None))"

definition series_len :: "'a list list \<Rightarrow> channel_id \<Rightarrow> u64" where
  "series_len series ch = (case get_at series (unat ch) of None \<Rightarrow> 0 | Some v \<Rightarrow> of_nat (length v))"

definition sample_count :: "store \<Rightarrow> channel_id \<Rightarrow> u64" where
  "sample_count g ch =
     (case get_at (st_channels g) (unat ch) of
        None \<Rightarrow> 0
      | Some info \<Rightarrow>
          (case ci_kind info of
             CK_Scalar \<Rightarrow> series_len (st_scalars g) ch
           | CK_State _ \<Rightarrow> series_len (st_states g) ch
           | CK_Text \<Rightarrow> series_len (st_texts g) ch))"

section \<open>Default methods of the trait (lib.rs)\<close>

text \<open>
  The provided methods are functions of the required ones; \<open>MockStore\<close> keeps \<open>value_bounds\<close> and
  overrides the other two.
\<close>

definition default_query_raw ::
  "(channel_id \<Rightarrow> timestamp \<Rightarrow> timestamp \<Rightarrow> usize \<Rightarrow> bucket list run)
   \<Rightarrow> channel_id \<Rightarrow> timestamp \<Rightarrow> timestamp \<Rightarrow> usize \<Rightarrow> (timestamp \<times> f64) list run" where
  "default_query_raw qs ch t0 t1 max_samples =
     obind (qs ch t0 t1 max_samples) (\<lambda>bs. Ok (map (\<lambda>b. (bk_t b, bk_max b)) bs))"

definition default_value_bounds ::
  "(timestamp \<times> timestamp) option
   \<Rightarrow> (channel_id \<Rightarrow> timestamp \<Rightarrow> timestamp \<Rightarrow> usize \<Rightarrow> bucket list run)
   \<Rightarrow> (channel_id \<Rightarrow> timestamp \<Rightarrow> timestamp \<Rightarrow> state_run list)
   \<Rightarrow> channel_id \<Rightarrow> (f64 \<times> f64) option run" where
  "default_value_bounds tb qs qst ch =
     (case tb of
        None \<Rightarrow> Ok None
      | Some (t0, t1) \<Rightarrow>
          let t1 = (if t1 = - 1 then t1 else t1 + 1) in
          obind (qs ch t0 t1 1) (\<lambda>bs.
          case bs of
            b # _ \<Rightarrow> Ok (Some (bk_min b, bk_max b))
          | [] \<Rightarrow>
              let runs = qst ch t0 t1 in
              if runs = [] then Ok None
              else let (lo, hi) = fold (\<lambda>r (lo, hi). (min lo (sr_value r), max hi (sr_value r)))
                                    runs (- 1, 0)
                   in Ok (Some (f64_of_int (uint lo), f64_of_int (uint hi)))))"

definition value_bounds :: "bool \<Rightarrow> store \<Rightarrow> channel_id \<Rightarrow> (f64 \<times> f64) option run" where
  "value_bounds chk g = default_value_bounds (time_bounds g) (query_scalar chk g) (query_state g)"

section \<open>Operations as steps\<close>

text \<open>The calls that change the store, and the state after a sequence of them.\<close>

datatype store_op =
    Add_scalar string
  | Add_scalar_int string
  | Add_state string "string list"
  | Add_text string
  | Register_word_bits channel_id "channel_id list"
  | Push_scalar channel_id timestamp f64
  | Push_state channel_id timestamp u32
  | Push_text channel_id timestamp string
  | Clear

fun store_step :: "store_op \<Rightarrow> store \<Rightarrow> store" where
  "store_step (Add_scalar p) g = snd (add_scalar p g)"
| "store_step (Add_scalar_int p) g = snd (add_scalar_int p g)"
| "store_step (Add_state p ls) g = snd (add_state p ls g)"
| "store_step (Add_text p) g = snd (add_text p g)"
| "store_step (Register_word_bits w bs) g = register_word_bits w bs g"
| "store_step (Push_scalar c t v) g = push_scalar c t v g"
| "store_step (Push_state c t v) g = push_state c t v g"
| "store_step (Push_text c t v) g = push_text c t v g"
| "store_step Clear g = store_clear g"

definition store_run :: "store_op list \<Rightarrow> store" where
  "store_run ops = fold store_step ops store_new"

lemmas add_defs = add_scalar_def add_scalar_int_def add_scalar_with_def add_state_def add_text_def
  add_channel_def Let_def
lemmas push_defs = push_scalar_def push_state_def push_text_def Let_def

section \<open>Well-formedness\<close>

text \<open>
  The four vectors are parallel, channel ids are positions, and a series is only filled on the
  vector of its channel's kind when callers respect the kinds (not needed below).
\<close>

definition store_wf :: "store \<Rightarrow> bool" where
  "store_wf g \<longleftrightarrow>
     length (st_scalars g) = length (st_channels g) \<and>
     length (st_states g) = length (st_channels g) \<and>
     length (st_texts g) = length (st_channels g) \<and>
     map ci_id (st_channels g) = map of_nat [0..<length (st_channels g)]"

lemma store_new_wf [simp]: "store_wf store_new"
  by (simp add: store_wf_def store_new_def)

lemma store_step_wf: "store_wf g \<Longrightarrow> store_wf (store_step op g)"
  by (cases op) (simp_all add: store_wf_def add_defs push_defs register_word_bits_def store_clear_def)

lemma fold_invariant: "P s \<Longrightarrow> (\<And>x s. P s \<Longrightarrow> P (f x s)) \<Longrightarrow> P (fold f xs s)"
  by (induction xs arbitrary: s) auto

lemma store_run_wf: "store_wf (store_run ops)"
  unfolding store_run_def by (rule fold_invariant) (simp_all add: store_step_wf)

lemma index_at_wf:
  assumes "store_wf g" and "get_at (st_channels g) i = Some info"
  shows "index_at (st_scalars g) i = Ok (st_scalars g ! i)" "index_at (st_states g) i = Ok (st_states g ! i)"
    "i < length (st_texts g)"
  using assms by (auto simp: store_wf_def get_at_Some_iff)

text \<open>
  The revision is what the renderers use to decide whether a cached query is stale: a step that does
  not change it leaves the channels and all samples as they were.
\<close>

lemma revision_step:
  "st_revision (store_step op g) = st_revision g \<Longrightarrow>
     st_channels (store_step op g) = st_channels g \<and> st_scalars (store_step op g) = st_scalars g \<and>
     st_states (store_step op g) = st_states g \<and> st_texts (store_step op g) = st_texts g"
  by (cases op) (simp_all add: add_defs push_defs register_word_bits_def store_clear_def split: if_splits)

end
