(* ===== verification/Labels.thy ===== *)
theory Labels
  imports Strings Store "HOL-Library.Multiset"
begin

text \<open>
  The textual half of \<open>viewer/crates/btelem-viewer/src/view_state.rs\<close>: schema groups of channel paths
  and the orders in which lanes are drawn, the channel search, the pairing of shift-dragged channels,
  labels cut to a width, and connection settings.
\<close>

section \<open>Schema groups\<close>

definition channel_group :: "string \<Rightarrow> string" where
  "channel_group path =
     (case position (\<lambda>c. c = CHR ''.'') path of Some i \<Rightarrow> take i path | None \<Rightarrow> path)"

definition strip_group_prefix :: "string \<Rightarrow> string" where
  "strip_group_prefix path =
     (case position (\<lambda>c. c = CHR ''.'') path of Some i \<Rightarrow> drop (i + 1) path | None \<Rightarrow> path)"

definition group_order :: "string option list \<Rightarrow> (usize \<times> string) list" where
  "group_order groups =
     sort_key (\<lambda>(i, g). (g = [], g)) (zip [0 ..< length groups] (map (unwrap_or []) groups))"

definition group_then_name_order :: "(string option \<times> string) list \<Rightarrow> (usize \<times> string) list" where
  "group_then_name_order resolved =
     map (\<lambda>(i, g, p). (i, g))
       (sort_key (\<lambda>(i, g, p). (g = [], g, p))
         (zip [0 ..< length resolved] (map (\<lambda>(g, p). (unwrap_or [] g, p)) resolved)))"

text \<open>A \<open>BTreeMap\<close> is an association list in key order; \<open>entry(k).or_default().push(x)\<close>.\<close>

fun bt_push :: "'k::linorder \<Rightarrow> 'v \<Rightarrow> ('k \<times> 'v list) list \<Rightarrow> ('k \<times> 'v list) list" where
  "bt_push k v [] = [(k, [v])]"
| "bt_push k v ((j, vs) # m) =
     (if k < j then (k, [v]) # (j, vs) # m
      else if k = j then (j, vs @ [v]) # m
      else (j, vs) # bt_push k v m)"

definition path_head :: "string \<Rightarrow> string" where
  "path_head path = takeWhile (\<lambda>c. c \<noteq> CHR ''.'') path"

definition group_by_struct :: "channel_info list \<Rightarrow> (string \<times> channel_info list) list" where
  "group_by_struct channels =
     map (\<lambda>(k, v). (k, sort_key ci_path v))
       (fold (\<lambda>c. bt_push (path_head (ci_path c)) c) channels [])"

definition matches_query :: "string \<Rightarrow> string \<Rightarrow> bool" where
  "matches_query path query =
     (query = [] \<or> str_contains (to_ascii_lowercase path) (to_ascii_lowercase query))"

section \<open>Pairing dragged channels\<close>

record xy_drag_accumulator =
  xa_first :: "channel_id option"

definition xy_feed :: "channel_id \<Rightarrow> xy_drag_accumulator
    \<Rightarrow> (channel_id \<times> channel_id) option \<times> xy_drag_accumulator" where
  "xy_feed ch a =
     (case xa_first a of
        None \<Rightarrow> (None, a\<lparr>xa_first := Some ch\<rparr>)
      | Some prev \<Rightarrow>
          if prev = ch then (None, a\<lparr>xa_first := Some prev\<rparr>)
          else (Some (prev, ch), a\<lparr>xa_first := None\<rparr>))"

definition xy_cancel :: "xy_drag_accumulator \<Rightarrow> xy_drag_accumulator" where
  "xy_cancel a = a\<lparr>xa_first := None\<rparr>"

section \<open>Labels\<close>

definition ellipsis :: string where
  "ellipsis = str_of_bytes [0xE2, 0x80, 0xA6]"

definition fit_label :: "string \<Rightarrow> usize \<Rightarrow> string" where
  "fit_label label available_chars =
     (let len = length (str_chars label) in
      if available_chars = 0 then []
      else if len \<le> available_chars then label
      else if available_chars < 2 then []
      else concat (take (available_chars - 1) (str_chars label)) @ ellipsis)"

section \<open>Connections\<close>

datatype protocol = Tcp | Udp | Serial

fun protocol_label :: "protocol \<Rightarrow> string" where
  "protocol_label Tcp = ''TCP''"
| "protocol_label Udp = ''UDP''"
| "protocol_label Serial = ''Serial''"

record connection =
  cn_host :: string
  cn_port :: u16
  cn_protocol :: protocol

definition connection_default :: connection where
  "connection_default = \<lparr>cn_host = ''127.0.0.1'', cn_port = 4040, cn_protocol = Tcp\<rparr>"

datatype connection_error = ExpectedHostPort string | BadPort string int_error

text \<open>The scheme of an address and what follows it.\<close>

definition split_scheme :: "string \<Rightarrow> protocol \<times> string" where
  "split_scheme s =
     (case strip_prefix ''tcp://'' s of
        Some r \<Rightarrow> (Tcp, r)
      | None \<Rightarrow>
     (case strip_prefix ''udp://'' s of
        Some r \<Rightarrow> (Udp, r)
      | None \<Rightarrow>
     (case strip_prefix ''serial://'' s of
        Some r \<Rightarrow> (Serial, r)
      | None \<Rightarrow> (Tcp, s))))"

definition connection_parse :: "string \<Rightarrow> (connection, connection_error) outcome" where
  "connection_parse s =
     (let (proto, rest) = split_scheme s in
      if proto = Serial then Ok \<lparr>cn_host = rest, cn_port = 0, cn_protocol = proto\<rparr>
      else case rsplit_once CHR '':'' rest of
             None \<Rightarrow> Err (ExpectedHostPort rest)
           | Some (h, p) \<Rightarrow>
               obind (map_err (BadPort p) (parse_u16 p))
                 (\<lambda>port. Ok \<lparr>cn_host = h, cn_port = port, cn_protocol = proto\<rparr>))"

definition socket_addr :: "connection \<Rightarrow> string" where
  "socket_addr c = cn_host c @ '':'' @ show_nat (unat (cn_port c))"

definition connection_pretty :: "connection \<Rightarrow> string" where
  "connection_pretty c =
     (if cn_protocol c = Serial then ''serial://'' @ cn_host c
      else to_ascii_lowercase (protocol_label (cn_protocol c)) @ ''://'' @ cn_host c @ '':''
             @ show_nat (unat (cn_port c)))"

section \<open>Facts about groups\<close>

lemma path_head_is_group: "path_head path = channel_group path"
proof -
  have "takeWhile (\<lambda>c. c \<noteq> CHR ''.'') p =
      (case position (\<lambda>c. c = CHR ''.'') p of Some i \<Rightarrow> take i p | None \<Rightarrow> p)" for p
    by (induction p) (auto split: option.splits)
  then show ?thesis by (simp add: path_head_def channel_group_def)
qed

text \<open>The group and the rest put the path together again.\<close>

lemma group_path:
  "path = (if CHR ''.'' \<in> set path then channel_group path @ ''.'' @ strip_group_prefix path
           else channel_group path)"
proof (cases "position (\<lambda>c. c = CHR ''.'') path")
  case None
  then have "CHR ''.'' \<notin> set path" using position_None_iff[of "\<lambda>c. c = CHR ''.''" path] by auto
  moreover have "channel_group path = path" using None by (simp add: channel_group_def)
  ultimately show ?thesis by simp
next
  case (Some i)
  have i: "i < length path" "path ! i = CHR ''.''" using position_SomeD[OF Some] by auto
  then have "CHR ''.'' \<in> set path" using nth_mem[OF i(1)] by simp
  moreover have "take i path @ CHR ''.'' # drop (Suc i) path = path"
    using id_take_nth_drop[OF i(1)] i(2) by simp
  ultimately show ?thesis
    using Some by (simp add: channel_group_def strip_group_prefix_def)
qed

lemma bt_push_sorted: "sorted_wrt (<) (map fst m) \<Longrightarrow> sorted_wrt (<) (map fst (bt_push k v m))
    \<and> fst ` set (bt_push k v m) = insert k (fst ` set m)"
  by (induction k v m rule: bt_push.induct) (auto simp: not_less_iff_gr_or_eq intro: less_trans)

lemma bt_push_get: "sorted_wrt (<) (map fst m) \<Longrightarrow>
    map_of (bt_push k v m) j = (if j = k then Some (unwrap_or [] (map_of m k) @ [v]) else map_of m j)"
proof (induction k v m rule: bt_push.induct)
  case (2 k v j' vs m)
  have "map_of m k = None" if "k < j'"
    using that "2.prems" by (force simp: map_of_eq_None_iff)
  then show ?case using 2 by (auto simp: not_less_iff_gr_or_eq)
qed simp

definition buckets :: "('v \<Rightarrow> 'k::linorder) \<Rightarrow> 'v list \<Rightarrow> ('k \<times> 'v list) list" where
  "buckets h xs = fold (\<lambda>c. bt_push (h c) c) xs []"

lemma buckets_snoc: "buckets h (xs @ [x]) = bt_push (h x) x (buckets h xs)"
  by (simp add: buckets_def)

lemma buckets_keys: "sorted_wrt (<) (map fst (buckets h xs)) \<and> fst ` set (buckets h xs) = h ` set xs"
proof (induction xs rule: rev_induct)
  case (snoc x xs)
  then show ?case using bt_push_sorted[of "buckets h xs" "h x" x] by (simp add: buckets_snoc)
qed (simp add: buckets_def)

lemma buckets_get:
  "map_of (buckets h xs) k = (if k \<in> h ` set xs then Some (filter (\<lambda>c. h c = k) xs) else None)"
proof (induction xs rule: rev_induct)
  case (snoc x xs)
  have "filter (\<lambda>c. h c = k) xs = []" if "k \<notin> h ` set xs" using that by (auto simp: filter_empty_conv)
  then show ?case
    using bt_push_get[OF conjunct1[OF buckets_keys[of h xs]], of "h x" x k] snoc
    by (auto simp: buckets_snoc)
qed (simp add: buckets_def)

lemma buckets_eq: "buckets h xs = map (\<lambda>k. (k, filter (\<lambda>c. h c = k) xs)) (sorted_list_of_set (h ` set xs))"
proof -
  have k: "map fst (buckets h xs) = sorted_list_of_set (h ` set xs)"
    using buckets_keys[of h xs]
    by (metis List.finite_set finite_imageI list.set_map sorted_list_of_set.idem_if_sorted_distinct strict_sorted_iff)
  have "v = filter (\<lambda>c. h c = j) xs" if "(j, v) \<in> set (buckets h xs)" for j v
  proof -
    have "distinct (map fst (buckets h xs))" using buckets_keys[of h xs] strict_sorted_iff by blast
    then have "map_of (buckets h xs) j = Some v" using that by simp
    then show ?thesis by (simp add: buckets_get split: if_splits)
  qed
  then have "buckets h xs = map (\<lambda>j. (j, filter (\<lambda>c. h c = j) xs)) (map fst (buckets h xs))"
    by (auto simp: comp_def intro!: map_idI[symmetric])
  then show ?thesis using k by simp
qed

text \<open>
  C33. The channel tree: the groups are the first segments of the paths, each once, in byte order,
  and the channels of a group are exactly those of the store with that segment, in path order,
  channels of equal path in the order of the store.
\<close>

theorem group_by_struct_spec:
  "group_by_struct channels =
     map (\<lambda>g. (g, sort_key ci_path (filter (\<lambda>c. channel_group (ci_path c) = g) channels)))
       (sorted_list_of_set ((\<lambda>c. channel_group (ci_path c)) ` set channels))"
  using buckets_eq[of "\<lambda>c. path_head (ci_path c)" channels]
  by (simp add: group_by_struct_def buckets_def path_head_is_group comp_def)

section \<open>Render order\<close>

lemma sort_key_with_position:
  fixes pos :: "'a \<Rightarrow> nat"
  assumes "sorted (map pos xs)"
  shows "sort_key f xs = sort_key (\<lambda>x. (f x, pos x)) xs"
proof (rule properties_for_sort_key)
  let ?g = "\<lambda>x. (f x, pos x)"
  show "mset (sort_key ?g xs) = mset xs" by simp
  have "sorted (map ?g (sort_key ?g xs))" by simp
  then show "sorted (map f (sort_key ?g xs))"
    by (auto simp: sorted_map elim!: sorted_wrt_mono_rel[rotated])
  fix k
  let ?P = "\<lambda>x. f k = f x"
  have "sorted (map pos (filter ?P xs))" using assms sorted_filter by blast
  then have "sorted (map ?g (filter ?P xs))"
    by (auto simp: sorted_map elim!: sorted_wrt_mono_rel[rotated])
  then have "sort_key ?g (filter ?P xs) = filter ?P xs" by (rule sort_key_id_if_sorted)
  then show "filter ?P (sort_key ?g xs) = filter ?P xs" by (simp add: filter_sort)
qed

text \<open>The key of a lane: resolved before unresolved, then group, then path, then the lane's position.\<close>

definition lane_key :: "(string option \<times> string) list \<Rightarrow> usize \<Rightarrow> (bool \<times> string \<times> string) \<times> usize" where
  "lane_key resolved i =
     (let g = unwrap_or [] (fst (resolved ! i)) in ((g = [], g, snd (resolved ! i)), i))"

lemma zip_upt_map: "zip [0 ..< length xs] (map f xs) = map (\<lambda>i. (i, f (xs ! i))) [0 ..< length xs]"
  by (intro nth_equalityI) simp_all

lemma sort_key_map: "sort_key k (map f xs) = map f (sort_key (\<lambda>x. k (f x)) xs)"
proof -
  have "insort_key k (f x) (map f ys) = map f (insort_key (\<lambda>x. k (f x)) x ys)" for x ys
    by (induction ys) auto
  then show ?thesis by (induction xs) simp_all
qed

text \<open>
  \<open>group_then_name_order\<close> lists every lane exactly once, with its group, in the order of resolved
  groups first, then by group, then by path, and otherwise in panel order.
\<close>

theorem group_then_name_order_spec:
  "group_then_name_order resolved =
     map (\<lambda>i. (i, unwrap_or [] (fst (resolved ! i))))
       (sort_key (lane_key resolved) [0 ..< length resolved])"
proof -
  let ?f = "\<lambda>i. (i, unwrap_or [] (fst (resolved ! i)), snd (resolved ! i))"
  let ?key = "\<lambda>(i, g, p). (g = [], g, p)"
  have z: "zip [0 ..< length resolved] (map (\<lambda>(g, p). (unwrap_or [] g, p)) resolved)
      = map ?f [0 ..< length resolved]"
    using zip_upt_map[of resolved "\<lambda>(g, p). (unwrap_or [] g, p)"] by (simp add: split_beta)
  have "group_then_name_order resolved =
      map (\<lambda>i. (i, unwrap_or [] (fst (resolved ! i)))) (sort_key (\<lambda>i. ?key (?f i)) [0 ..< length resolved])"
    unfolding group_then_name_order_def z sort_key_map by simp
  also have "sort_key (\<lambda>i. ?key (?f i)) [0 ..< length resolved] =
      sort_key (lane_key resolved) [0 ..< length resolved]"
    using sort_key_with_position[of "\<lambda>i. i" "[0 ..< length resolved]" "\<lambda>i. ?key (?f i)"]
    by (simp add: lane_key_def[abs_def] Let_def)
  finally show ?thesis .
qed

section \<open>Labels and pairs\<close>

lemma str_chars_concat_take:
  assumes "utf8_valid (bytes_of_str s)"
  shows "utf8_valid (bytes_of_str (concat (take n (str_chars s))))"
    and "str_chars (concat (take n (str_chars s)) @ t) = take n (str_chars s) @ str_chars t"
proof -
  let ?cs = "take n (chars (bytes_of_str s))"
  have "utf8_valid c \<and> chars c = [c]" if "c \<in> set ?cs" for c
    using chars_valid[OF assms] in_set_takeD[OF that] .
  note c = chars_concat_list[OF this]
  have b: "bytes_of_str (concat (take n (str_chars s))) = concat ?cs"
    by (simp add: str_chars_def bytes_of_str_concat take_map comp_def)
  show "utf8_valid (bytes_of_str (concat (take n (str_chars s))))" using b c by simp
  show "str_chars (concat (take n (str_chars s)) @ t) = take n (str_chars s) @ str_chars t"
    unfolding str_chars_def[of "concat (take n (str_chars s)) @ t"] bytes_of_str_append b
    using c by (simp add: chars_append str_chars_def take_map)
qed

lemma ellipsis_char: "utf8_valid (bytes_of_str ellipsis)" "str_chars ellipsis = [ellipsis]"
  by (simp_all add: ellipsis_def str_chars_def utf8_valid.simps[of "[_, _, _]"] chars.simps[of "[_, _, _]"]
      chars.simps[of "[]"] utf8_width_def second_ok_def is_cont_def Let_def)

text \<open>
  \<open>fit_label\<close> never exceeds the width it is given, counted in characters, returns a label that
  fits as it is, and otherwise a proper prefix of it cut between characters and marked with an
  ellipsis (or nothing, below two characters); the result is valid UTF-8.
\<close>

theorem fit_label_fits:
  assumes "utf8_valid (bytes_of_str label)"
  shows "length (str_chars (fit_label label n)) \<le> n
    \<and> utf8_valid (bytes_of_str (fit_label label n))
    \<and> (fit_label label n = (if length (str_chars label) \<le> n then label
         else if n < 2 then [] else concat (take (n - 1) (str_chars label)) @ ellipsis))"
proof -
  have empty: "str_chars [] = []" by (simp add: str_chars_def bytes_of_str_def chars.simps)
  have z: "label = []" if "length (str_chars label) = 0"
    using that chars_concat[of "bytes_of_str label"] by (simp add: str_chars_def bytes_of_str_def)
  have "length (str_chars (concat (take (n - 1) (str_chars label)) @ ellipsis)) \<le> n" if "2 \<le> n"
    using that by (simp add: str_chars_concat_take(2)[OF assms] ellipsis_char)
  moreover have "utf8_valid (bytes_of_str (concat (take (n - 1) (str_chars label)) @ ellipsis))"
    by (simp add: bytes_of_str_append utf8_valid_append str_chars_concat_take(1)[OF assms] ellipsis_char)
  ultimately show ?thesis
    using assms z empty by (auto simp: fit_label_def Let_def bytes_of_str_def)
qed

theorem fit_label_fits_witness:
  "length (str_chars (fit_label ''CRUISING'' 5)) \<le> 5 \<and> fit_label ''CRUISING'' 5 = ''CRUI'' @ ellipsis"
proof -
  have v: "utf8_valid (bytes_of_str ''CRUISING'')" by code_simp
  have "fit_label ''CRUISING'' 5 = ''CRUI'' @ ellipsis" by code_simp
  with fit_label_fits[OF v, of 5] show ?thesis by blast
qed

text \<open>The pairs completed by a sequence of drops, and the accumulator afterwards.\<close>

fun xy_run :: "channel_id list \<Rightarrow> xy_drag_accumulator
    \<Rightarrow> (channel_id \<times> channel_id) list \<times> xy_drag_accumulator" where
  "xy_run [] a = ([], a)"
| "xy_run (ch # chs) a =
     (let (p, a1) = xy_feed ch a; (ps, a2) = xy_run chs a1 in
      ((case p of None \<Rightarrow> [] | Some q \<Rightarrow> [q]) @ ps, a2))"

lemma xy_run_same: "set xs \<subseteq> {x} \<Longrightarrow> xy_run xs \<lparr>xa_first = Some x\<rparr> = ([], \<lparr>xa_first = Some x\<rparr>)"
  by (induction xs) (simp_all add: xy_feed_def)

lemma xy_run_append:
  "xy_run (xs @ ys) a = (let (ps, a1) = xy_run xs a; (qs, a2) = xy_run ys a1 in (ps @ qs, a2))"
  by (induction xs arbitrary: a) (simp_all add: split_beta Let_def)

text \<open>
  Dropping shift-dragged channels: after a first channel, however often it is dropped again, the
  first different channel completes the pair, in drop order, and the accumulator is empty again; a
  completed pair never has equal components.
\<close>

theorem xy_pair_completes:
  assumes "set xs \<subseteq> {x}" and "y \<noteq> x"
  shows "xy_run (x # xs @ [y]) \<lparr>xa_first = None\<rparr> = ([(x, y)], \<lparr>xa_first = None\<rparr>)
    \<and> (\<forall>chs a p. p \<in> set (fst (xy_run chs a)) \<longrightarrow> fst p \<noteq> snd p)"
proof -
  have "fst p \<noteq> snd p" if "p \<in> set (fst (xy_run chs a))" for chs a p
    using that
    by (induction chs arbitrary: a) (auto simp: xy_feed_def split_beta Let_def split: option.splits if_splits)
  then show ?thesis
    using assms xy_run_same[OF assms(1)] by (simp add: xy_run_append xy_feed_def)
qed

theorem xy_pair_completes_witness:
  "xy_run [4, 4, 9] \<lparr>xa_first = None\<rparr> = ([(4, 9)], \<lparr>xa_first = None\<rparr>)"
  using xy_pair_completes[of "[4]" 4 9] by simp

section \<open>Connections\<close>

lemma digit_not_colon: "CHR '':'' \<notin> set (show_nat n)"
proof
  assume "CHR '':'' \<in> set (show_nat n)"
  then obtain d where "d < 10" "CHR '':'' = digit_char d" using show_nat_digits by blast
  then have "char_digit CHR '':'' = Some d" by simp
  then show False by (simp add: char_digit_def)
qed

lemma host_port_split: "rsplit_once CHR '':'' (host @ '':'' @ show_nat n) = Some (host, show_nat n)"
  using rsplit_once_last[OF digit_not_colon, of host n] by simp

lemma split_scheme_pretty:
  "split_scheme (''tcp://'' @ r) = (Tcp, r)" "split_scheme (''udp://'' @ r) = (Udp, r)"
  "split_scheme (''serial://'' @ r) = (Serial, r)"
  by (simp_all add: split_scheme_def strip_prefix_def)

lemma scheme_names:
  "to_ascii_lowercase (protocol_label Tcp) = ''tcp''" "to_ascii_lowercase (protocol_label Udp) = ''udp''"
  by code_simp+

text \<open>
  The pretty form of a connection parses back to it, whatever the host (colons included); only
  the port of a serial connection, which the form does not show, comes back as 0.
\<close>

theorem connection_roundtrip:
  "connection_parse (connection_pretty c) =
     Ok (if cn_protocol c = Serial then c\<lparr>cn_port := 0\<rparr> else c)"
proof -
  have np: "connection_parse (s @ ''://'' @ cn_host c @ '':'' @ show_nat (unat (cn_port c))) = Ok c"
    if "split_scheme (s @ ''://'' @ cn_host c @ '':'' @ show_nat (unat (cn_port c))) =
        (cn_protocol c, cn_host c @ '':'' @ show_nat (unat (cn_port c)))" "cn_protocol c \<noteq> Serial" for s
    using that host_port_split[of "cn_host c" "unat (cn_port c)"]
    by (simp add: connection_parse_def parse_u16_show)
  show ?thesis
  proof (cases "cn_protocol c")
    case Tcp
    then show ?thesis
      using np[of "''tcp''"] split_scheme_pretty(1) by (simp add: connection_pretty_def scheme_names del: protocol_label.simps)
  next
    case Udp
    then show ?thesis
      using np[of "''udp''"] split_scheme_pretty(2) by (simp add: connection_pretty_def scheme_names del: protocol_label.simps)
  next
    case Serial
    then show ?thesis
      using split_scheme_pretty(3)[of "cn_host c"] by (simp add: connection_pretty_def connection_parse_def)
  qed
qed

end
