(* ===== verification/Wire.thy ===== *)
theory Wire
  imports Utf8
begin

text \<open>
  The decoder of the packet stream: \<open>viewer/crates/btelem-wire/src/lib.rs\<close> (errors, constants,
  little-endian readers) and \<open>packet.rs\<close>.

  Every read is guarded by \<open>need\<close>; slicing and indexing are modelled with their panics, so that
  \<open>decode_packet_total\<close> says the guards suffice: no byte string makes the decoder panic. The
  encoder \<open>wire_packet\<close> is the layout of \<open>include/btelem/btelem_types.h\<close> as \<open>btelem_drain_packed\<close>
  of \<open>src/btelem.c\<close> fills it, and the decoder inverts it.
\<close>

section \<open>Errors and constants (lib.rs)\<close>

datatype wire_error =
    Short nat nat
  | BadEndian u8
  | BadName
  | TooManyEntries u16
  | TooManyFields u16
  | PayloadOob nat nat nat
  | UnknownType u8

type_synonym 'a wres = "('a, wire_error) outcome"

definition NAME_MAX :: usize where [simp]: "NAME_MAX = 64"
definition DESC_MAX :: usize where [simp]: "DESC_MAX = 128"
definition MAX_FIELDS :: usize where [simp]: "MAX_FIELDS = 16"
definition MAX_SCHEMA_ENTRIES :: usize where [simp]: "MAX_SCHEMA_ENTRIES = 512"
definition ENUM_LABEL_MAX :: usize where [simp]: "ENUM_LABEL_MAX = 32"
definition ENUM_MAX_VALUES :: usize where [simp]: "ENUM_MAX_VALUES = 64"
definition BITFIELD_MAX_BITS :: usize where [simp]: "BITFIELD_MAX_BITS = 32"
definition BIT_NAME_MAX :: usize where [simp]: "BIT_NAME_MAX = 32"
definition SCHEMA_HEADER_SIZE :: usize where [simp]: "SCHEMA_HEADER_SIZE = 3"
definition FIELD_WIRE_SIZE :: usize where [simp]: "FIELD_WIRE_SIZE = NAME_MAX + 2 + 2 + 1 + 1"
definition SCHEMA_WIRE_HEADER_SIZE :: usize where
  [simp]: "SCHEMA_WIRE_HEADER_SIZE = 2 + 2 + 2 + NAME_MAX + DESC_MAX"
definition SCHEMA_WIRE_SIZE :: usize where
  [simp]: "SCHEMA_WIRE_SIZE = SCHEMA_WIRE_HEADER_SIZE + MAX_FIELDS * FIELD_WIRE_SIZE"
definition ENUM_WIRE_SIZE :: usize where
  [simp]: "ENUM_WIRE_SIZE = 2 + 2 + 1 + ENUM_MAX_VALUES * ENUM_LABEL_MAX"
definition BITFIELD_WIRE_SIZE :: usize where
  [simp]: "BITFIELD_WIRE_SIZE =
     2 + 2 + 1 + BITFIELD_MAX_BITS * BIT_NAME_MAX + BITFIELD_MAX_BITS + BITFIELD_MAX_BITS"
definition PACKET_HEADER_SIZE :: usize where [simp]: "PACKET_HEADER_SIZE = 16"
definition ENTRY_HEADER_SIZE :: usize where [simp]: "ENTRY_HEADER_SIZE = 16"

section \<open>Readers (lib.rs)\<close>

definition need :: "bytes \<Rightarrow> usize \<Rightarrow> unit wres" where
  "need buf n = (if length buf < n then Err (Short n (length buf)) else Ok ())"

definition read_u8 :: "bytes \<Rightarrow> usize \<Rightarrow> u8 wres" where
  "read_u8 buf off = obind (need buf (off + 1)) (\<lambda>_. index_at buf off)"

definition read_u16 :: "bytes \<Rightarrow> usize \<Rightarrow> u16 wres" where
  "read_u16 buf off =
     obind (need buf (off + 2)) (\<lambda>_.
     obind (index_at buf off) (\<lambda>b0.
     obind (index_at buf (off + 1)) (\<lambda>b1.
     Ok (le_word [b0, b1]))))"

definition read_u32 :: "bytes \<Rightarrow> usize \<Rightarrow> u32 wres" where
  "read_u32 buf off =
     obind (need buf (off + 4)) (\<lambda>_.
     obind (index_at buf off) (\<lambda>b0.
     obind (index_at buf (off + 1)) (\<lambda>b1.
     obind (index_at buf (off + 2)) (\<lambda>b2.
     obind (index_at buf (off + 3)) (\<lambda>b3.
     Ok (le_word [b0, b1, b2, b3]))))))"

definition read_u64 :: "bytes \<Rightarrow> usize \<Rightarrow> u64 wres" where
  "read_u64 buf off =
     obind (need buf (off + 8)) (\<lambda>_.
     obind (slice_range buf off (off + 8)) (\<lambda>a. Ok (le_word a)))"

definition read_cstr :: "bytes \<Rightarrow> usize \<Rightarrow> usize \<Rightarrow> string wres" where
  "read_cstr buf off mx =
     obind (need buf (off + mx)) (\<lambda>_.
     obind (slice_range buf off (off + mx)) (\<lambda>sl.
     let en = unwrap_or (length sl) (position (\<lambda>b. b = 0) sl) in
     obind (slice_range sl 0 en) (\<lambda>s.
     case from_utf8 s of Some t \<Rightarrow> Ok t | None \<Rightarrow> Err BadName)))"

section \<open>Packets (packet.rs)\<close>

record packet_header =
  ph_entry_count :: u16
  ph_flags :: u16
  ph_payload_size :: u32
  ph_dropped :: u32

record decoded_entry =
  de_id :: u16
  de_timestamp :: u64
  de_payload :: bytes

record packet =
  pk_header :: packet_header
  pk_entries :: "decoded_entry list"

text \<open>The body of the loop over the entry table.\<close>

definition decode_entry :: "bytes \<Rightarrow> usize \<Rightarrow> u32 \<Rightarrow> usize \<Rightarrow> decoded_entry wres" where
  "decode_entry buf payload_base payload_size i =
     (let off = PACKET_HEADER_SIZE + i * ENTRY_HEADER_SIZE in
      obind (read_u16 buf off) (\<lambda>eid.
      obind (read_u16 buf (off + 2)) (\<lambda>psize.
      obind (read_u32 buf (off + 4)) (\<lambda>poff.
      obind (read_u64 buf (off + 8)) (\<lambda>ts.
      if unat poff + unat psize > unat payload_size
      then Err (PayloadOob (unat poff) (unat psize) (unat payload_size))
      else let p_start = payload_base + unat poff in
        obind (slice_range buf p_start (p_start + unat psize)) (\<lambda>payload.
        Ok \<lparr>de_id = eid, de_timestamp = ts, de_payload = payload\<rparr>))))))"

definition decode_packet :: "bytes \<Rightarrow> packet wres" where
  "decode_packet buf =
     obind (need buf PACKET_HEADER_SIZE) (\<lambda>_.
     obind (read_u16 buf 0) (\<lambda>entry_count.
     obind (read_u16 buf 2) (\<lambda>flags.
     obind (read_u32 buf 4) (\<lambda>payload_size.
     obind (read_u32 buf 8) (\<lambda>dropped.
     let payload_base = PACKET_HEADER_SIZE + unat entry_count * ENTRY_HEADER_SIZE in
     obind (need buf payload_base) (\<lambda>_.
     obind (need buf (payload_base + unat payload_size)) (\<lambda>_.
     obind (omap (decode_entry buf payload_base payload_size) [0..<unat entry_count]) (\<lambda>entries.
     Ok \<lparr>pk_header = \<lparr>ph_entry_count = entry_count, ph_flags = flags,
            ph_payload_size = payload_size, ph_dropped = dropped\<rparr>,
         pk_entries = entries\<rparr>))))))))"

section \<open>The wire layout of a packet (btelem_types.h, btelem.c)\<close>

text \<open>One log record as the C ring holds it: schema id, timestamp, payload.\<close>

type_synonym log_entry = "u16 \<times> u64 \<times> bytes"

definition wire_entry_header :: "nat \<Rightarrow> log_entry \<Rightarrow> bytes" where
  "wire_entry_header off = (\<lambda>(eid, ts, pl).
     word_le 2 eid @ word_le 2 (of_nat (length pl) :: u16) @ word_le 4 (of_nat off :: u32)
     @ word_le 8 ts)"

fun wire_entry_headers :: "nat \<Rightarrow> log_entry list \<Rightarrow> bytes list" where
  "wire_entry_headers off [] = []"
| "wire_entry_headers off (e # es) =
     wire_entry_header off e # wire_entry_headers (off + length (snd (snd e))) es"

definition wire_payload :: "log_entry list \<Rightarrow> bytes" where
  "wire_payload es = concat (map (\<lambda>(_, _, pl). pl) es)"

definition wire_packet :: "u16 \<Rightarrow> u32 \<Rightarrow> log_entry list \<Rightarrow> bytes" where
  "wire_packet flags dropped es =
     (word_le 2 (of_nat (length es) :: u16) @ word_le 2 flags
       @ word_le 4 (of_nat (length (wire_payload es)) :: u32) @ word_le 4 dropped
       @ word_le 4 (0 :: u32))
     @ concat (wire_entry_headers 0 es) @ wire_payload es"

section \<open>Facts about the readers\<close>

lemma need_no_panic [no_panic, simp]: "need buf n \<noteq> Panic"
  by (simp add: need_def)

lemma need_Ok_iff [outcome_simps]: "need buf n = Ok u \<longleftrightarrow> n \<le> length buf"
  by (auto simp: need_def)

lemma nth_list_drop:
  "off + 2 \<le> length buf \<Longrightarrow> [buf ! off, buf ! (off + 1)] = take 2 (drop off buf)"
  "off + 4 \<le> length buf \<Longrightarrow>
     [buf ! off, buf ! (off + 1), buf ! (off + 2), buf ! (off + 3)] = take 4 (drop off buf)"
  by (simp_all add: list_eq_iff_nth_eq nth_Cons' numeral_eq_Suc less_Suc_eq)

lemma read_u8_Ok: "off + 1 \<le> length buf \<Longrightarrow> read_u8 buf off = Ok (hd (drop off buf))"
  by (simp add: read_u8_def need_def hd_drop_conv_nth)

lemma read_u16_Ok: "off + 2 \<le> length buf \<Longrightarrow> read_u16 buf off = Ok (le_word (take 2 (drop off buf)))"
  by (simp add: read_u16_def need_def flip: nth_list_drop)

lemma read_u32_Ok: "off + 4 \<le> length buf \<Longrightarrow> read_u32 buf off = Ok (le_word (take 4 (drop off buf)))"
  by (simp add: read_u32_def need_def flip: nth_list_drop)

lemma read_u64_Ok: "off + 8 \<le> length buf \<Longrightarrow> read_u64 buf off = Ok (le_word (take 8 (drop off buf)))"
  by (simp add: read_u64_def need_def)

lemmas read_Ok = read_u8_Ok read_u16_Ok read_u32_Ok read_u64_Ok

lemma read_Err:
  "\<not> off + 1 \<le> length buf \<Longrightarrow> read_u8 buf off = Err (Short (off + 1) (length buf))"
  "\<not> off + 2 \<le> length buf \<Longrightarrow> read_u16 buf off = Err (Short (off + 2) (length buf))"
  "\<not> off + 4 \<le> length buf \<Longrightarrow> read_u32 buf off = Err (Short (off + 4) (length buf))"
  "\<not> off + 8 \<le> length buf \<Longrightarrow> read_u64 buf off = Err (Short (off + 8) (length buf))"
  by (simp_all add: read_u8_def read_u16_def read_u32_def read_u64_def need_def)

lemma read_no_panic [no_panic, simp]:
  "read_u8 buf off \<noteq> Panic" "read_u16 buf off \<noteq> Panic"
  "read_u32 buf off \<noteq> Panic" "read_u64 buf off \<noteq> Panic"
  by (metis outcome.distinct(3,5) read_Ok read_Err)+

lemma cstr_end: "unwrap_or (length sl) (position (\<lambda>b. b = 0) sl) \<le> length sl"
  by (simp add: position_takeWhile length_takeWhile_le)

lemma cstr_slice:
  "slice_range sl 0 (unwrap_or (length sl) (position (\<lambda>b. b = 0) sl)) =
     Ok (takeWhile (\<lambda>b. b \<noteq> 0) sl)"
  using cstr_end[of sl] by (simp add: position_takeWhile flip: takeWhile_eq_take)

lemma read_cstr_Ok:
  assumes "off + mx \<le> length buf"
  shows "read_cstr buf off mx =
    (case from_utf8 (takeWhile (\<lambda>b. b \<noteq> 0) (take mx (drop off buf))) of
       Some t \<Rightarrow> Ok t | None \<Rightarrow> Err BadName)"
proof -
  define sl where "sl = take mx (drop off buf)"
  have "read_cstr buf off mx =
    obind (slice_range sl 0 (unwrap_or (length sl) (position (\<lambda>b. b = 0) sl)))
      (\<lambda>s. case from_utf8 s of Some t \<Rightarrow> Ok t | None \<Rightarrow> Err BadName)"
    using assms by (simp add: read_cstr_def need_def Let_def sl_def)
  then show ?thesis by (simp only: cstr_slice obind.simps sl_def)
qed

lemma read_cstr_no_panic [no_panic, simp]: "read_cstr buf off mx \<noteq> Panic"
proof (cases "off + mx \<le> length buf")
  case True
  then show ?thesis by (simp add: read_cstr_Ok split: option.splits)
next
  case False
  then show ?thesis by (simp add: read_cstr_def need_def)
qed

section \<open>The packet decoder never panics\<close>

lemma decode_entry_no_panic:
  assumes "payload_base + unat payload_size \<le> length buf"
  shows "decode_entry buf payload_base payload_size i \<noteq> Panic"
  unfolding decode_entry_def Let_def
  using assms by (intro obind_no_panic) (auto simp: outcome_simps)

text \<open>
  \<open>decode_packet\<close> is total: whatever the bytes, it returns a packet or a \<open>WireError\<close>; no index
  or slice is ever out of range. (The crate's fuzz test asserts this of random inputs.)
\<close>

theorem decode_packet_total: "decode_packet buf \<noteq> Panic"
  unfolding decode_packet_def Let_def
  by (intro obind_no_panic omap_no_panic decode_entry_no_panic) (auto simp: outcome_simps)

section \<open>What a decoded packet is\<close>

lemma decode_packet_OkD:
  assumes "decode_packet buf = Ok p"
  shows "16 \<le> length buf"
    and "ph_entry_count (pk_header p) = le_word (take 2 buf)"
    and "ph_payload_size (pk_header p) = le_word (take 4 (drop 4 buf))"
    and "16 + 16 * unat (ph_entry_count (pk_header p)) + unat (ph_payload_size (pk_header p)) \<le> length buf"
    and "omap (decode_entry buf (16 + 16 * unat (ph_entry_count (pk_header p)))
           (ph_payload_size (pk_header p))) [0..<unat (ph_entry_count (pk_header p))] = Ok (pk_entries p)"
  using assms
  by (auto simp: decode_packet_def Let_def outcome_simps read_Ok mult.commute)

lemma decode_entry_OkD:
  assumes "decode_entry buf base psz i = Ok e"
  shows "16 + i * 16 + 16 \<le> length buf"
    and "de_id e = le_word (take 2 (drop (16 + i * 16) buf))"
    and "de_timestamp e = le_word (take 8 (drop (16 + i * 16 + 8) buf))"
    and "\<exists>poff n. poff + n \<le> unat psz \<and> base + poff + n \<le> length buf \<and>
           de_payload e = take n (drop (base + poff) buf)"
proof -
  have l: "16 + i * 16 + 16 \<le> length buf"
  proof (rule ccontr)
    assume "\<not> 16 + i * 16 + 16 \<le> length buf"
    then have "\<exists>er. read_u64 buf (16 + i * 16 + 8) = Err er" using read_Err(4)[of "16 + i * 16 + 8"] by auto
    with assms show False by (auto simp: decode_entry_def Let_def outcome_simps)
  qed
  then show "16 + i * 16 + 16 \<le> length buf" .
  from l assms show "de_id e = le_word (take 2 (drop (16 + i * 16) buf))"
    "de_timestamp e = le_word (take 8 (drop (16 + i * 16 + 8) buf))"
    by (auto simp: decode_entry_def Let_def outcome_simps read_Ok split: if_splits)
  from assms obtain poff :: u32 and psize :: u16 where "unat poff + unat psize \<le> unat psz"
      "slice_range buf (base + unat poff) (base + unat poff + unat psize) = (Ok (de_payload e) :: bytes wres)"
    by (auto simp: decode_entry_def Let_def outcome_simps not_less split: if_splits)
  then show "\<exists>poff n. poff + n \<le> unat psz \<and> base + poff + n \<le> length buf \<and>
           de_payload e = take n (drop (base + poff) buf)"
    by (intro exI[of _ "unat poff"] exI[of _ "unat psize"]) (auto dest!: slice_range_OkD)
qed


lemma decode_packet_timestamps:
  assumes "decode_packet buf = Ok p"
  shows "map de_timestamp (pk_entries p) =
    map (\<lambda>i. le_word (take 8 (drop (24 + 16 * i) buf))) [0..<unat (ph_entry_count (pk_header p))]"
proof (rule nth_equalityI)
  note D = decode_packet_OkD[OF assms]
  have len: "length (pk_entries p) = unat (ph_entry_count (pk_header p))"
    using omap_Ok_length[OF D(5)] by simp
  then show "length (map de_timestamp (pk_entries p)) =
    length (map (\<lambda>i. le_word (take 8 (drop (24 + 16 * i) buf)))
      [0..<unat (ph_entry_count (pk_header p))])" by simp
  fix i assume "i < length (map de_timestamp (pk_entries p))"
  then show "map de_timestamp (pk_entries p) ! i =
    map (\<lambda>i. le_word (take 8 (drop (24 + 16 * i) buf))) [0..<unat (ph_entry_count (pk_header p))] ! i"
    using decode_entry_OkD(3)[of buf _ _ i "pk_entries p ! i"] omap_Ok_nth[OF D(5), of i] len
    by (simp add: ac_simps)
qed

section \<open>Round trip with the C packer\<close>

lemma length_wire_entry_header [simp]: "length (wire_entry_header off e) = 16"
  by (simp add: wire_entry_header_def split: prod.split)

lemma length_wire_entry_headers [simp]: "length (wire_entry_headers off es) = length es"
  by (induction es arbitrary: off) auto

lemma set_wire_entry_headers: "h \<in> set (wire_entry_headers off es) \<Longrightarrow> length h = 16"
  by (induction es arbitrary: off) auto

lemma wire_entry_headers_nth:
  "i < length es \<Longrightarrow>
     wire_entry_headers off es ! i = wire_entry_header (off + length (wire_payload (take i es))) (es ! i)"
proof (induction es arbitrary: off i)
  case (Cons e es)
  then show ?case
    by (cases i) (auto simp: wire_payload_def add.assoc split: prod.splits)
qed simp

lemma wire_payload_nth:
  assumes "i < length es"
  shows "take (length (snd (snd (es ! i)))) (drop (length (wire_payload (take i es))) (wire_payload es))
       = snd (snd (es ! i))"
proof -
  have "es = take i es @ es ! i # drop (Suc i) es" using assms by (rule id_take_nth_drop)
  moreover have "wire_payload (xs @ y # ys) = wire_payload xs @ snd (snd y) @ wire_payload ys" for xs y ys
    by (simp add: wire_payload_def split: prod.split)
  ultimately have "wire_payload es =
      wire_payload (take i es) @ snd (snd (es ! i)) @ wire_payload (drop (Suc i) es)"
    by metis
  then show ?thesis by simp
qed

lemma wire_payload_prefix_le:
  assumes "i < length es"
  shows "length (wire_payload (take i es)) + length (snd (snd (es ! i))) \<le> length (wire_payload es)"
proof -
  have "length (wire_payload es) = sum_list (map (\<lambda>e. length (snd (snd e))) es)"
    for es by (induction es) (auto simp: wire_payload_def split: prod.splits)
  note l = this
  have "es = take i es @ es ! i # drop (Suc i) es" using assms by (rule id_take_nth_drop)
  then have "sum_list (map (\<lambda>e. length (snd (snd e))) es) =
      sum_list (map (\<lambda>e. length (snd (snd e))) (take i es)) + length (snd (snd (es ! i)))
      + sum_list (map (\<lambda>e. length (snd (snd e))) (drop (Suc i) es))"
    by (metis (no_types, lifting) add.assoc list.simps(9) map_append sum_list.Cons sum_list_append)
  then show ?thesis by (simp add: l)
qed

definition entry_of_log :: "log_entry \<Rightarrow> decoded_entry" where
  "entry_of_log = (\<lambda>(eid, ts, pl). \<lparr>de_id = eid, de_timestamp = ts, de_payload = pl\<rparr>)"

definition packable :: "log_entry list \<Rightarrow> bool" where
  "packable es \<longleftrightarrow> length es < 2 ^ 16 \<and> (\<forall>e\<in>set es. length (snd (snd e)) < 2 ^ 16) \<and>
     length (wire_payload es) < 2 ^ 32"

lemma wire_packet_parts:
  assumes "packable es"
  shows "length (wire_packet flags dropped es) = 16 + 16 * length es + length (wire_payload es)"
    and "i < length es \<Longrightarrow> drop (16 + i * 16) (wire_packet flags dropped es) =
       wire_entry_headers 0 es ! i @ concat (drop (Suc i) (wire_entry_headers 0 es)) @ wire_payload es"
    and "drop (16 + 16 * length es) (wire_packet flags dropped es) = wire_payload es"
proof -
  have lc: "length (concat (wire_entry_headers 0 es)) = 16 * length es"
    using length_concat_fixed[of "wire_entry_headers 0 es" 16] set_wire_entry_headers by auto
  show "length (wire_packet flags dropped es) = 16 + 16 * length es + length (wire_payload es)"
    by (simp add: wire_packet_def lc)
  show "drop (16 + 16 * length es) (wire_packet flags dropped es) = wire_payload es"
    by (simp add: wire_packet_def lc)
  show "drop (16 + i * 16) (wire_packet flags dropped es) =
       wire_entry_headers 0 es ! i @ concat (drop (Suc i) (wire_entry_headers 0 es)) @ wire_payload es"
    if "i < length es"
    using drop_concat_fixed[of "wire_entry_headers 0 es" 16 i "wire_payload es"] that
      set_wire_entry_headers by (simp add: wire_packet_def)
qed

lemma wire_packet_entry:
  assumes "packable es" and i: "i < length es"
  shows "decode_entry (wire_packet flags dropped es) (16 + 16 * length es)
     (of_nat (length (wire_payload es))) i = Ok (entry_of_log (es ! i))"
proof -
  let ?b = "wire_packet flags dropped es"
  obtain eid ts pl where e: "es ! i = (eid, ts, pl)" by (cases "es ! i")
  let ?o = "length (wire_payload (take i es))"
  have pl: "length pl < 2 ^ 16" using assms e by (metis nth_mem packable_def snd_conv)
  have fit: "?o + length pl \<le> length (wire_payload es)" using wire_payload_prefix_le[OF i] e by simp
  have tot: "length (wire_payload es) < 2 ^ 32" using assms by (simp add: packable_def)
  note P = wire_packet_parts[OF assms(1), where flags = flags and dropped = dropped]
  have h: "drop (16 + i * 16) ?b = word_le 2 eid @ word_le 2 (of_nat (length pl) :: u16)
      @ word_le 4 (of_nat ?o :: u32) @ word_le 8 ts
      @ concat (drop (Suc i) (wire_entry_headers 0 es)) @ wire_payload es"
    using P(2)[OF i] i by (simp add: wire_entry_headers_nth e wire_entry_header_def)
  have d: "drop (18 + i * 16) ?b = drop 2 (drop (16 + i * 16) ?b)"
      "drop (20 + i * 16) ?b = drop 4 (drop (16 + i * 16) ?b)"
      "drop (24 + i * 16) ?b = drop 8 (drop (16 + i * 16) ?b)"
    by (simp_all add: add.commute)
  have len: "16 + i * 16 + 16 \<le> length ?b" using P(1) i by simp
  have r: "read_u16 ?b (16 + i * 16) = Ok eid"
      "read_u16 ?b (18 + i * 16) = Ok (of_nat (length pl))"
      "read_u32 ?b (20 + i * 16) = Ok (of_nat ?o)"
      "read_u64 ?b (24 + i * 16) = Ok ts"
    using len by (simp_all add: read_Ok d h del: drop_drop)
  have u: "unat (of_nat (length pl) :: u16) = length pl" "unat (of_nat ?o :: u32) = ?o"
      "unat (of_nat (length (wire_payload es)) :: u32) = length (wire_payload es)"
    using pl fit tot by (simp_all add: unat_of_nat)
  have "slice_range ?b (16 + 16 * length es + ?o) (16 + 16 * length es + ?o + length pl) = (Ok pl :: bytes wres)"
  proof -
    have "drop (16 + 16 * length es + ?o) ?b = drop ?o (wire_payload es)"
      unfolding P(3)[symmetric] by (simp only: drop_drop add.commute)
    then show ?thesis using P(1) fit wire_payload_nth[OF i] e by simp
  qed
  then show ?thesis
    using fit by (simp add: decode_entry_def Let_def r u e entry_of_log_def)
qed

lemma decode_wire_packet_raw:
  assumes "packable es"
  shows "decode_packet (wire_packet flags dropped es) =
    Ok \<lparr>pk_header = \<lparr>ph_entry_count = of_nat (length es), ph_flags = flags,
          ph_payload_size = of_nat (length (wire_payload es)), ph_dropped = dropped\<rparr>,
        pk_entries = map entry_of_log es\<rparr>"
proof -
  let ?b = "wire_packet flags dropped es"
  note P = wire_packet_parts[OF assms, where flags = flags and dropped = dropped]
  have r: "read_u16 ?b 0 = Ok (of_nat (length es))" "read_u16 ?b 2 = Ok flags"
      "read_u32 ?b 4 = Ok (of_nat (length (wire_payload es)))" "read_u32 ?b 8 = Ok dropped"
    using P(1) by (simp_all add: read_Ok wire_packet_def)
  have u: "unat (of_nat (length es) :: u16) = length es"
      "unat (of_nat (length (wire_payload es)) :: u32) = length (wire_payload es)"
    using assms by (simp_all add: packable_def unat_of_nat)
  have "omap (decode_entry ?b (16 + 16 * length es) (of_nat (length (wire_payload es))))
      [0..<length es] = Ok (map entry_of_log es)"
    by (rule omap_OkI) (simp_all add: wire_packet_entry[OF assms])
  then show ?thesis
    using P(1) by (simp add: decode_packet_def Let_def r u need_def mult.commute)
qed

text \<open>
  C2. The decoder inverts the packer: for any log records that fit the header fields (fewer than
  \<open>2 ^ 16\<close> records, payloads shorter than \<open>2 ^ 16\<close> bytes and together shorter than \<open>2 ^ 32\<close>), decoding
  the packet laid out as the C side lays it out yields exactly these records, in order, with the
  drop counter.
\<close>

theorem decode_wire_packet:
  assumes "packable es"
  shows "decode_packet (wire_packet flags dropped es) =
    Ok \<lparr>pk_header = \<lparr>ph_entry_count = of_nat (length es), ph_flags = flags,
          ph_payload_size = of_nat (length (wire_payload es)), ph_dropped = dropped\<rparr>,
        pk_entries = map entry_of_log es\<rparr>"
  using assms by (rule decode_wire_packet_raw)

definition log_ex :: "log_entry list" where
  "log_ex = [(7, 100, [1, 2]), (8, 90, [3])]"

lemma packable_log_ex: "packable log_ex"
  by (simp add: packable_def wire_payload_def log_ex_def)

theorem decode_wire_packet_witness:
  "\<exists>p. decode_packet (wire_packet 0 5 log_ex) = Ok p \<and> ph_dropped (pk_header p) = 5 \<and>
     map de_payload (pk_entries p) = [[1, 2], [3]]"
  using decode_wire_packet[OF packable_log_ex, of 0 5] by (simp add: entry_of_log_def log_ex_def)


end
