(* ===== verification/Capture.thy ===== *)
theory Capture
  imports Wire Float64
begin

text \<open>
  The packet ring and the \<open>.btlm\<close> files: \<open>viewer/crates/btelem-capture/src/lib.rs\<close>.

  \<^item> The ring (\<open>Inner\<close> behind its mutex) is the record \<open>capture\<close>; its methods are functions on it. The
    ring is proved to be the longest suffix of the packets pushed that fits the byte budget.
  \<^item> A file is a byte string, the file system a map from paths; \<open>write_btlm_inner\<close> and \<open>read_btlm\<close> are
    proved inverse to each other. Reads past the end are the error \<open>Io\<close>, as \<open>read_exact\<close> reports them;
    a seek to \<open>2 ^ 63\<close> or more is refused by the operating system; a buffer of \<open>2 ^ 63\<close> bytes or more is
    the \<open>capacity overflow\<close> panic of \<open>vec!\<close>.
  \<^item> The clock is an argument (nanoseconds for \<open>Instant\<close>, seconds for \<open>SystemTime\<close>).
\<close>

section \<open>Constants and errors\<close>

definition MAGIC :: bytes where "MAGIC = [0x42, 0x54, 0x4C, 0x4D]"
definition VERSION :: u16 where "VERSION = 1"
definition INDEX_MAGIC :: u32 where "INDEX_MAGIC = 0x494C5442"
definition DEFAULT_RING_BYTES :: usize where "DEFAULT_RING_BYTES = 256 * 1024 * 1024"

datatype capture_error = Io | NoSchema | BadPacket nat | BadMagic | UnsupportedVersion u16 | Truncated

type_synonym 'a cres = "('a, capture_error) outcome"

record packet_meta =
  pm_ts_min :: u64
  pm_ts_max :: u64
  pm_entry_count :: u32

record capture_stats =
  cs_packets :: u64
  cs_bytes :: u64
  cs_packets_total :: u64
  cs_packets_dropped :: u64
  cs_ts_min :: "u64 option"
  cs_ts_max :: "u64 option"
  cs_age_secs :: f64
  cs_has_schema :: bool

section \<open>Packet metadata\<close>

text \<open>The loop over the entry table.\<close>

definition meta_step :: "bytes \<Rightarrow> nat \<Rightarrow> u64 \<times> u64 \<Rightarrow> (u64 \<times> u64) cres" where
  "meta_step buf i = (\<lambda>(ts_min, ts_max).
     let off = PACKET_HEADER_SIZE + i * ENTRY_HEADER_SIZE + 8 in
     obind (slice_range buf off (off + 8)) (\<lambda>b.
     let ts = le_word b in Ok (min ts_min ts, max ts_max ts)))"

definition extract_meta :: "bytes \<Rightarrow> packet_meta cres" where
  "extract_meta buf =
     (if length buf < PACKET_HEADER_SIZE then Err (BadPacket (length buf))
      else obind (index_at buf 0) (\<lambda>b0. obind (index_at buf 1) (\<lambda>b1.
        let entry_count = unat (le_word [b0, b1] :: u16);
            need_len = PACKET_HEADER_SIZE + entry_count * ENTRY_HEADER_SIZE in
        if length buf < need_len then Err (BadPacket (length buf))
        else if entry_count = 0 then Ok \<lparr>pm_ts_min = 0, pm_ts_max = 0, pm_entry_count = 0\<rparr>
        else obind (ofold (meta_step buf) [0..<entry_count] (- 1, 0)) (\<lambda>(ts_min, ts_max).
          Ok \<lparr>pm_ts_min = ts_min, pm_ts_max = ts_max, pm_entry_count = of_nat entry_count\<rparr>))))"

section \<open>The ring\<close>

record capture =
  cp_schema :: "bytes option"
  cp_packets :: "(bytes \<times> packet_meta) list"
  cp_bytes :: usize
  cp_cap_bytes :: usize
  cp_packets_total :: u64
  cp_packets_dropped :: u64
  cp_epoch :: "nat option"

definition capture_new :: "usize \<Rightarrow> capture" where
  "capture_new cap = \<lparr>cp_schema = None, cp_packets = [], cp_bytes = 0, cp_cap_bytes = cap,
     cp_packets_total = 0, cp_packets_dropped = 0, cp_epoch = None\<rparr>"

definition capture_clear :: "capture \<Rightarrow> capture" where
  "capture_clear g = g\<lparr>cp_schema := None, cp_packets := [], cp_bytes := 0,
     cp_packets_total := 0, cp_packets_dropped := 0, cp_epoch := None\<rparr>"

text \<open>The eviction loop on the three fields it touches.\<close>

fun evict_loop :: "usize \<Rightarrow> (bytes \<times> packet_meta) list \<Rightarrow> usize \<Rightarrow> u64
    \<Rightarrow> ((bytes \<times> packet_meta) list \<times> usize \<times> u64) cres" where
  "evict_loop cap packets bs dropped =
     (if cap < bs then
        (case packets of
           [] \<Rightarrow> Ok ([], bs, dropped)
         | (pkt, _) # rest \<Rightarrow>
             if bs < length pkt then Panic else evict_loop cap rest (bs - length pkt) (dropped + 1))
      else Ok (packets, bs, dropped))"

declare evict_loop.simps [simp del]

definition evict_to_fit :: "capture \<Rightarrow> capture cres" where
  "evict_to_fit g =
     obind (evict_loop (cp_cap_bytes g) (cp_packets g) (cp_bytes g) (cp_packets_dropped g))
       (\<lambda>(packets, bs, dropped).
         Ok (g\<lparr>cp_packets := packets, cp_bytes := bs, cp_packets_dropped := dropped\<rparr>))"

definition start_epoch :: "nat \<Rightarrow> capture \<Rightarrow> capture" where
  "start_epoch now g = (if cp_epoch g = None then g\<lparr>cp_epoch := Some now\<rparr> else g)"

definition set_schema :: "nat \<Rightarrow> bytes \<Rightarrow> capture \<Rightarrow> bool \<times> capture" where
  "set_schema now blob g =
     (let differs = (case cp_schema g of Some s \<Rightarrow> s \<noteq> blob | None \<Rightarrow> False)
      in (differs, start_epoch now (g\<lparr>cp_schema := Some blob\<rparr>)))"

definition push_packet :: "nat \<Rightarrow> bytes \<Rightarrow> capture \<Rightarrow> capture cres" where
  "push_packet now bs g =
     obind (extract_meta bs) (\<lambda>meta.
     let g = g\<lparr>cp_bytes := cp_bytes g + length bs, cp_packets := cp_packets g @ [(bs, meta)],
               cp_packets_total := cp_packets_total g + 1\<rparr>
     in evict_to_fit (start_epoch now g))"

fun list_min :: "'a::linorder list \<Rightarrow> 'a option" where
  "list_min [] = None"
| "list_min (x # xs) = Some (fold min xs x)"

fun list_max :: "'a::linorder list \<Rightarrow> 'a option" where
  "list_max [] = None"
| "list_max (x # xs) = Some (fold max xs x)"

text \<open>\<open>Duration::as_secs_f64\<close> of a number of nanoseconds.\<close>

definition as_secs_f64 :: "nat \<Rightarrow> f64" where
  "as_secs_f64 n = f64_add (f64_of_int (int (n div 10 ^ 9)))
     (f64_div (f64_of_int (int (n mod 10 ^ 9))) (f64_of_int (10 ^ 9)))"

definition capture_stats_of :: "nat \<Rightarrow> capture \<Rightarrow> capture_stats" where
  "capture_stats_of now g =
     \<lparr>cs_packets = of_nat (length (cp_packets g)), cs_bytes = of_nat (cp_bytes g),
      cs_packets_total = cp_packets_total g, cs_packets_dropped = cp_packets_dropped g,
      cs_ts_min = list_min (map (pm_ts_min \<circ> snd) (cp_packets g)),
      cs_ts_max = list_max (map (pm_ts_max \<circ> snd) (cp_packets g)),
      cs_age_secs = (case cp_epoch g of None \<Rightarrow> Fin 0 | Some t \<Rightarrow> as_secs_f64 (now - t)),
      cs_has_schema = (cp_schema g \<noteq> None)\<rparr>"

definition has_data :: "capture \<Rightarrow> bool" where
  "has_data g \<longleftrightarrow> cp_packets g \<noteq> []"

section \<open>Writing a file\<close>

fun write_packets :: "(bytes \<times> packet_meta) list \<Rightarrow> bytes \<Rightarrow> (u64 \<times> packet_meta) list
    \<Rightarrow> bytes \<times> (u64 \<times> packet_meta) list" where
  "write_packets [] w offsets = (w, offsets)"
| "write_packets ((pkt, meta) # ps) w offsets =
     write_packets ps (w @ pkt) (offsets @ [(of_nat (length w), meta)])"

definition write_index_entry :: "u64 \<times> packet_meta \<Rightarrow> bytes" where
  "write_index_entry = (\<lambda>(off, meta).
     word_le 8 off @ word_le 8 (pm_ts_min meta) @ word_le 8 (pm_ts_max meta)
     @ word_le 4 (pm_entry_count meta))"

definition write_btlm_inner :: "bytes \<Rightarrow> bytes \<Rightarrow> (bytes \<times> packet_meta) list \<Rightarrow> bytes" where
  "write_btlm_inner w schema packets =
     (let w = w @ MAGIC @ word_le 2 VERSION @ word_le 4 (of_nat (length schema) :: u32) @ schema;
          (w, offsets) = write_packets packets w [];
          index_offset = (of_nat (length w) :: u64)
      in w @ concat (map write_index_entry offsets)
         @ word_le 8 index_offset @ word_le 4 (of_nat (length offsets) :: u32) @ word_le 4 INDEX_MAGIC)"

record file_system =
  fs_files :: "string \<rightharpoonup> bytes"
  fs_writable :: "string \<Rightarrow> bool"

record save_report =
  rp_packets :: u64
  rp_bytes :: u64
  rp_schema_bytes :: u64

definition save_btlm :: "capture \<Rightarrow> string \<Rightarrow> file_system \<Rightarrow> save_report cres \<times> file_system" where
  "save_btlm g path fs =
     (case cp_schema g of
        None \<Rightarrow> (Err NoSchema, fs)
      | Some schema \<Rightarrow>
          if \<not> fs_writable fs path then (Err Io, fs)
          else let content = write_btlm_inner [] schema (cp_packets g)
               in (Ok \<lparr>rp_packets = of_nat (length (cp_packets g)), rp_bytes = of_nat (length content),
                        rp_schema_bytes = of_nat (length schema)\<rparr>,
                   fs\<lparr>fs_files := (fs_files fs)(path \<mapsto> content)\<rparr>))"

section \<open>Reading a file\<close>

record loaded_capture =
  lc_schema :: bytes
  lc_packets :: "bytes list"

definition read_exact :: "bytes \<Rightarrow> nat \<Rightarrow> nat \<Rightarrow> (bytes \<times> nat) cres" where
  "read_exact c pos n =
     (if n = 0 \<or> pos + n \<le> length c then Ok (take n (drop pos c), pos + n) else Err Io)"

definition seek_start :: "u64 \<Rightarrow> nat cres" where
  "seek_start off = (if unat off < 2 ^ 63 then Ok (unat off) else Err Io)"

fun read_index :: "bytes \<Rightarrow> nat \<Rightarrow> nat \<Rightarrow> u64 list cres" where
  "read_index c pos 0 = Ok []"
| "read_index c pos (Suc n) =
     obind (read_exact c pos 28) (\<lambda>(buf, pos').
     obind (slice_range buf 0 8) (\<lambda>b.
     obind (read_index c pos' n) (\<lambda>entries. Ok (le_word b # entries))))"

text \<open>The body of the loop that slices out packet \<open>i\<close>.\<close>

definition read_body :: "bytes \<Rightarrow> u64 list \<Rightarrow> u64 \<Rightarrow> nat \<Rightarrow> nat \<Rightarrow> bytes cres" where
  "read_body c entries index_offset count i =
     obind (index_at entries i) (\<lambda>start.
     obind (if i + 1 < count then index_at entries (i + 1) else Ok index_offset) (\<lambda>fin.
     if fin < start then Err Truncated
     else let len = unat (fin - start) in
       obind (seek_start start) (\<lambda>pos.
       if 2 ^ 63 \<le> len then Panic
       else obind (read_exact c pos len) (\<lambda>(buf, _). Ok buf))))"

definition read_btlm_content :: "bytes \<Rightarrow> loaded_capture cres" where
  "read_btlm_content c =
     obind (read_exact c 0 4) (\<lambda>(magic, pos).
     if magic \<noteq> MAGIC then Err BadMagic else
     obind (read_exact c pos 2) (\<lambda>(ver, pos).
     let version = (le_word ver :: u16) in
     if version \<noteq> VERSION then Err (UnsupportedVersion version) else
     obind (read_exact c pos 4) (\<lambda>(slen, pos).
     let schema_len = unat (le_word slen :: u32) in
     obind (read_exact c pos schema_len) (\<lambda>(schema, pos).
     let total = length c in
     if total < 16 then Err Truncated else
     obind (read_exact c (total - 16) 16) (\<lambda>(footer, pos).
     obind (slice_range footer 0 8) (\<lambda>f0.
     obind (slice_range footer 8 12) (\<lambda>f1.
     obind (slice_range footer 12 16) (\<lambda>f2.
     let index_offset = (le_word f0 :: u64); count = unat (le_word f1 :: u32);
         magic_le = (le_word f2 :: u32) in
     if magic_le \<noteq> INDEX_MAGIC then Err BadMagic else
     obind (seek_start index_offset) (\<lambda>pos.
     obind (read_index c pos count) (\<lambda>entries.
     obind (omap (read_body c entries index_offset count) [0..<count]) (\<lambda>packets.
     Ok \<lparr>lc_schema = schema, lc_packets = packets\<rparr>)))))))))))"

definition read_btlm :: "string \<Rightarrow> file_system \<Rightarrow> loaded_capture cres" where
  "read_btlm path fs = (case fs_files fs path of None \<Rightarrow> Err Io | Some c \<Rightarrow> read_btlm_content c)"

section \<open>File names\<close>

definition is_leap :: "nat \<Rightarrow> bool" where
  "is_leap year \<longleftrightarrow> year mod 4 = 0 \<and> year mod 100 \<noteq> 0 \<or> year mod 400 = 0"

function year_loop :: "nat \<Rightarrow> nat \<Rightarrow> nat \<times> nat" where
  "year_loop days year =
     (let dy = (if is_leap year then 366 else 365) in
      if days < dy then (days, year) else year_loop (days - dy) (year + 1))"
  by pat_completeness auto
termination
  by (relation "measure fst") (auto split: if_splits)

declare year_loop.simps [simp del]

fun month_loop :: "nat list \<Rightarrow> nat \<Rightarrow> nat \<Rightarrow> nat \<times> nat" where
  "month_loop [] days month = (days, month)"
| "month_loop (md # mds) days month =
     (if days < md then (days, month) else month_loop mds (days - md) (month + 1))"

definition month_days :: "nat \<Rightarrow> nat list" where
  "month_days year = [31, if is_leap year then 29 else 28, 31, 30, 31, 30, 31, 31, 30, 31, 30, 31]"

definition utc_components :: "nat \<Rightarrow> nat \<times> nat \<times> nat \<times> nat \<times> nat \<times> nat" where
  "utc_components unix_secs =
     (let ss = unix_secs mod 60;
          mm = unix_secs div 60 mod 60;
          hh = unix_secs div 3600 mod 24;
          (days, year) = year_loop (unix_secs div 86400) 1970;
          (days, month) = month_loop (month_days year) days 1
      in (year, month, days + 1, hh, mm, ss))"

text \<open>The format width \<open>{:0n}\<close>.\<close>

definition zero_pad :: "nat \<Rightarrow> nat \<Rightarrow> string" where
  "zero_pad n k = (let s = show_nat k in replicate (n - length s) CHR ''0'' @ s)"

definition suggested_filename_with :: "nat \<Rightarrow> string \<Rightarrow> string option \<Rightarrow> string" where
  "suggested_filename_with now_secs pfx sfx_arg =
     (let (y, m, d, hh, mm, ss) = utc_components now_secs;
          sfx = (case sfx_arg of Some s \<Rightarrow> ''-'' @ s | None \<Rightarrow> [])
      in pfx @ ''-'' @ zero_pad 4 y @ zero_pad 2 m @ zero_pad 2 d @ ''-''
         @ zero_pad 2 hh @ zero_pad 2 mm @ zero_pad 2 ss @ sfx @ ''.btlm'')"

definition suggested_filename :: "nat \<Rightarrow> string" where
  "suggested_filename now_secs = suggested_filename_with now_secs ''btelem'' None"

section \<open>The ring holds the longest suffix that fits\<close>

datatype capture_op = Set_schema nat bytes | Push_packet nat bytes | Clear_capture

fun capture_step :: "capture_op \<Rightarrow> capture \<Rightarrow> capture" where
  "capture_step (Set_schema now blob) g = snd (set_schema now blob g)"
| "capture_step (Push_packet now bs) g = (case push_packet now bs g of Ok g' \<Rightarrow> g' | _ \<Rightarrow> g)"
| "capture_step Clear_capture g = capture_clear g"

definition capture_run :: "usize \<Rightarrow> capture_op list \<Rightarrow> capture" where
  "capture_run cap ops = fold capture_step ops (capture_new cap)"

text \<open>The packets accepted since the last clear, with their metadata.\<close>

fun pushed_step :: "capture_op \<Rightarrow> (bytes \<times> packet_meta) list \<Rightarrow> (bytes \<times> packet_meta) list" where
  "pushed_step (Push_packet now bs) h = (case extract_meta bs of Ok m \<Rightarrow> h @ [(bs, m)] | _ \<Rightarrow> h)"
| "pushed_step Clear_capture h = []"
| "pushed_step (Set_schema now blob) h = h"

definition pushed :: "capture_op list \<Rightarrow> (bytes \<times> packet_meta) list" where
  "pushed ops = fold pushed_step ops []"

fun packet_bytes :: "(bytes \<times> 'm) list \<Rightarrow> nat" where
  "packet_bytes [] = 0"
| "packet_bytes (p # ps) = length (fst p) + packet_bytes ps"

lemma packet_bytes_append [simp]: "packet_bytes (ps @ qs) = packet_bytes ps + packet_bytes qs"
  by (induction ps) auto

fun longest_fit :: "nat \<Rightarrow> (bytes \<times> 'm) list \<Rightarrow> (bytes \<times> 'm) list" where
  "longest_fit cap [] = []"
| "longest_fit cap (p # ps) = (if packet_bytes (p # ps) \<le> cap then p # ps else longest_fit cap ps)"

lemma longest_fit_snoc: "longest_fit cap (longest_fit cap ps @ [p]) = longest_fit cap (ps @ [p])"
  by (induction ps) auto

lemma longest_fit_suffix: "suffix (longest_fit cap ps) ps"
  by (induction ps) (auto simp: suffix_Cons)

lemma longest_fit_fits: "packet_bytes (longest_fit cap ps) \<le> cap"
  by (induction ps) auto

lemma longest_fit_longest: "suffix qs ps \<Longrightarrow> packet_bytes qs \<le> cap \<Longrightarrow> suffix qs (longest_fit cap ps)"
  by (induction ps) (auto simp: suffix_Cons)

lemma evict_loop_fit:
  "evict_loop cap ps (packet_bytes ps) d =
     Ok (longest_fit cap ps, packet_bytes (longest_fit cap ps), d + of_nat (length ps - length (longest_fit cap ps)))"
proof (induction ps arbitrary: d)
  case Nil
  then show ?case by (simp add: evict_loop.simps)
next
  case (Cons p ps)
  obtain pkt m where p: "p = (pkt, m)" by force
  show ?case
  proof (cases "cap < packet_bytes (p # ps)")
    case True
    have "length (longest_fit cap ps) \<le> length ps" by (rule suffix_length_le[OF longest_fit_suffix])
    then have "(1 :: u64) + of_nat (length ps - length (longest_fit cap ps))
        = of_nat (Suc (length ps) - length (longest_fit cap ps))"
      by (simp add: Suc_diff_le)
    with True p Cons.IH[of "d + 1"] show ?thesis
      by (subst evict_loop.simps) (simp add: add.assoc)
  qed (subst evict_loop.simps, simp add: not_less)
qed

text \<open>The invariant of the ring, relative to the history of accepted packets.\<close>

definition ring_holds :: "usize \<Rightarrow> (bytes \<times> packet_meta) list \<Rightarrow> capture \<Rightarrow> bool" where
  "ring_holds cap h g \<longleftrightarrow> cp_cap_bytes g = cap \<and> cp_packets g = longest_fit cap h \<and>
     cp_bytes g = packet_bytes (cp_packets g) \<and> cp_packets_total g = of_nat (length h) \<and>
     cp_packets_dropped g = of_nat (length h - length (cp_packets g))"

lemma ring_holds_new: "ring_holds cap [] (capture_new cap)"
  by (simp add: ring_holds_def capture_new_def)

lemma start_epoch_ring [simp]:
  "ring_holds cap h (start_epoch now g) = ring_holds cap h g"
  "cp_schema (start_epoch now g) = cp_schema g" "cp_packets (start_epoch now g) = cp_packets g"
  "cp_bytes (start_epoch now g) = cp_bytes g" "cp_cap_bytes (start_epoch now g) = cp_cap_bytes g"
  "cp_packets_total (start_epoch now g) = cp_packets_total g"
  "cp_packets_dropped (start_epoch now g) = cp_packets_dropped g"
  by (simp_all add: start_epoch_def ring_holds_def)

lemma push_packet_ring:
  assumes "ring_holds cap h g" and "extract_meta bs = Ok m"
  shows "\<exists>g'. push_packet now bs g = Ok g' \<and> ring_holds cap (h @ [(bs, m)]) g' \<and> cp_schema g' = cp_schema g"
proof -
  let ?ps = "longest_fit cap h @ [(bs, m)]"
  have g: "cp_cap_bytes g = cap" "cp_packets g = longest_fit cap h"
    "cp_bytes g = packet_bytes (longest_fit cap h)" "cp_packets_total g = of_nat (length h)"
    "cp_packets_dropped g = of_nat (length h - length (longest_fit cap h))"
    using assms(1) by (simp_all add: ring_holds_def)
  have l: "length (longest_fit cap h) \<le> length h" "length (longest_fit cap ?ps) \<le> length ?ps"
    by (rule suffix_length_le[OF longest_fit_suffix])+
  then have d: "(of_nat (length h - length (longest_fit cap h)) :: u64)
      + of_nat (length ?ps - length (longest_fit cap ?ps)) = of_nat (Suc (length h) - length (longest_fit cap ?ps))"
    by (simp flip: of_nat_add)
  have "evict_loop cap ?ps (packet_bytes (longest_fit cap h) + length bs)
      (of_nat (length h - length (longest_fit cap h)))
    = Ok (longest_fit cap ?ps, packet_bytes (longest_fit cap ?ps),
        of_nat (Suc (length h) - length (longest_fit cap ?ps)))"
    using evict_loop_fit[of cap ?ps "of_nat (length h - length (longest_fit cap h))"] unfolding d by simp
  then show ?thesis
    using assms(2) g longest_fit_snoc[of cap h "(bs, m)"]
    by (simp add: push_packet_def evict_to_fit_def Let_def ring_holds_def add.commute)
qed

lemma push_packet_no_meta: "extract_meta bs \<noteq> Ok m \<Longrightarrow> extract_meta bs = Err e \<Longrightarrow> push_packet now bs g = Err e"
  by (simp add: push_packet_def)

lemma slice_meta_Ok:
  assumes "16 + i * 16 + 16 \<le> length buf"
  shows "meta_step buf i (lo, hi) =
    Ok (min lo (le_word (take 8 (drop (24 + 16 * i) buf))), max hi (le_word (take 8 (drop (24 + 16 * i) buf))))"
  using assms by (simp add: meta_step_def Let_def mult.commute)

lemma meta_fold:
  assumes "\<forall>i\<in>set is. 16 + i * 16 + 16 \<le> length buf"
  shows "ofold (meta_step buf) is (lo, hi) =
    Ok (fold min (map (\<lambda>i. le_word (take 8 (drop (24 + 16 * i) buf))) is) lo,
        fold max (map (\<lambda>i. le_word (take 8 (drop (24 + 16 * i) buf))) is) hi)"
  using assms
proof (induction "is" arbitrary: lo hi)
  case (Cons i "is")
  then show ?case by (simp add: slice_meta_Ok min.commute max.commute)
qed simp

definition packet_count :: "bytes \<Rightarrow> nat" where
  "packet_count buf = unat (le_word (take 2 buf) :: u16)"

text \<open>The metadata by cases: too short, no entries, or the extremes of the entry timestamps.\<close>

lemma extract_meta_cases:
  "extract_meta buf =
     (if length buf < 16 + 16 * packet_count buf then Err (BadPacket (length buf))
      else if packet_count buf = 0 then Ok \<lparr>pm_ts_min = 0, pm_ts_max = 0, pm_entry_count = 0\<rparr>
      else let ts = map (\<lambda>i. le_word (take 8 (drop (24 + 16 * i) buf))) [0..<packet_count buf] in
        Ok \<lparr>pm_ts_min = fold min ts (- 1), pm_ts_max = fold max ts 0,
             pm_entry_count = of_nat (packet_count buf)\<rparr>)"
proof (cases "length buf < 16")
  case False
  then have t: "[buf ! 0, buf ! 1] = take 2 buf" using nth_list_drop(1)[of 0 buf] by simp
  have "buf \<noteq> []" "1 < length buf" using False by auto
  then have i: "(index_at buf 0 :: u8 cres) = Ok (buf ! 0)" "(index_at buf 1 :: u8 cres) = Ok (buf ! 1)"
    by (simp_all add: index_at_def)
  have E: "extract_meta buf =
     (if length buf < 16 + packet_count buf * 16 then Err (BadPacket (length buf))
      else if packet_count buf = 0 then Ok \<lparr>pm_ts_min = 0, pm_ts_max = 0, pm_entry_count = 0\<rparr>
      else obind (ofold (meta_step buf) [0..<packet_count buf] (- 1, 0)) (\<lambda>(ts_min, ts_max).
          Ok \<lparr>pm_ts_min = ts_min, pm_ts_max = ts_max, pm_entry_count = of_nat (packet_count buf)\<rparr>))"
    using False unfolding extract_meta_def i obind.simps t Let_def packet_count_def
    by (simp only: PACKET_HEADER_SIZE_def ENTRY_HEADER_SIZE_def if_False)
  show ?thesis
  proof (cases "length buf < 16 + 16 * packet_count buf")
    case ok: False
    then have "ofold (meta_step buf) [0..<packet_count buf] (- 1, 0) =
      (Ok (fold min (map (\<lambda>i. le_word (take 8 (drop (24 + 16 * i) buf))) [0..<packet_count buf]) (- 1),
          fold max (map (\<lambda>i. le_word (take 8 (drop (24 + 16 * i) buf))) [0..<packet_count buf]) 0) :: (u64 \<times> u64) cres)"
      by (intro meta_fold) auto
    with ok show ?thesis by (simp add: E Let_def)
  qed (simp add: E)
qed (simp add: extract_meta_def)

lemma extract_meta_no_panic [simp]: "extract_meta buf \<noteq> Panic"
  by (simp add: extract_meta_cases Let_def)

lemma capture_step_ring:
  "ring_holds cap h g \<Longrightarrow> ring_holds cap (pushed_step op h) (capture_step op g)"
proof (cases op)
  case (Push_packet now bs)
  assume r: "ring_holds cap h g"
  show ?thesis
  proof (cases "extract_meta bs")
    case (Ok m)
    with push_packet_ring[OF r Ok, of now] Push_packet show ?thesis by auto
  qed (use r Push_packet in \<open>simp_all add: push_packet_def\<close>)
next
  case (Set_schema now blob)
  assume "ring_holds cap h g"
  then show ?thesis using Set_schema by (simp add: set_schema_def) (simp add: ring_holds_def)
qed (simp add: ring_holds_def capture_clear_def)

lemma capture_run_ring: "ring_holds cap (pushed ops) (capture_run cap ops)"
proof -
  have "ring_holds cap h g \<Longrightarrow> ring_holds cap (fold pushed_step ops h) (fold capture_step ops g)" for h g
    by (induction ops arbitrary: h g) (simp_all add: capture_step_ring)
  then show ?thesis by (simp add: pushed_def capture_run_def ring_holds_new)
qed

text \<open>
  C16. The ring is exact: after any sequence of schema announcements, pushes and clears it holds the
  longest suffix of the accepted packets that fits the byte budget, its byte counter is their total
  size and never above the budget, and every accepted packet is counted once as held or dropped.
\<close>

theorem capture_ring:
  "cp_packets (capture_run cap ops) = longest_fit cap (pushed ops) \<and>
   cp_bytes (capture_run cap ops) = packet_bytes (cp_packets (capture_run cap ops)) \<and>
   cp_bytes (capture_run cap ops) \<le> cap \<and>
   cp_packets_total (capture_run cap ops) =
     cp_packets_dropped (capture_run cap ops) + of_nat (length (cp_packets (capture_run cap ops)))"
proof -
  have "length (longest_fit cap (pushed ops)) \<le> length (pushed ops)"
    by (rule suffix_length_le[OF longest_fit_suffix])
  then show ?thesis
    using capture_run_ring[of cap ops] longest_fit_fits[of cap "pushed ops"]
    by (simp add: ring_holds_def flip: of_nat_add)
qed

lemma fold_min_word: "fold min xs (- 1 :: u64) = (if xs = [] then - 1 else Min (set xs))"
  by (metis Min.set_eq_fold Min_insert finite_set list.simps(15) list.exhaust min.absorb2 word_n1_ge set_empty2 fold_simps(1))

lemma fold_max_word: "fold max xs (0 :: u64) = (if xs = [] then 0 else Max (set xs))"
  by (metis Max.set_eq_fold Max_insert finite_set list.simps(15) list.exhaust max.absorb2 word_zero_le set_empty2 fold_simps(1))

text \<open>
  The ring accepts what the viewer decodes: a packet that \<open>decode_packet\<close> accepts is accepted by
  \<open>push_packet\<close>, and its metadata are the number of its entries and, when it has any, the smallest and
  the largest of their timestamps.
\<close>

theorem decoded_packet_is_captured:
  assumes "decode_packet buf = Ok p"
  shows "\<exists>m. extract_meta buf = Ok m \<and> pm_entry_count m = of_nat (length (pk_entries p)) \<and>
    (pk_entries p \<noteq> [] \<longrightarrow> pm_ts_min m = Min (de_timestamp ` set (pk_entries p)) \<and>
       pm_ts_max m = Max (de_timestamp ` set (pk_entries p)))"
proof -
  note D = decode_packet_OkD[OF assms]
  have n: "packet_count buf = unat (ph_entry_count (pk_header p))" by (simp add: packet_count_def D(2))
  have len: "length (pk_entries p) = packet_count buf" using omap_Ok_length[OF D(5)] by (simp add: n)
  note ts = decode_packet_timestamps[OF assms, folded n]
  have "de_timestamp ` set (pk_entries p) = set (map (\<lambda>i. le_word (take 8 (drop (24 + 16 * i) buf))) [0..<packet_count buf])"
    using arg_cong[OF ts, of set] by simp
  moreover have "16 + 16 * packet_count buf \<le> length buf" using D(4) n by simp
  ultimately show ?thesis
    using len by (auto simp: extract_meta_cases Let_def fold_min_word fold_max_word)
qed

section \<open>Files read back what was written\<close>

lemma write_packets_eq:
  "write_packets ps w offs =
     (w @ concat (map fst ps),
      offs @ map (\<lambda>i. (of_nat (length w + packet_bytes (take i ps)), snd (ps ! i))) [0..<length ps])"
proof (induction ps arbitrary: w offs)
  case (Cons p ps)
  obtain pkt m where p: "p = (pkt, m)" by force
  have "map (\<lambda>i. (of_nat (length w + packet_bytes (take i (p # ps))) :: u64, snd ((p # ps) ! i))) [0..<length (p # ps)]
      = (of_nat (length w), m) # map (\<lambda>i. (of_nat (length (w @ pkt) + packet_bytes (take i ps)), snd (ps ! i))) [0..<length ps]"
    using p by (simp add: map_upt_Suc add.assoc del: upt_Suc)
  then show ?case using p Cons.IH[of "w @ pkt" "offs @ [(of_nat (length w), m)]"] by (simp del: upt_Suc)
qed simp

lemma length_write_index_entry [simp]: "length (write_index_entry e) = 28"
  by (simp add: write_index_entry_def split: prod.split)

lemma read_exact_at:
  assumes "c = pre @ mid @ post" and "length pre = pos" and "length mid = n"
  shows "read_exact c pos n = Ok (mid, pos + n)"
  using assms by (simp add: read_exact_def)

lemma read_index_at:
  assumes "c = pre @ concat (map write_index_entry offs) @ post" and "length pre = pos"
  shows "read_index c pos (length offs) = Ok (map fst offs)"
  using assms
proof (induction offs arbitrary: pre pos)
  case (Cons o' offs)
  obtain off m where o': "o' = (off, m)" by force
  have "read_exact c pos 28 = Ok (write_index_entry o', pos + 28)"
    using Cons.prems by (intro read_exact_at[where pre = pre]) auto
  moreover have "read_index c (pos + 28) (length offs) = Ok (map fst offs)"
    using Cons.prems by (intro Cons.IH[where pre = "pre @ write_index_entry o'"]) auto
  moreover have "take 8 (write_index_entry o') = word_le 8 off" by (simp add: write_index_entry_def o')
  ultimately show ?case by (simp add: o')
qed simp

lemma packet_bytes_concat: "length (concat (map fst ps)) = packet_bytes ps"
  by (induction ps) auto

lemma take_concat_nth:
  assumes "i < length ps"
  shows "take (length (fst (ps ! i))) (drop (packet_bytes (take i ps)) (concat (map fst ps) @ post)) = fst (ps ! i)"
proof -
  have "ps = take i ps @ ps ! i # drop (Suc i) ps" using assms by (rule id_take_nth_drop)
  then have "concat (map fst ps) = concat (map fst (take i ps)) @ fst (ps ! i) @ concat (map fst (drop (Suc i) ps))"
    by (metis concat.simps(2) concat_append list.simps(9) map_append)
  then show ?thesis by (simp add: packet_bytes_concat)
qed

lemma packet_bytes_take_Suc: "i < length ps \<Longrightarrow> packet_bytes (take (Suc i) ps) = packet_bytes (take i ps) + length (fst (ps ! i))"
  by (simp add: take_Suc_conv_app_nth)

lemma packet_bytes_take_le: "packet_bytes (take i ps) \<le> packet_bytes ps"
  by (metis append_take_drop_id le_add1 packet_bytes_append)

lemma unat_of_nat_diff: "a \<le> b \<Longrightarrow> b < 2 ^ 64 \<Longrightarrow> unat (of_nat b - of_nat a :: u64) = b - a"
  by (simp add: unat_of_nat flip: of_nat_diff)

lemma read_body_at:
  fixes ps :: "(bytes \<times> packet_meta) list"
  assumes c: "c = pre @ concat (map fst ps) @ post" and i: "i < length ps"
    and b: "length pre + packet_bytes ps < 2 ^ 63"
    and e: "entries = map (\<lambda>i. of_nat (length pre + packet_bytes (take i ps))) [0..<length ps]"
  shows "read_body c entries (of_nat (length pre + packet_bytes ps)) (length ps) i = Ok (fst (ps ! i))"
proof -
  let ?o = "\<lambda>i. length pre + packet_bytes (take i ps)"
  have lt: "?o j < 2 ^ 63" for j using b packet_bytes_take_le[of j ps] by simp
  have u: "unat (of_nat (?o j) :: u64) = ?o j" for j
    using lt[of j] by (simp add: unat_of_nat del: of_nat_add)
  have suc: "?o (Suc i) = ?o i + length (fst (ps ! i))" using packet_bytes_take_Suc[OF i] by simp
  have fin: "(if i + 1 < length ps then index_at entries (i + 1) else Ok (of_nat (length pre + packet_bytes ps)))
      = (Ok (of_nat (?o (Suc i))) :: u64 cres)"
    using i by (simp add: e del: of_nat_add)
  have start: "(index_at entries i :: u64 cres) = Ok (of_nat (?o i))" using i by (simp add: e del: of_nat_add)
  have le: "(of_nat (?o i) :: u64) \<le> of_nat (?o (Suc i))" unfolding word_le_nat_alt u by (simp add: suc)
  have "unat (of_nat (?o (Suc i)) - of_nat (?o i) :: u64) = ?o (Suc i) - ?o i"
    by (rule unat_of_nat_diff) (use suc lt[of "Suc i"] in auto)
  also have "\<dots> = length (fst (ps ! i))" using suc by linarith
  finally have sub: "unat (of_nat (?o (Suc i)) - of_nat (?o i) :: u64) = length (fst (ps ! i))" .
  have len: "length (fst (ps ! i)) < 2 ^ 63" "?o i + length (fst (ps ! i)) \<le> length c"
    using lt[of "Suc i"] suc packet_bytes_take_le[of "Suc i" ps] by (auto simp: c packet_bytes_concat)
  have "drop (?o i) c = drop (packet_bytes (take i ps)) (concat (map fst ps) @ post)" by (simp add: c)
  then have rd: "read_exact c (?o i) (length (fst (ps ! i))) = Ok (fst (ps ! i), ?o (Suc i))"
    using len(2) take_concat_nth[OF i, of post] by (simp only: read_exact_def suc) simp
  have "\<not> (of_nat (?o (Suc i)) :: u64) < of_nat (?o i)" using le by simp
  then show ?thesis
    unfolding read_body_def start obind.simps fin if_False Let_def sub
    using lt[of i] len(1) rd by (simp add: seek_start_def u del: of_nat_add)
qed

text \<open>The file as header, packets, index and footer.\<close>

lemma write_btlm_layout:
  defines "h \<equiv> \<lambda>schema. MAGIC @ word_le 2 VERSION @ word_le 4 (of_nat (length schema) :: u32) @ schema"
  shows "write_btlm_inner [] schema ps = h schema @ concat (map fst ps) @
     concat (map write_index_entry (map (\<lambda>i. (of_nat (length (h schema) + packet_bytes (take i ps)), snd (ps ! i))) [0..<length ps])) @
     (word_le 8 (of_nat (length (h schema) + packet_bytes ps) :: u64) @ word_le 4 (of_nat (length ps) :: u32) @ word_le 4 INDEX_MAGIC)"
  by (simp add: write_btlm_inner_def Let_def write_packets_eq h_def packet_bytes_concat)

text \<open>Reading inverts writing, for contents that fit the length fields of the format.\<close>

lemma btlm_roundtrip:
  assumes "length schema < 2 ^ 32" and "length ps < 2 ^ 32" and "10 + length schema + packet_bytes ps < 2 ^ 63"
  shows "read_btlm_content (write_btlm_inner [] schema ps) = Ok \<lparr>lc_schema = schema, lc_packets = map fst ps\<rparr>"
proof -
  let ?hl = "MAGIC @ word_le 2 VERSION @ word_le 4 (of_nat (length schema) :: u32)"
  let ?h = "MAGIC @ word_le 2 VERSION @ word_le 4 (of_nat (length schema) :: u32) @ schema"
  let ?offs = "map (\<lambda>i. (of_nat (length ?h + packet_bytes (take i ps)) :: u64, snd (ps ! i))) [0..<length ps]"
  let ?io = "of_nat (length ?h + packet_bytes ps) :: u64"
  let ?f = "word_le 8 ?io @ word_le 4 (of_nat (length ps) :: u32) @ word_le 4 INDEX_MAGIC"
  let ?idx = "concat (map write_index_entry ?offs)"
  define c where "c = write_btlm_inner [] schema ps"
  have c: "c = ?h @ concat (map fst ps) @ ?idx @ ?f" unfolding c_def by (rule write_btlm_layout)
  have h: "length ?h = 10 + length schema" by (simp add: MAGIC_def)
  have lc: "16 \<le> length c" unfolding c by simp
  have us: "unat (of_nat (length schema) :: u32) = length schema" "unat (of_nat (length ps) :: u32) = length ps"
    using assms by (simp_all add: unat_of_nat)
  have io: "unat ?io = 10 + length schema + packet_bytes ps" "unat ?io < 2 ^ 63"
    using assms(3) by (simp_all only: h, simp_all add: unat_of_nat del: of_nat_add)
  have "read_exact c 0 4 = Ok (MAGIC, 0 + 4)"
    unfolding c by (rule read_exact_at[where pre = "[]"]) (simp_all add: MAGIC_def)
  moreover have "read_exact c 4 2 = Ok (word_le 2 VERSION, 4 + 2)"
    unfolding c by (rule read_exact_at[where pre = MAGIC]) (simp_all add: MAGIC_def)
  moreover have "read_exact c 6 4 = Ok (word_le 4 (of_nat (length schema) :: u32), 6 + 4)"
    unfolding c by (rule read_exact_at[where pre = "MAGIC @ word_le 2 VERSION"]) (simp_all add: MAGIC_def)
  moreover have "read_exact c 10 (length schema) = Ok (schema, 10 + length schema)"
    unfolding c by (rule read_exact_at[where pre = ?hl]) (simp_all add: MAGIC_def)
  moreover have "read_exact c (length c - 16) 16 = Ok (?f, length c - 16 + 16)"
    by (rule read_exact_at[where pre = "?h @ concat (map fst ps) @ ?idx" and post = "[]"]) (simp_all add: c)
  moreover have "read_index c (10 + length schema + packet_bytes ps) (length ?offs) = Ok (map fst ?offs)"
    by (rule read_index_at[where pre = "?h @ concat (map fst ps)" and post = ?f])
      (simp_all add: c packet_bytes_concat MAGIC_def)
  moreover have "omap (read_body c (map fst ?offs) ?io (length ps)) [0..<length ps] = Ok (map fst ps)"
  proof (rule omap_OkI)
    fix i assume "i < length [0..<length ps]"
    then have i: "i < length ps" by simp
    have "map fst ?offs = map (\<lambda>i. of_nat (length ?h + packet_bytes (take i ps))) [0..<length ps]"
      by (simp add: comp_def)
    then have "read_body c (map fst ?offs) ?io (length ps) i = Ok (fst (ps ! i))"
      using c i assms(3) h by (intro read_body_at) (simp_all only: append_assoc)
    moreover have "[0..<length ps] ! i = i" "map fst ps ! i = fst (ps ! i)" using i by simp_all
    ultimately show "read_body c (map fst ?offs) ?io (length ps) ([0..<length ps] ! i) = Ok (map fst ps ! i)"
      by (simp only:)
  qed simp
  ultimately show ?thesis
    using lc us io unfolding c_def[symmetric] read_btlm_content_def
    by (simp add: Let_def seek_start_def del: of_nat_add)
qed

text \<open>
  C3. A saved capture reads back. Whatever was captured, if a schema was announced, the path can be
  written and the contents fit the length fields of the format (a schema and a packet count below
  \<open>2 ^ 32\<close>, a budget that leaves the file below \<open>2 ^ 63\<close> bytes), then \<open>save_btlm\<close> succeeds and \<open>read_btlm\<close> on
  the same path returns the schema and the packets of the ring, byte for byte and in order.
\<close>

theorem save_then_read:
  assumes "cp_schema (capture_run cap ops) = Some schema" and "fs_writable fs path"
    and "length schema < 2 ^ 32" and "length (cp_packets (capture_run cap ops)) < 2 ^ 32"
    and "10 + length schema + cap < 2 ^ 63"
  shows "\<exists>rep fs'. save_btlm (capture_run cap ops) path fs = (Ok rep, fs') \<and>
    rp_packets rep = of_nat (length (cp_packets (capture_run cap ops))) \<and>
    read_btlm path fs' = Ok \<lparr>lc_schema = schema, lc_packets = map fst (cp_packets (capture_run cap ops))\<rparr>"
proof -
  have "packet_bytes (cp_packets (capture_run cap ops)) \<le> cap"
    using capture_run_ring[of cap ops] longest_fit_fits[of cap "pushed ops"] by (simp add: ring_holds_def)
  then have "10 + length schema + packet_bytes (cp_packets (capture_run cap ops)) < 2 ^ 63"
    using assms(5) by linarith
  from btlm_roundtrip[OF assms(3,4) this] show ?thesis
    using assms(1,2) by (simp add: save_btlm_def read_btlm_def Let_def)
qed

definition packet_ex :: bytes where
  "packet_ex = wire_packet 0 0 [(7, 100, [1, 2]), (8, 90, [3])]"

lemma capture_ex:
  "cp_schema (capture_run 1000 [Set_schema 0 [9, 9], Push_packet 1 packet_ex]) = Some [9, 9]"
  "length (cp_packets (capture_run 1000 [Set_schema 0 [9, 9], Push_packet 1 packet_ex])) < 2 ^ 32"
proof -
  let ?g = "capture_run 1000 [Set_schema 0 [9, 9], Push_packet 1 packet_ex]"
  define g0 where "g0 = snd (set_schema 0 [9, 9] (capture_new 1000))"
  have "ring_holds 1000 [] g0" "cp_schema g0 = Some [9, 9]"
    unfolding g0_def by (simp_all add: set_schema_def) (simp add: ring_holds_def capture_new_def)
  moreover obtain m where "extract_meta packet_ex = Ok m"
    by (simp add: extract_meta_cases Let_def packet_ex_def wire_packet_def wire_payload_def
        wire_entry_header_def packet_count_def)
  ultimately obtain g' where "push_packet 1 packet_ex g0 = Ok g'" "cp_schema g' = Some [9, 9]"
    using push_packet_ring by metis
  then show "cp_schema ?g = Some [9, 9]" by (simp add: capture_run_def g0_def)
  have "suffix (cp_packets ?g) (pushed [Set_schema 0 [9, 9], Push_packet 1 packet_ex])"
    using capture_run_ring[of 1000 "[Set_schema 0 [9, 9], Push_packet 1 packet_ex]"]
    by (simp add: ring_holds_def longest_fit_suffix)
  from suffix_length_le[OF this] show "length (cp_packets ?g) < 2 ^ 32"
    by (simp add: pushed_def split: outcome.splits)
qed

theorem save_then_read_witness:
  "\<exists>rep fs'. save_btlm (capture_run 1000 [Set_schema 0 [9, 9], Push_packet 1 packet_ex]) ''a.btlm''
      \<lparr>fs_files = Map.empty, fs_writable = \<lambda>_. True\<rparr> = (Ok rep, fs') \<and>
    (\<exists>ps. read_btlm ''a.btlm'' fs' = Ok \<lparr>lc_schema = [9, 9], lc_packets = ps\<rparr>)"
  using save_then_read[OF capture_ex(1) _ _ capture_ex(2),
      of "\<lparr>fs_files = Map.empty, fs_writable = \<lambda>_. True\<rparr>" "''a.btlm''"] by auto

theorem decoded_packet_is_captured_witness:
  "\<exists>m. extract_meta packet_ex = Ok m \<and> pm_entry_count m = 2"
proof -
  have "packable [(7, 100, [1, 2]), (8, 90, [3])]" by (simp add: packable_def wire_payload_def)
  from decode_wire_packet_raw[OF this, of 0 0] show ?thesis
    using decoded_packet_is_captured[of packet_ex] unfolding packet_ex_def by fastforce
qed

definition corrupt_index :: "(u64 \<times> packet_meta) list" where
  "corrupt_index = [(0, \<lparr>pm_ts_min = 0, pm_ts_max = 0, pm_entry_count = 0\<rparr>),
                    (- 1, \<lparr>pm_ts_min = 0, pm_ts_max = 0, pm_entry_count = 0\<rparr>)]"

definition corrupt_file :: bytes where
  "corrupt_file = MAGIC @ word_le 2 VERSION @ word_le 4 (0 :: u32)
     @ concat (map write_index_entry corrupt_index)
     @ word_le 8 (10 :: u64) @ word_le 4 (2 :: u32) @ word_le 4 INDEX_MAGIC"

text \<open>
  A corrupt index can crash the reader: in this 82-byte file the second index entry holds the
  offset \<open>2 ^ 64 - 1\<close>; the length computed for the first packet exceeds what a buffer can hold, and
  \<open>read_btlm\<close> panics instead of returning \<open>Truncated\<close>.
\<close>

theorem read_btlm_panics: "read_btlm_content corrupt_file = Panic"
proof -
  let ?h = "MAGIC @ word_le 2 VERSION @ word_le 4 (0 :: u32)"
  let ?f = "word_le 8 (10 :: u64) @ word_le 4 (2 :: u32) @ word_le 4 INDEX_MAGIC"
  have lc: "length corrupt_file = 82" by (simp add: corrupt_file_def corrupt_index_def MAGIC_def)
  have rd: "read_exact corrupt_file 0 4 = Ok (MAGIC, 0 + 4)"
    "read_exact corrupt_file 4 2 = Ok (word_le 2 VERSION, 4 + 2)"
    "read_exact corrupt_file 6 4 = Ok (word_le 4 (0 :: u32), 6 + 4)"
    "read_exact corrupt_file 66 16 = Ok (?f, 66 + 16)"
    by (rule read_exact_at[where pre = "[]"] read_exact_at[where pre = MAGIC]
        read_exact_at[where pre = "MAGIC @ word_le 2 VERSION"]
        read_exact_at[where pre = "?h @ concat (map write_index_entry corrupt_index)" and post = "[]"];
      simp add: MAGIC_def corrupt_file_def corrupt_index_def; fail)+
  have ix: "read_index corrupt_file 10 2 = Ok [0, - 1]"
  proof -
    have "read_index corrupt_file 10 (length corrupt_index) = Ok (map fst corrupt_index)"
      by (rule read_index_at[where pre = ?h and post = ?f]) (simp_all add: corrupt_file_def MAGIC_def)
    moreover have "length corrupt_index = 2" "map fst corrupt_index = [0, - 1]" by (simp_all add: corrupt_index_def)
    ultimately show ?thesis by (simp only:)
  qed
  have "unat (- 1 :: u64) = 2 ^ 64 - 1" by (simp add: unsigned_minus_1_eq_mask mask_eq_exp_minus_1)
  then have "read_body corrupt_file [0, - 1] 10 2 0 = Panic"
    by (simp add: read_body_def seek_start_def)
  then have "omap (read_body corrupt_file [0, - 1] 10 2) [0..<2] = Panic" by (simp add: upt_rec)
  moreover have "read_exact corrupt_file 10 0 = Ok ([], 10)" by (simp add: read_exact_def)
  ultimately show ?thesis
    using rd ix lc by (simp add: read_btlm_content_def Let_def seek_start_def)
qed

section \<open>Dates\<close>

definition year_len :: "nat \<Rightarrow> nat" where
  "year_len y = (if is_leap y then 366 else 365)"

text \<open>The number of days from 1 January 1970 to a date.\<close>

definition day_number :: "nat \<Rightarrow> nat \<Rightarrow> nat \<Rightarrow> nat" where
  "day_number y m d = sum_list (map year_len [1970..<y]) + sum_list (take (m - 1) (month_days y)) + (d - 1)"

lemma year_loop_spec:
  "year_loop days y = (d', y') \<Longrightarrow> y \<le> y' \<and> d' < year_len y' \<and> days = sum_list (map year_len [y..<y']) + d'"
proof (induction days y rule: year_loop.induct)
  case (1 days y)
  show ?case
  proof (cases "days < year_len y")
    case True
    then show ?thesis using "1.prems" by (simp add: year_loop.simps[of days] year_len_def Let_def)
  next
    case False
    then have e: "year_loop (days - year_len y) (y + 1) = (d', y')"
      using "1.prems" by (simp add: year_loop.simps[of days] year_len_def Let_def)
    have "y + 1 \<le> y' \<and> d' < year_len y' \<and> days - year_len y = sum_list (map year_len [y + 1..<y']) + d'"
      using "1.IH"[OF year_len_def] False e by blast
    moreover from this have "[y..<y'] = y # [y + 1..<y']" by (simp add: upt_conv_Cons)
    ultimately show ?thesis using False by simp linarith
  qed
qed

lemma month_loop_spec:
  "month_loop mds days m = (d', m') \<Longrightarrow> days < sum_list mds \<Longrightarrow>
     m \<le> m' \<and> m' - m < length mds \<and> d' < mds ! (m' - m) \<and> days = sum_list (take (m' - m) mds) + d'"
proof (induction mds arbitrary: days m)
  case (Cons md mds)
  show ?case
  proof (cases "days < md")
    case False
    then have "m + 1 \<le> m' \<and> m' - (m + 1) < length mds \<and> d' < mds ! (m' - (m + 1)) \<and>
        days - md = sum_list (take (m' - (m + 1)) mds) + d'"
      using Cons.prems Cons.IH[of "days - md" "m + 1"] by simp
    moreover from this have "m' - m = Suc (m' - (m + 1))" by linarith
    ultimately show ?thesis using False by auto
  qed (use Cons.prems in auto)
qed simp

lemma seconds_split:
  fixes secs :: nat
  shows "secs = 86400 * (secs div 86400) + 3600 * (secs div 3600 mod 24) + 60 * (secs div 60 mod 60) + secs mod 60"
proof -
  have "secs div 3600 = secs div 60 div 60" "secs div 86400 = secs div 3600 div 24"
    by (simp_all flip: div_mult2_eq)
  moreover have "secs = 60 * (secs div 60) + secs mod 60"
    "secs div 60 = 60 * (secs div 60 div 60) + secs div 60 mod 60"
    "secs div 3600 = 24 * (secs div 3600 div 24) + secs div 3600 mod 24"
    by simp_all
  ultimately show ?thesis by linarith
qed


end
