(* ===== verification/Schema.thy ===== *)
theory Schema
  imports Wire Float64
begin

text \<open>
  The schema descriptor: \<open>viewer/crates/btelem-wire/src/schema.rs\<close> (types, decoder, lookups) and
  \<open>value.rs\<close> (reading one field of a payload).

  The encoders \<open>enc_schema\<close>, \<open>enc_entry\<close>, \<open>enc_enum\<close>, \<open>enc_bitfield\<close> are the packed structs of
  \<open>include/btelem/btelem_types.h\<close> as \<open>btelem_schema_serialize\<close> fills them (zeroed buffer, strings
  copied in). The locale \<open>fixed_codec\<close> is the contract of a record of fixed width; its table lemma
  gives the round trip of every section of the schema at once.
\<close>

section \<open>Types\<close>

datatype field_type =
    FT_U8 | FT_U16 | FT_U32 | FT_U64 | FT_I8 | FT_I16 | FT_I32 | FT_I64
  | FT_F32 | FT_F64 | FT_Bool | FT_Bytes | FT_Enum | FT_Bitfield | FT_String

definition field_type_from_u8 :: "u8 \<Rightarrow> field_type wres" where
  "field_type_from_u8 b =
     (let n = unat b in
      if n = 0 then Ok FT_U8 else if n = 1 then Ok FT_U16 else if n = 2 then Ok FT_U32
      else if n = 3 then Ok FT_U64 else if n = 4 then Ok FT_I8 else if n = 5 then Ok FT_I16
      else if n = 6 then Ok FT_I32 else if n = 7 then Ok FT_I64 else if n = 8 then Ok FT_F32
      else if n = 9 then Ok FT_F64 else if n = 10 then Ok FT_Bool else if n = 11 then Ok FT_Bytes
      else if n = 12 then Ok FT_Enum else if n = 13 then Ok FT_Bitfield
      else if n = 14 then Ok FT_String else Err (UnknownType b))"

record field_def =
  fd_name :: string
  fd_offset :: u16
  fd_size :: u16
  fd_ty :: field_type
  fd_count :: u8

record schema_entry =
  se_id :: u16
  se_name :: string
  se_description :: string
  se_payload_size :: u16
  se_fields :: "field_def list"

record enum_def =
  en_schema_id :: u16
  en_field_index :: u16
  en_labels :: "string list"

record bit_def =
  bd_name :: string
  bd_start :: u8
  bd_width :: u8

record bitfield_def =
  bf_schema_id :: u16
  bf_field_index :: u16
  bf_bits :: "bit_def list"

record schema =
  sc_entries :: "schema_entry list"
  sc_enums :: "enum_def list"
  sc_bitfields :: "bitfield_def list"

section \<open>Decoding\<close>

definition decode_field :: "bytes \<Rightarrow> usize \<Rightarrow> field_def wres" where
  "decode_field buf off =
     obind (read_cstr buf off NAME_MAX) (\<lambda>fname.
     obind (read_u16 buf (off + NAME_MAX)) (\<lambda>foff.
     obind (read_u16 buf (off + NAME_MAX + 2)) (\<lambda>fsize.
     obind (read_u8 buf (off + NAME_MAX + 4)) (\<lambda>t.
     obind (field_type_from_u8 t) (\<lambda>fty.
     obind (read_u8 buf (off + NAME_MAX + 5)) (\<lambda>fcount.
     Ok \<lparr>fd_name = fname, fd_offset = foff, fd_size = fsize, fd_ty = fty, fd_count = fcount\<rparr>))))))"

definition decode_schema_entry :: "bytes \<Rightarrow> usize \<Rightarrow> schema_entry wres" where
  "decode_schema_entry buf pos =
     obind (read_u16 buf pos) (\<lambda>eid.
     obind (read_u16 buf (pos + 2)) (\<lambda>payload_size.
     obind (read_u16 buf (pos + 4)) (\<lambda>field_count.
     if unat field_count > MAX_FIELDS then Err (TooManyFields field_count)
     else
       obind (read_cstr buf (pos + 6) NAME_MAX) (\<lambda>nm.
       obind (read_cstr buf (pos + 6 + NAME_MAX) DESC_MAX) (\<lambda>description.
       obind (omap (\<lambda>i. decode_field buf (pos + SCHEMA_WIRE_HEADER_SIZE + i * FIELD_WIRE_SIZE))
               [0..<unat field_count]) (\<lambda>fields.
       Ok \<lparr>se_id = eid, se_name = nm, se_description = description,
           se_payload_size = payload_size, se_fields = fields\<rparr>))))))"

definition decode_enum :: "bytes \<Rightarrow> usize \<Rightarrow> enum_def wres" where
  "decode_enum buf pos =
     obind (read_u16 buf pos) (\<lambda>sid.
     obind (read_u16 buf (pos + 2)) (\<lambda>fidx.
     obind (read_u8 buf (pos + 4)) (\<lambda>label_count.
     let labels_pos = pos + 5 in
     obind (need buf (labels_pos + ENUM_MAX_VALUES * ENUM_LABEL_MAX)) (\<lambda>_.
     obind (omap (\<lambda>i. read_cstr buf (labels_pos + i * ENUM_LABEL_MAX) ENUM_LABEL_MAX)
             [0..<min (unat label_count) ENUM_MAX_VALUES]) (\<lambda>labels.
     Ok \<lparr>en_schema_id = sid, en_field_index = fidx, en_labels = labels\<rparr>)))))"

definition decode_bit :: "bytes \<Rightarrow> usize \<Rightarrow> usize \<Rightarrow> usize \<Rightarrow> usize \<Rightarrow> bit_def wres" where
  "decode_bit buf names_pos starts_pos widths_pos i =
     obind (read_cstr buf (names_pos + i * BIT_NAME_MAX) BIT_NAME_MAX) (\<lambda>nm.
     obind (index_at buf (starts_pos + i)) (\<lambda>start.
     obind (index_at buf (widths_pos + i)) (\<lambda>width.
     Ok \<lparr>bd_name = nm, bd_start = start, bd_width = width\<rparr>)))"

definition decode_bitfield :: "bytes \<Rightarrow> usize \<Rightarrow> bitfield_def wres" where
  "decode_bitfield buf pos =
     obind (read_u16 buf pos) (\<lambda>sid.
     obind (read_u16 buf (pos + 2)) (\<lambda>fidx.
     obind (read_u8 buf (pos + 4)) (\<lambda>bit_count.
     let names_pos = pos + 5;
         starts_pos = names_pos + BITFIELD_MAX_BITS * BIT_NAME_MAX;
         widths_pos = starts_pos + BITFIELD_MAX_BITS in
     obind (need buf (widths_pos + BITFIELD_MAX_BITS)) (\<lambda>_.
     obind (omap (decode_bit buf names_pos starts_pos widths_pos)
             [0..<min (unat bit_count) BITFIELD_MAX_BITS]) (\<lambda>bits.
     Ok \<lparr>bf_schema_id = sid, bf_field_index = fidx, bf_bits = bits\<rparr>)))))"

text \<open>The loops of \<open>Schema::decode\<close>: \<open>n\<close> records from \<open>pos\<close> on, the position moving by the width.\<close>

fun decode_seq ::
  "(bytes \<Rightarrow> usize \<Rightarrow> 'a wres) \<Rightarrow> usize \<Rightarrow> nat \<Rightarrow> bytes \<Rightarrow> usize \<Rightarrow> ('a list \<times> usize) wres" where
  "decode_seq dec w 0 buf pos = Ok ([], pos)"
| "decode_seq dec w (Suc n) buf pos =
     obind (dec buf pos) (\<lambda>x.
     obind (decode_seq dec w n buf (pos + w)) (\<lambda>(xs, p). Ok (x # xs, p)))"

text \<open>An optional section: a count and its records, or nothing when the blob ends here.\<close>

definition decode_section ::
  "(bytes \<Rightarrow> usize \<Rightarrow> 'a wres) \<Rightarrow> usize \<Rightarrow> bytes \<Rightarrow> usize \<Rightarrow> ('a list \<times> usize) wres" where
  "decode_section dec w buf pos =
     (if pos + 2 \<le> length buf
      then obind (read_u16 buf pos) (\<lambda>n. decode_seq dec w (unat n) buf (pos + 2))
      else Ok ([], pos))"

definition schema_decode :: "bytes \<Rightarrow> schema wres" where
  "schema_decode buf =
     obind (read_u8 buf 0) (\<lambda>endian.
     if endian \<noteq> 0 then Err (BadEndian endian)
     else
       obind (read_u16 buf 1) (\<lambda>entry_count.
       if unat entry_count > MAX_SCHEMA_ENTRIES then Err (TooManyEntries entry_count)
       else
         obind (decode_seq decode_schema_entry SCHEMA_WIRE_SIZE (unat entry_count) buf
                 SCHEMA_HEADER_SIZE) (\<lambda>(entries, pos1).
         obind (decode_section decode_enum ENUM_WIRE_SIZE buf pos1) (\<lambda>(enums, pos2).
         obind (decode_section decode_bitfield BITFIELD_WIRE_SIZE buf pos2) (\<lambda>(bitfields, pos3).
         Ok \<lparr>sc_entries = entries, sc_enums = enums, sc_bitfields = bitfields\<rparr>)))))"

section \<open>Lookups\<close>

definition schema_lookup :: "schema \<Rightarrow> u16 \<Rightarrow> schema_entry option" where
  "schema_lookup s i = find_first (\<lambda>e. se_id e = i) (sc_entries s)"

definition enum_labels :: "schema \<Rightarrow> u16 \<Rightarrow> u16 \<Rightarrow> string list option" where
  "enum_labels s sid fidx =
     map_option en_labels
       (find_first (\<lambda>e. en_schema_id e = sid \<and> en_field_index e = fidx) (sc_enums s))"

definition schema_bitfield :: "schema \<Rightarrow> u16 \<Rightarrow> u16 \<Rightarrow> bitfield_def option" where
  "schema_bitfield s sid fidx =
     find_first (\<lambda>b. bf_schema_id b = sid \<and> bf_field_index b = fidx) (sc_bitfields s)"

section \<open>Field values (value.rs)\<close>

text \<open>
  \<open>s.try_into().ok()?\<close>: the slice must have exactly the width of the integer. The outer option is
  Rust's \<open>Option\<close>; \<open>s[0]\<close> on an empty slice is a panic.
\<close>

definition exact :: "nat \<Rightarrow> bytes \<Rightarrow> (bytes \<Rightarrow> f64) \<Rightarrow> (f64 option, unit) outcome" where
  "exact n s f = Ok (if length s = n then Some (f s) else None)"

definition field_as_f64 :: "field_def \<Rightarrow> bytes \<Rightarrow> (f64 option, unit) outcome" where
  "field_as_f64 field payload =
     (if fd_count field \<noteq> 1 then Ok None
      else let off = unat (fd_offset field); sz = unat (fd_size field) in
        if off + sz > length payload then Ok None
        else obind (slice_range payload off (off + sz)) (\<lambda>s.
          case fd_ty field of
            FT_U8 \<Rightarrow> obind (index_at s 0) (\<lambda>b. Ok (Some (f64_of_int (uint b))))
          | FT_U16 \<Rightarrow> exact 2 s (\<lambda>s. f64_of_int (uint (le_word s :: u16)))
          | FT_U32 \<Rightarrow> exact 4 s (\<lambda>s. f64_of_int (uint (le_word s :: u32)))
          | FT_U64 \<Rightarrow> exact 8 s (\<lambda>s. f64_of_int (uint (le_word s :: u64)))
          | FT_I8 \<Rightarrow> obind (index_at s 0) (\<lambda>b. Ok (Some (f64_of_int (sint b))))
          | FT_I16 \<Rightarrow> exact 2 s (\<lambda>s. f64_of_int (sint (le_word s :: u16)))
          | FT_I32 \<Rightarrow> exact 4 s (\<lambda>s. f64_of_int (sint (le_word s :: u32)))
          | FT_I64 \<Rightarrow> exact 8 s (\<lambda>s. f64_of_int (sint (le_word s :: u64)))
          | FT_F32 \<Rightarrow> exact 4 s (\<lambda>s. f64_of_f32_bits (le_word s))
          | FT_F64 \<Rightarrow> exact 8 s (\<lambda>s. f64_of_bits (le_word s))
          | FT_Bool \<Rightarrow> obind (index_at s 0) (\<lambda>b. Ok (Some (f64_of_int (if b \<noteq> 0 then 1 else 0))))
          | FT_Enum \<Rightarrow> obind (index_at s 0) (\<lambda>b. Ok (Some (f64_of_int (uint b))))
          | FT_Bytes \<Rightarrow> Ok None
          | FT_Bitfield \<Rightarrow> Ok None
          | FT_String \<Rightarrow> Ok None))"

definition field_as_string :: "field_def \<Rightarrow> bytes \<Rightarrow> string option" where
  "field_as_string field payload =
     (if fd_ty field \<noteq> FT_String then None
      else let off = unat (fd_offset field); sz = unat (fd_size field) in
        if off + sz > length payload then None
        else let raw = take sz (drop off payload);
                 en = unwrap_or (length raw) (position (\<lambda>b. b = 0) raw)
             in Some (from_utf8_lossy (take en raw)))"

section \<open>The wire layout of a schema (btelem_types.h, btelem.c)\<close>

definition enc_cstr :: "usize \<Rightarrow> string \<Rightarrow> bytes" where
  "enc_cstr mx s = bytes_of_str s @ replicate (mx - length s) 0"

definition field_type_code :: "field_type \<Rightarrow> u8" where
  "field_type_code t = (case t of FT_U8 \<Rightarrow> 0 | FT_U16 \<Rightarrow> 1 | FT_U32 \<Rightarrow> 2 | FT_U64 \<Rightarrow> 3 | FT_I8 \<Rightarrow> 4
     | FT_I16 \<Rightarrow> 5 | FT_I32 \<Rightarrow> 6 | FT_I64 \<Rightarrow> 7 | FT_F32 \<Rightarrow> 8 | FT_F64 \<Rightarrow> 9 | FT_Bool \<Rightarrow> 10
     | FT_Bytes \<Rightarrow> 11 | FT_Enum \<Rightarrow> 12 | FT_Bitfield \<Rightarrow> 13 | FT_String \<Rightarrow> 14)"

definition enc_field :: "field_def \<Rightarrow> bytes" where
  "enc_field f = enc_cstr 64 (fd_name f) @ word_le 2 (fd_offset f) @ word_le 2 (fd_size f)
     @ [field_type_code (fd_ty f), fd_count f]"

definition enc_entry :: "schema_entry \<Rightarrow> bytes" where
  "enc_entry e = word_le 2 (se_id e) @ word_le 2 (se_payload_size e)
     @ word_le 2 (of_nat (length (se_fields e)) :: u16)
     @ enc_cstr 64 (se_name e) @ enc_cstr 128 (se_description e)
     @ concat (map enc_field (se_fields e)) @ replicate ((16 - length (se_fields e)) * 70) 0"

definition enc_enum :: "enum_def \<Rightarrow> bytes" where
  "enc_enum e = word_le 2 (en_schema_id e) @ word_le 2 (en_field_index e)
     @ [of_nat (length (en_labels e))]
     @ concat (map (enc_cstr 32) (en_labels e)) @ replicate ((64 - length (en_labels e)) * 32) 0"

definition enc_bitfield :: "bitfield_def \<Rightarrow> bytes" where
  "enc_bitfield b = (let n = length (bf_bits b) in
     word_le 2 (bf_schema_id b) @ word_le 2 (bf_field_index b) @ [of_nat n]
     @ (concat (map (enc_cstr 32 \<circ> bd_name) (bf_bits b)) @ replicate ((32 - n) * 32) 0)
     @ (map bd_start (bf_bits b) @ replicate (32 - n) 0)
     @ (map bd_width (bf_bits b) @ replicate (32 - n) 0))"

definition enc_schema :: "schema \<Rightarrow> bytes" where
  "enc_schema s = [0] @ word_le 2 (of_nat (length (sc_entries s)) :: u16)
     @ concat (map enc_entry (sc_entries s))
     @ word_le 2 (of_nat (length (sc_enums s)) :: u16) @ concat (map enc_enum (sc_enums s))
     @ word_le 2 (of_nat (length (sc_bitfields s)) :: u16)
     @ concat (map enc_bitfield (sc_bitfields s))"

text \<open>What fits the fixed-size structs.\<close>

definition cstr_ok :: "usize \<Rightarrow> string \<Rightarrow> bool" where
  "cstr_ok mx s \<longleftrightarrow> length s \<le> mx \<and> 0 \<notin> set (bytes_of_str s) \<and> utf8_valid (bytes_of_str s)"

definition field_ok :: "field_def \<Rightarrow> bool" where
  "field_ok f \<longleftrightarrow> cstr_ok 64 (fd_name f)"

definition entry_ok :: "schema_entry \<Rightarrow> bool" where
  "entry_ok e \<longleftrightarrow> cstr_ok 64 (se_name e) \<and> cstr_ok 128 (se_description e) \<and>
     length (se_fields e) \<le> 16 \<and> list_all field_ok (se_fields e)"

definition enum_ok :: "enum_def \<Rightarrow> bool" where
  "enum_ok e \<longleftrightarrow> length (en_labels e) \<le> 64 \<and> list_all (cstr_ok 32) (en_labels e)"

definition bitfield_ok :: "bitfield_def \<Rightarrow> bool" where
  "bitfield_ok b \<longleftrightarrow> length (bf_bits b) \<le> 32 \<and> list_all (\<lambda>d. cstr_ok 32 (bd_name d)) (bf_bits b)"

definition schema_ok :: "schema \<Rightarrow> bool" where
  "schema_ok s \<longleftrightarrow> length (sc_entries s) \<le> 512 \<and> list_all entry_ok (sc_entries s) \<and>
     length (sc_enums s) < 2 ^ 16 \<and> list_all enum_ok (sc_enums s) \<and>
     length (sc_bitfields s) < 2 ^ 16 \<and> list_all bitfield_ok (sc_bitfields s)"

section \<open>The decoder never panics\<close>

lemma field_type_no_panic [simp]: "field_type_from_u8 b \<noteq> Panic"
  by (simp add: field_type_from_u8_def Let_def)

lemma decode_field_no_panic [simp]: "decode_field buf off \<noteq> Panic"
  unfolding decode_field_def by (intro obind_no_panic) simp_all

lemma decode_schema_entry_no_panic [simp]: "decode_schema_entry buf pos \<noteq> Panic"
  unfolding decode_schema_entry_def by (auto simp: outcome_simps omap_no_panic split: if_splits)

lemma decode_enum_no_panic [simp]: "decode_enum buf pos \<noteq> Panic"
  unfolding decode_enum_def Let_def by (intro obind_no_panic omap_no_panic) simp_all

lemma decode_bit_no_panic:
  assumes "starts_pos + i < length buf" and "widths_pos + i < length buf"
  shows "decode_bit buf names_pos starts_pos widths_pos i \<noteq> Panic"
  unfolding decode_bit_def using assms by (intro obind_no_panic) simp_all

lemma decode_bitfield_no_panic [simp]: "decode_bitfield buf pos \<noteq> Panic"
  unfolding decode_bitfield_def Let_def
  by (intro obind_no_panic omap_no_panic decode_bit_no_panic) (auto simp: outcome_simps)

lemma decode_seq_no_panic:
  "(\<And>pos. dec buf pos \<noteq> Panic) \<Longrightarrow> decode_seq dec w n buf pos \<noteq> Panic"
  by (induction n arbitrary: pos) (auto simp: outcome_simps)

lemma decode_section_no_panic:
  "(\<And>pos. dec buf pos \<noteq> Panic) \<Longrightarrow> decode_section dec w buf pos \<noteq> Panic"
  unfolding decode_section_def by (auto simp: outcome_simps decode_seq_no_panic)

text \<open>
  \<open>Schema::decode\<close> is total: any byte string yields a schema or a \<open>WireError\<close>, never a panic,
  although the bitfield section indexes the buffer directly.
\<close>

theorem schema_decode_total: "schema_decode buf \<noteq> Panic"
  unfolding schema_decode_def
  by (auto simp: outcome_simps decode_seq_no_panic decode_section_no_panic split: if_splits)

section \<open>Bounds of a decoded schema\<close>

lemma decode_schema_entry_bounds:
  "decode_schema_entry buf pos = Ok e \<Longrightarrow> length (se_fields e) \<le> 16"
  by (auto simp: decode_schema_entry_def outcome_simps dest!: omap_Ok_length split: if_splits)

lemma decode_enum_bounds: "decode_enum buf pos = Ok e \<Longrightarrow> length (en_labels e) \<le> 64"
  by (auto simp: decode_enum_def Let_def outcome_simps dest!: omap_Ok_length)

lemma decode_bitfield_bounds: "decode_bitfield buf pos = Ok e \<Longrightarrow> length (bf_bits e) \<le> 32"
  by (auto simp: decode_bitfield_def Let_def outcome_simps dest!: omap_Ok_length)

lemma decode_seq_OkD:
  assumes "decode_seq dec w n buf pos = Ok (xs, p)"
  shows "length xs = n \<and> p = pos + n * w \<and> (\<forall>x\<in>set xs. \<exists>q. dec buf q = Ok x)"
  using assms
proof (induction n arbitrary: pos xs)
  case (Suc n)
  then obtain x ys where x: "dec buf pos = Ok x" and ys: "decode_seq dec w n buf (pos + w) = Ok (ys, p)"
    and xs: "xs = x # ys"
    by (auto simp: outcome_simps split: prod.splits)
  from Suc.IH[OF ys] x xs show ?case by auto
qed simp

lemma decode_section_OkD:
  "decode_section dec w buf pos = Ok (xs, p) \<Longrightarrow> \<forall>x\<in>set xs. \<exists>q. dec buf q = Ok x"
  by (auto simp: decode_section_def outcome_simps dest!: decode_seq_OkD split: if_splits)

text \<open>
  A schema that decodes respects the limits of the format: at most 512 entries, 16 fields per
  entry, 64 labels per enum and 32 bits per bitfield, whatever counts the blob announces.
\<close>

theorem schema_decode_bounds:
  assumes "schema_decode buf = Ok s"
  shows "length (sc_entries s) \<le> MAX_SCHEMA_ENTRIES \<and>
    (\<forall>e\<in>set (sc_entries s). length (se_fields e) \<le> MAX_FIELDS) \<and>
    (\<forall>e\<in>set (sc_enums s). length (en_labels e) \<le> ENUM_MAX_VALUES) \<and>
    (\<forall>b\<in>set (sc_bitfields s). length (bf_bits b) \<le> BITFIELD_MAX_BITS)"
proof -
  from assms obtain n :: u16 and p1 p2 p3 where n: "unat n \<le> 512"
    and e: "decode_seq decode_schema_entry SCHEMA_WIRE_SIZE (unat n) buf 3 = Ok (sc_entries s, p1)"
    and en: "decode_section decode_enum ENUM_WIRE_SIZE buf p1 = Ok (sc_enums s, p2)"
    and bf: "decode_section decode_bitfield BITFIELD_WIRE_SIZE buf p2 = Ok (sc_bitfields s, p3)"
    by (auto simp: schema_decode_def outcome_simps not_less split: if_splits prod.splits)
  show ?thesis
    using n decode_seq_OkD[OF e] decode_section_OkD[OF en] decode_section_OkD[OF bf]
      decode_schema_entry_bounds decode_enum_bounds decode_bitfield_bounds
    by fastforce
qed

section \<open>Round trip with the C serialiser\<close>

text \<open>
  The contract of a record of fixed width: an encoder, a decoder that reads at an offset, and what
  the encoder is meant for.
\<close>

locale fixed_codec =
  fixes width :: nat and enc :: "'a \<Rightarrow> bytes" and ok :: "'a \<Rightarrow> bool"
    and dec :: "bytes \<Rightarrow> usize \<Rightarrow> 'a wres"
  assumes enc_width: "ok x \<Longrightarrow> length (enc x) = width"
    and dec_enc: "ok x \<Longrightarrow> dec (pre @ enc x @ post) (length pre) = Ok x"
begin

lemma table_width: "list_all ok xs \<Longrightarrow> length (concat (map enc xs)) = length xs * width"
  by (induction xs) (auto simp: enc_width)

lemma seq_roundtrip:
  assumes "list_all ok xs"
  shows "decode_seq dec width (length xs) (pre @ concat (map enc xs) @ post) (length pre) =
    Ok (xs, length pre + length xs * width)"
  using assms
proof (induction xs arbitrary: pre)
  case (Cons x xs)
  have "dec (pre @ enc x @ (concat (map enc xs) @ post)) (length pre) = Ok x"
    using Cons.prems by (intro dec_enc) simp
  moreover have "decode_seq dec width (length xs) ((pre @ enc x) @ concat (map enc xs) @ post)
      (length (pre @ enc x)) = Ok (xs, length (pre @ enc x) + length xs * width)"
    using Cons.prems by (intro Cons.IH) simp
  ultimately show ?case using Cons.prems by (simp add: enc_width add.assoc)
qed simp

lemma loop_roundtrip:
  assumes "list_all ok xs"
  shows "omap (\<lambda>i. dec (pre @ concat (map enc xs) @ post) (length pre + i * width)) [0..<length xs] = Ok xs"
proof (rule omap_OkI)
  fix i assume i: "i < length [0..<length xs]"
  let ?pre = "pre @ concat (map enc (take i xs))"
  have "xs = take i xs @ xs ! i # drop (Suc i) xs" using i by (intro id_take_nth_drop) simp
  then have "concat (map enc xs) = concat (map enc (take i xs)) @ enc (xs ! i) @ concat (map enc (drop (Suc i) xs))"
    by (metis concat.simps(2) concat_append list.simps(9) map_append)
  moreover have "length ?pre = length pre + i * width"
    using assms i table_width[of "take i xs"] by (auto simp: list_all_iff dest: in_set_takeD)
  moreover have "dec (?pre @ enc (xs ! i) @ (concat (map enc (drop (Suc i) xs)) @ post)) (length ?pre) = Ok (xs ! i)"
    using assms i by (intro dec_enc) (simp add: list_all_length)
  ultimately show "dec (pre @ concat (map enc xs) @ post) (length pre + [0..<length xs] ! i * width) = Ok (xs ! i)"
    using i by simp
qed simp

lemma section_roundtrip:
  assumes "list_all ok xs" and "length xs < 2 ^ 16"
  shows "decode_section dec width (pre @ word_le 2 (of_nat (length xs) :: u16) @ concat (map enc xs) @ post)
     (length pre) = Ok (xs, length pre + 2 + length xs * width)"
proof -
  have "unat (of_nat (length xs) :: u16) = length xs" using assms by (simp add: unat_of_nat)
  moreover have "decode_seq dec width (length xs)
      ((pre @ word_le 2 (of_nat (length xs) :: u16)) @ concat (map enc xs) @ post)
      (length (pre @ word_le 2 (of_nat (length xs) :: u16)))
    = Ok (xs, length (pre @ word_le 2 (of_nat (length xs) :: u16)) + length xs * width)"
    by (rule seq_roundtrip[OF assms(1)])
  ultimately show ?thesis by (simp add: decode_section_def read_Ok)
qed

end

lemma length_enc_cstr: "length s \<le> mx \<Longrightarrow> length (enc_cstr mx s) = mx"
  by (simp add: enc_cstr_def)

lemma read_enc_cstr:
  assumes "cstr_ok mx s"
  shows "read_cstr (pre @ enc_cstr mx s @ post) (length pre) mx = Ok s"
proof -
  have l: "length s \<le> mx" "0 \<notin> set (bytes_of_str s)" "utf8_valid (bytes_of_str s)"
    using assms by (simp_all add: cstr_ok_def)
  have "takeWhile (\<lambda>b. b \<noteq> 0) (enc_cstr mx s) = bytes_of_str s"
    unfolding enc_cstr_def
    by (subst takeWhile_append2) (use l in \<open>auto simp: takeWhile_eq_Nil_iff\<close>)
  then show ?thesis
    using l by (simp add: read_cstr_Ok length_enc_cstr from_utf8_def)
qed

lemma field_type_roundtrip: "field_type_from_u8 (field_type_code t) = Ok t"
  by (cases t) (simp_all add: field_type_from_u8_def field_type_code_def)

lemma unat_of_nat_u8: "n < 256 \<Longrightarrow> unat (of_nat n :: u8) = n"
  by (simp add: unat_of_nat)

interpretation label_codec: fixed_codec 32 "enc_cstr 32" "cstr_ok 32" "\<lambda>buf off. read_cstr buf off 32"
  by unfold_locales (simp_all add: length_enc_cstr cstr_ok_def read_enc_cstr)

interpretation field_codec: fixed_codec 70 enc_field field_ok decode_field
proof
  fix f :: field_def and pre post :: bytes
  assume ok: "field_ok f"
  then have l: "length (enc_cstr 64 (fd_name f)) = 64"
    by (simp add: field_ok_def cstr_ok_def length_enc_cstr)
  then show "length (enc_field f) = 70" by (simp add: enc_field_def)
  have "read_cstr (pre @ enc_cstr 64 (fd_name f) @ (word_le 2 (fd_offset f) @ word_le 2 (fd_size f)
     @ [field_type_code (fd_ty f), fd_count f] @ post)) (length pre) 64 = Ok (fd_name f)"
    using ok by (intro read_enc_cstr) (simp add: field_ok_def)
  then show "decode_field (pre @ enc_field f @ post) (length pre) = Ok f"
    by (simp add: decode_field_def enc_field_def read_Ok l field_type_roundtrip)
qed

lemma bit_codec_at:
  assumes "bitfield_ok b" and "i < length (bf_bits b)"
  shows "decode_bit (pre @ enc_bitfield b @ post) (length pre + 5) (length pre + 1029) (length pre + 1061) i
    = Ok (bf_bits b ! i)"
proof -
  let ?n = "length (bf_bits b)" and ?names = "map bd_name (bf_bits b)"
  define buf where "buf = pre @ enc_bitfield b @ post"
  have ok: "list_all (cstr_ok 32) ?names" and n: "?n \<le> 32"
    using assms by (auto simp: bitfield_ok_def list_all_iff)
  have cn: "length (concat (map (enc_cstr 32) ?names)) = ?n * 32"
    using label_codec.table_width[OF ok] by simp
  then have cn': "length (concat (map (enc_cstr 32 \<circ> bd_name) (bf_bits b))) = ?n * 32" by simp
  obtain h where h: "length h = length pre + 5" and b1: "buf = h @ concat (map (enc_cstr 32) ?names)
      @ (replicate ((32 - ?n) * 32) 0 @ map bd_start (bf_bits b) @ replicate (32 - ?n) 0
         @ map bd_width (bf_bits b) @ replicate (32 - ?n) 0 @ post)"
    by (rule that[of "pre @ word_le 2 (bf_schema_id b) @ word_le 2 (bf_field_index b) @ [of_nat ?n]"])
      (simp_all add: buf_def enc_bitfield_def Let_def)
  have nm: "read_cstr buf (length pre + 5 + i * 32) 32 = Ok (bd_name (bf_bits b ! i))"
    using omap_Ok_nth[OF label_codec.loop_roundtrip[OF ok, of h "drop (length h + ?n * 32) buf"], of i]
      assms(2) cn' by (simp add: b1 h)
  have len: "length buf = length pre + 1093 + length post"
    using n by (simp add: b1 h cn')
  have st: "index_at buf (length pre + 1029 + i) = (Ok (bd_start (bf_bits b ! i)) :: u8 wres)"
  proof -
    have "drop (length pre + 1029) buf = map bd_start (bf_bits b) @ replicate (32 - ?n) 0
         @ map bd_width (bf_bits b) @ replicate (32 - ?n) 0 @ post"
      using n by (simp add: b1 h cn')
    then have "buf ! (length pre + 1029 + i) = (map bd_start (bf_bits b) @ replicate (32 - ?n) 0
         @ map bd_width (bf_bits b) @ replicate (32 - ?n) 0 @ post) ! i"
      by (simp add: len flip: nth_drop)
    with assms(2) n len show ?thesis by (simp add: nth_append)
  qed
  have wd: "index_at buf (length pre + 1061 + i) = (Ok (bd_width (bf_bits b ! i)) :: u8 wres)"
  proof -
    have "drop (length pre + 1061) buf = map bd_width (bf_bits b) @ replicate (32 - ?n) 0 @ post"
      using n by (simp add: b1 h cn')
    then have "buf ! (length pre + 1061 + i) = (map bd_width (bf_bits b) @ replicate (32 - ?n) 0 @ post) ! i"
      by (simp add: len flip: nth_drop)
    with assms(2) n len show ?thesis by (simp add: nth_append)
  qed
  show ?thesis
    unfolding buf_def[symmetric] by (simp add: decode_bit_def nm st wd)
qed

interpretation enum_codec: fixed_codec 2053 enc_enum enum_ok decode_enum
proof
  fix e :: enum_def and pre post :: bytes
  assume ok: "enum_ok e"
  let ?n = "length (en_labels e)"
  have n: "?n \<le> 64" and lab: "list_all (cstr_ok 32) (en_labels e)"
    using ok by (simp_all add: enum_ok_def)
  have cn: "length (concat (map (enc_cstr 32) (en_labels e))) = ?n * 32"
    by (rule label_codec.table_width[OF lab])
  show "length (enc_enum e) = 2053" using n by (simp add: enc_enum_def cn)
  have u: "unat (of_nat ?n :: u8) = ?n" using n by (intro unat_of_nat_u8) simp
  let ?h = "pre @ word_le 2 (en_schema_id e) @ word_le 2 (en_field_index e) @ [of_nat ?n :: u8]"
  have "omap (\<lambda>i. read_cstr (?h @ concat (map (enc_cstr 32) (en_labels e))
      @ (replicate ((64 - ?n) * 32) 0 @ post)) (length ?h + i * 32) 32) [0..<?n] = Ok (en_labels e)"
    by (rule label_codec.loop_roundtrip[OF lab])
  then show "decode_enum (pre @ enc_enum e @ post) (length pre) = Ok e"
    using n by (simp add: decode_enum_def enc_enum_def read_Ok need_def u cn Let_def)
qed

interpretation bitfield_codec: fixed_codec 1093 enc_bitfield bitfield_ok decode_bitfield
proof
  fix b :: bitfield_def and pre post :: bytes
  assume ok: "bitfield_ok b"
  let ?n = "length (bf_bits b)" and ?names = "map bd_name (bf_bits b)"
  have n: "?n \<le> 32" and nms: "list_all (cstr_ok 32) ?names"
    using ok by (auto simp: bitfield_ok_def list_all_iff)
  have cn: "length (concat (map (enc_cstr 32 \<circ> bd_name) (bf_bits b))) = ?n * 32"
    using label_codec.table_width[OF nms] by (simp add: comp_def)
  show len: "length (enc_bitfield b) = 1093" using n by (simp add: enc_bitfield_def cn Let_def)
  have u: "unat (of_nat ?n :: u8) = ?n" using n by (intro unat_of_nat_u8) simp
  let ?buf = "pre @ enc_bitfield b @ post"
  have "omap (decode_bit ?buf (length pre + 5) (1029 + length pre) (1061 + length pre)) [0..<?n] = Ok (bf_bits b)"
    by (rule omap_OkI) (simp_all add: bit_codec_at[OF ok] add.commute[of _ "length pre"])
  moreover have "read_u16 ?buf (length pre) = Ok (bf_schema_id b)"
      "read_u16 ?buf (length pre + 2) = Ok (bf_field_index b)"
      "read_u8 ?buf (length pre + 4) = Ok (of_nat ?n)"
    by (simp_all add: read_Ok enc_bitfield_def Let_def)
  ultimately show "decode_bitfield ?buf (length pre) = Ok b"
    using n len by (simp add: decode_bitfield_def need_def u Let_def)
qed

interpretation entry_codec: fixed_codec 1318 enc_entry entry_ok decode_schema_entry
proof
  fix e :: schema_entry and pre post :: bytes
  assume ok: "entry_ok e"
  let ?n = "length (se_fields e)"
  have n: "?n \<le> 16" and fs: "list_all field_ok (se_fields e)"
    and nm: "cstr_ok 64 (se_name e)" and ds: "cstr_ok 128 (se_description e)"
    using ok by (simp_all add: entry_ok_def)
  have ln: "length (enc_cstr 64 (se_name e)) = 64" "length (enc_cstr 128 (se_description e)) = 128"
    using nm ds by (simp_all add: cstr_ok_def length_enc_cstr)
  have cn: "length (concat (map enc_field (se_fields e))) = ?n * 70"
    by (rule field_codec.table_width[OF fs])
  show "length (enc_entry e) = 1318" using n by (simp add: enc_entry_def ln cn)
  have u: "unat (of_nat ?n :: u16) = ?n" using n by (simp add: unat_of_nat)
  let ?h1 = "pre @ word_le 2 (se_id e) @ word_le 2 (se_payload_size e) @ word_le 2 (of_nat ?n :: u16)"
  let ?t = "concat (map enc_field (se_fields e)) @ replicate ((16 - ?n) * 70) 0 @ post"
  have r1: "read_cstr (?h1 @ enc_cstr 64 (se_name e) @ (enc_cstr 128 (se_description e) @ ?t))
      (length ?h1) 64 = Ok (se_name e)"
    by (rule read_enc_cstr[OF nm])
  have r2: "read_cstr ((?h1 @ enc_cstr 64 (se_name e)) @ enc_cstr 128 (se_description e) @ ?t)
      (length (?h1 @ enc_cstr 64 (se_name e))) 128 = Ok (se_description e)"
    by (rule read_enc_cstr[OF ds])
  let ?h = "?h1 @ enc_cstr 64 (se_name e) @ enc_cstr 128 (se_description e)"
  have r3: "omap (\<lambda>i. decode_field (?h @ concat (map enc_field (se_fields e))
      @ (replicate ((16 - ?n) * 70) 0 @ post)) (length ?h + i * 70)) [0..<?n] = Ok (se_fields e)"
    by (rule field_codec.loop_roundtrip[OF fs])
  from r1 r2 r3 show "decode_schema_entry (pre @ enc_entry e @ post) (length pre) = Ok e"
    using n by (simp add: decode_schema_entry_def enc_entry_def read_Ok u ln cn add.assoc)
qed

lemma schema_roundtrip_raw:
  assumes "schema_ok s"
  shows "schema_decode (enc_schema s) = Ok s"
proof -
  let ?ne = "length (sc_entries s)" and ?nn = "length (sc_enums s)" and ?nb = "length (sc_bitfields s)"
  have es: "list_all entry_ok (sc_entries s)" "?ne \<le> 512"
    and ns: "list_all enum_ok (sc_enums s)" "?nn < 2 ^ 16"
    and bs: "list_all bitfield_ok (sc_bitfields s)" "?nb < 2 ^ 16"
    using assms by (simp_all add: schema_ok_def)
  let ?h0 = "[0] @ word_le 2 (of_nat ?ne :: u16)"
  let ?h1 = "?h0 @ concat (map enc_entry (sc_entries s))"
  let ?h2 = "?h1 @ word_le 2 (of_nat ?nn :: u16) @ concat (map enc_enum (sc_enums s))"
  let ?t2 = "word_le 2 (of_nat ?nb :: u16) @ concat (map enc_bitfield (sc_bitfields s)) @ []"
  let ?t1 = "word_le 2 (of_nat ?nn :: u16) @ concat (map enc_enum (sc_enums s)) @ ?t2"
  have u: "unat (of_nat ?ne :: u16) = ?ne" using es by (simp add: unat_of_nat)
  have w: "length ?h1 = 3 + ?ne * 1318" "length ?h2 = 3 + ?ne * 1318 + 2 + ?nn * 2053"
    by (simp_all add: entry_codec.table_width[OF es(1)] enum_codec.table_width[OF ns(1)])
  have d1: "decode_seq decode_schema_entry 1318 ?ne (enc_schema s) 3 = Ok (sc_entries s, 3 + ?ne * 1318)"
    using entry_codec.seq_roundtrip[OF es(1), of ?h0 ?t1] by (simp add: enc_schema_def)
  have d2: "decode_section decode_enum 2053 (enc_schema s) (length ?h1) = Ok (sc_enums s, length ?h2)"
    using enum_codec.section_roundtrip[OF ns, of ?h1 ?t2] w by (simp add: enc_schema_def)
  have d3: "decode_section decode_bitfield 1093 (enc_schema s) (length ?h2)
      = Ok (sc_bitfields s, length ?h2 + 2 + ?nb * 1093)"
    using bitfield_codec.section_roundtrip[OF bs, of ?h2 "[]"] by (simp add: enc_schema_def)
  have r: "read_u8 (enc_schema s) 0 = Ok 0" "read_u16 (enc_schema s) (Suc 0) = Ok (of_nat ?ne)"
    by (simp_all add: enc_schema_def read_Ok)
  from d1 d2 d3 show ?thesis
    using es(2) unfolding w by (simp add: schema_decode_def r u)
qed

text \<open>
  C17. The decoder inverts the serialiser: for every schema that fits the fixed-size structs (names
  valid UTF-8 without NUL and within their arrays, counts within the limits), decoding the blob the C
  side writes gives back exactly that schema, all three sections included.
\<close>

theorem schema_roundtrip:
  assumes "schema_ok s"
  shows "schema_decode (enc_schema s) = Ok s"
  using assms by (rule schema_roundtrip_raw)

definition wire_schema_ex :: schema where
  "wire_schema_ex = \<lparr>
     sc_entries = [\<lparr>se_id = 5, se_name = ''imu'', se_description = ''motion'', se_payload_size = 3,
        se_fields = [\<lparr>fd_name = ''t'', fd_offset = 0, fd_size = 2, fd_ty = FT_I16, fd_count = 1\<rparr>,
                     \<lparr>fd_name = ''m'', fd_offset = 2, fd_size = 1, fd_ty = FT_Enum, fd_count = 1\<rparr>]\<rparr>],
     sc_enums = [\<lparr>en_schema_id = 5, en_field_index = 1, en_labels = [''off'', ''on'']\<rparr>],
     sc_bitfields = []\<rparr>"

lemma wire_schema_ex_ok: "schema_ok wire_schema_ex"
  by (simp add: wire_schema_ex_def schema_ok_def entry_ok_def field_ok_def enum_ok_def cstr_ok_def
      bytes_of_str_def) (intro conjI utf8_valid_ascii; auto)

theorem schema_roundtrip_witness: "schema_decode (enc_schema wire_schema_ex) = Ok wire_schema_ex"
  by (rule schema_roundtrip[OF wire_schema_ex_ok])

theorem schema_decode_bounds_witness:
  "\<exists>s. schema_decode (enc_schema wire_schema_ex) = Ok s \<and> length (sc_entries s) \<le> 512"
  using schema_decode_bounds[OF schema_roundtrip_raw[OF wire_schema_ex_ok]]
    schema_roundtrip_raw[OF wire_schema_ex_ok] by auto

end
