(* ===== verification/Store_Scalar.thy ===== *)
theory Store_Scalar
  imports Store
begin

text \<open>
  What the scalar, raw and text queries of \<open>mock.rs\<close> return.

  The reference for the down-sampling loop is \<open>groups\<close>, which cuts a list where a key changes, and
  \<open>bucket_of\<close>, the time of the first sample of a group with the minimum and the maximum of its
  values. The loop computes exactly that; the rest (envelope, budget, bounds) follows.
\<close>

section \<open>Windows\<close>

lemma time_window_no_panic [no_panic]:
  assumes "t0 \<le> t1"
  shows "time_window samples t0 t1 \<noteq> Panic"
proof -
  have "partition_point (\<lambda>s. fst s < t0) samples \<le> partition_point (\<lambda>s. fst s < t1) samples"
    using assms by (intro partition_point_mono) auto
  then show ?thesis
    using partition_point_le[of "\<lambda>s. fst s < t1" samples] by (simp add: time_window_def Let_def)
qed

lemma time_window_subset:
  "time_window samples t0 t1 = Ok w \<Longrightarrow> set w \<subseteq> set samples \<and> subseq w samples"
  by (auto simp: time_window_def Let_def dest!: slice_range_OkD in_set_takeD in_set_dropD
      intro: subseq_order.trans[OF prefix_imp_subseq[OF take_is_prefix] suffix_imp_subseq[OF suffix_drop]])

lemma time_window_sorted:
  assumes "sorted (map fst samples)" and "t0 \<le> t1"
  shows "time_window samples t0 t1 = Ok (filter (\<lambda>s. t0 \<le> fst s \<and> fst s < t1) samples)"
proof -
  let ?lo = "partition_point (\<lambda>s. fst s < t0) samples"
  let ?hi = "partition_point (\<lambda>s. fst s < t1) samples"
  have le: "?lo \<le> ?hi" using assms(2) by (intro partition_point_mono) auto
  have "take (?hi - ?lo) (drop ?lo samples) = drop ?lo (take ?hi samples)"
    by (simp add: drop_take)
  also have "take ?hi samples = filter (\<lambda>s. fst s < t1) samples"
    using take_partition_point(1)[where P = "\<lambda>t. t < t1", OF assms(1)] by auto
  also have "drop ?lo (filter (\<lambda>s. fst s < t1) samples) = filter (\<lambda>s. fst s < t1) (drop ?lo samples)"
  proof -
    have "take ?lo samples = filter (\<lambda>s. fst s < t0) samples"
      using take_partition_point(1)[where P = "\<lambda>t. t < t0", OF assms(1)] by auto
    then have "\<forall>x\<in>set (take ?lo samples). fst x < t1" using assms(2) by auto
    then have "filter (\<lambda>s. fst s < t1) (take ?lo samples) = take ?lo samples"
      by (simp add: filter_id_conv)
    then have "filter (\<lambda>s. fst s < t1) samples = take ?lo samples @ filter (\<lambda>s. fst s < t1) (drop ?lo samples)"
      by (metis append_take_drop_id filter_append)
    moreover have "length (take ?lo samples) = ?lo"
      using partition_point_le[of "\<lambda>s. fst s < t0" samples] by simp
    ultimately show ?thesis by (metis append_eq_conv_conj)
  qed
  finally have w: "take (?hi - ?lo) (drop ?lo samples) = filter (\<lambda>s. fst s < t1) (drop ?lo samples)" .
  have "drop ?lo samples = filter (\<lambda>s. \<not> fst s < t0) samples"
    using take_partition_point(2)[where P = "\<lambda>t. t < t0", OF assms(1)] by auto
  with w show ?thesis
    using le partition_point_le[of "\<lambda>s. fst s < t1" samples]
    by (simp add: time_window_def Let_def not_less conj_commute)
qed

section \<open>The down-sampling loop\<close>

function groups :: "('a \<Rightarrow> 'k) \<Rightarrow> 'a list \<Rightarrow> 'a list list" where
  "groups f [] = []"
| "groups f (x # xs) = (x # takeWhile (\<lambda>y. f y = f x) xs) # groups f (dropWhile (\<lambda>y. f y = f x) xs)"
  by pat_completeness auto
termination
  by (relation "measure (\<lambda>(f, xs). length xs)") (auto simp: less_Suc_eq_le length_dropWhile_le)

definition extend_bucket :: "bucket \<Rightarrow> (timestamp \<times> f64) list \<Rightarrow> bucket" where
  "extend_bucket b xs = b\<lparr>bk_min := fold (\<lambda>x m. f64_min m (snd x)) xs (bk_min b),
                          bk_max := fold (\<lambda>x m. f64_max m (snd x)) xs (bk_max b)\<rparr>"

definition bucket_of :: "(timestamp \<times> f64) list \<Rightarrow> bucket" where
  "bucket_of xs = extend_bucket \<lparr>bk_t = fst (hd xs), bk_min = snd (hd xs), bk_max = snd (hd xs)\<rparr> (tl xs)"

lemma concat_groups [simp]: "concat (groups f xs) = xs"
  by (induction f xs rule: groups.induct) simp_all

lemma groups_nonempty: "g \<in> set (groups f xs) \<Longrightarrow> g \<noteq> []"
  by (induction f xs rule: groups.induct) auto

lemma takeWhile_key: "y \<in> set (takeWhile (\<lambda>y. f y = c) xs) \<Longrightarrow> f y = c"
  by (drule set_takeWhileD) simp

lemma groups_key:
  "g \<in> set (groups f xs) \<Longrightarrow> x \<in> set g \<Longrightarrow> y \<in> set g \<Longrightarrow> f x = f y"
  by (induction f xs rule: groups.induct) (auto dest!: takeWhile_key)

lemma groups_cover: "x \<in> set xs \<Longrightarrow> \<exists>g\<in>set (groups f xs). x \<in> set g"
  by (metis UN_iff concat_groups set_concat)

lemma length_groups_sorted:
  fixes f :: "'a \<Rightarrow> 'k::linorder"
  assumes "sorted (map f xs)"
  shows "length (groups f xs) = card (f ` set xs)"
  using assms
proof (induction f xs rule: groups.induct)
  case (2 f x xs)
  let ?d = "dropWhile (\<lambda>y. f y = f x) xs"
  have s: "sorted (map f ?d)"
    using 2(2) sorted_dropWhile[of "map f xs" "\<lambda>z. z = f x"] by (simp add: dropWhile_map o_def)
  have gt: "f x < f y" if "y \<in> set ?d" for y
  proof -
    obtain z zs where d: "?d = z # zs" using \<open>y \<in> set ?d\<close> by (cases ?d) auto
    then have "f z \<noteq> f x" using hd_dropWhile[of "\<lambda>y. f y = f x" xs] by simp
    moreover have "z \<in> set xs" using d by (metis list.set_intros(1) set_dropWhileD)
    ultimately have "f x < f z" using 2(2) by force
    moreover have "f z \<le> f y" using s d that by auto
    ultimately show ?thesis by order
  qed
  have "f ` set (x # xs) = insert (f x) (f ` set ?d)"
  proof -
    have "set xs = set (takeWhile (\<lambda>y. f y = f x) xs) \<union> set ?d"
      by (metis set_append takeWhile_dropWhile_id)
    then show ?thesis by (auto dest: set_takeWhileD)
  qed
  moreover have "f x \<notin> f ` set ?d" using gt by force
  ultimately show ?case using 2(1)[OF s] by simp
qed simp

lemma extend_bucket_Nil [simp]: "extend_bucket b [] = b"
  by (simp add: extend_bucket_def)

lemma bucket_loop:
  assumes "\<And>x. x \<in> set xs \<Longrightarrow> \<not> chk \<or> t0 \<le> fst x" and "0 \<le> i"
    and nn: "\<And>d. 0 \<le> bucket_idx bw d"
  defines "key \<equiv> \<lambda>x. bucket_idx bw (fst x - t0)"
  shows "\<exists>out' i' cur'. ofold (bucket_step chk t0 bw) xs (out, i, cur) = Ok (out', i', cur') \<and> 0 \<le> i' \<and>
    out' @ [cur'] = out @ [extend_bucket cur (takeWhile (\<lambda>x. key x = i) xs)]
                        @ map bucket_of (groups key (dropWhile (\<lambda>x. key x = i) xs))"
  using assms(1,2)
proof (induction xs arbitrary: out i cur)
  case (Cons x xs)
  obtain t v where x: "x = (t, v)" by force
  have sub: "(sub_chk chk t t0 :: u64 run) = Ok (t - t0)"
    using Cons.prems(1)[of x] x by (auto simp: sub_chk_def)
  show ?case
  proof (cases "key x = i")
    case True
    let ?cur = "cur\<lparr>bk_min := f64_min (bk_min cur) v, bk_max := f64_max (bk_max cur) v\<rparr>"
    have "bucket_step chk t0 bw x (out, i, cur) = Ok (out, i, ?cur)"
      using True x sub by (simp add: bucket_step_def key_def)
    moreover have "extend_bucket ?cur ys = extend_bucket cur (x # ys)" for ys
      using x by (simp add: extend_bucket_def)
    ultimately show ?thesis
      using True Cons.IH[of i out ?cur] Cons.prems by auto
  next
    case False
    let ?cur = "\<lparr>bk_t = t, bk_min = v, bk_max = v\<rparr>"
    have "bucket_step chk t0 bw x (out, i, cur) = Ok (out @ [cur], key x, ?cur)"
      using False x sub Cons.prems(2) by (simp add: bucket_step_def key_def)
    moreover have "bucket_of (x # ys) = extend_bucket ?cur ys" for ys
      using x by (simp add: bucket_of_def)
    ultimately show ?thesis
      using False Cons.IH[of "key x" "out @ [cur]" ?cur] Cons.prems nn by (simp add: key_def)
  qed
qed auto

lemma downsample_loop:
  assumes "\<And>x. x \<in> set xs \<Longrightarrow> \<not> chk \<or> t0 \<le> fst x"
    and bw_def: "bw = f64_div (f64_of_int (uint (t1 - t0))) (f64_of_int (int k))"
    and nn: "\<And>d. 0 \<le> bucket_idx bw d"
  shows "downsample chk t0 t1 k xs = Ok (map bucket_of (groups (\<lambda>x. bucket_idx bw (fst x - t0)) xs))"
proof (cases xs)
  case Nil
  then show ?thesis by (simp add: downsample_def Let_def)
next
  case (Cons x ys)
  obtain t v where x: "x = (t, v)" by force
  let ?b0 = "\<lparr>bk_t = 0, bk_min = FInf False, bk_max = FInf True\<rparr>"
  let ?cur = "\<lparr>bk_t = t, bk_min = v, bk_max = v\<rparr>"
  let ?i = "bucket_idx bw (t - t0)"
  have "(sub_chk chk t t0 :: u64 run) = Ok (t - t0)"
    using assms(1)[of x] x Cons by (auto simp: sub_chk_def)
  then have "bucket_step chk t0 bw x ([], - 1, ?b0) = Ok ([], ?i, ?cur)"
    using x nn[of "t - t0"] by (simp add: bucket_step_def)
  moreover have "\<exists>out' i' cur'. ofold (bucket_step chk t0 bw) ys ([], ?i, ?cur) = Ok (out', i', cur') \<and> 0 \<le> i' \<and>
    out' @ [cur'] = [] @ [extend_bucket ?cur (takeWhile (\<lambda>x. bucket_idx bw (fst x - t0) = ?i) ys)]
       @ map bucket_of (groups (\<lambda>x. bucket_idx bw (fst x - t0))
           (dropWhile (\<lambda>x. bucket_idx bw (fst x - t0) = ?i) ys))"
    using assms(1) Cons nn by (intro bucket_loop) auto
  ultimately show ?thesis
    unfolding downsample_def Let_def bw_def[symmetric] Cons
    using x by (auto simp: bucket_of_def)
qed

section \<open>Bucket indices\<close>

definition bucket_width :: "nat \<Rightarrow> nat \<Rightarrow> rat" where
  "bucket_width n k = rnd (u64_real n / u64_real k)"

lemma bucket_width_bounds:
  assumes "0 < n" "n \<le> 2 ^ 64" "0 < k" "k \<le> 2 ^ 64"
  shows "2 powi (- 64) \<le> bucket_width n k" and "u64_real n / u64_real k \<le> 2 powi 64"
proof -
  have n: "1 \<le> u64_real n" "u64_real n \<le> 2 powi 64" and k: "1 \<le> u64_real k" "u64_real k \<le> 2 powi 64"
    using u64_real_ge_1 u64_real_le assms by blast+
  have "2 powi (- 64) \<le> 1 / u64_real k"
    using k by (simp add: power_int_minus field_simps)
  also have "\<dots> \<le> u64_real n / u64_real k" using n k by (simp add: divide_right_mono)
  finally show "2 powi (- 64) \<le> bucket_width n k"
    unfolding bucket_width_def by (intro rnd_ge_powi) simp_all
  have "u64_real n / u64_real k \<le> u64_real n / 1" using n k by (intro divide_left_mono) auto
  with n show "u64_real n / u64_real k \<le> 2 powi 64" by simp
qed

lemma f64_bucket_width:
  assumes "0 < n" "n \<le> 2 ^ 64" "0 < k" "k \<le> 2 ^ 64"
  shows "f64_div (f64_of_int (int n)) (f64_of_int (int k)) = Fin (bucket_width n k)"
proof -
  have "1 \<le> u64_real k" using assms by (intro u64_real_ge_1)
  moreover have "u64_real n / u64_real k \<le> 2 powi 1000"
    using bucket_width_bounds(2)[OF assms] powi2_mono[of 64 1000] by simp
  ultimately show ?thesis
    using assms by (simp add: f64_of_nat_eq bucket_width_def f64_round_rnd)
qed

lemma bucket_idx_eq:
  assumes "2 powi (- 64) \<le> b"
  shows "bucket_idx (Fin b) d = min (2 ^ 63 - 1) \<lfloor>rnd (u64_real (unat d) / b)\<rfloor>"
proof -
  have b: "0 < b" using assms powi2_pos[of "- 64"] by (meson order_less_le_trans)
  let ?q = "u64_real (unat d) / b"
  have "?q \<le> 2 powi 64 / 2 powi (- 64)"
    using assms b u64_real_le[OF unat_le_pow64, of d] by (intro frac_le) simp_all
  also have "\<dots> = 2 powi 128" by (simp add: power_int_minus)
  also have "\<dots> \<le> 2 powi 1000" by (rule powi2_mono) simp
  finally have "f64_round ?q = Fin (rnd ?q)" using b by (intro f64_round_rnd) simp_all
  moreover have "f64_of_int (uint d) = Fin (u64_real (unat d))"
    using f64_of_nat_eq[OF unat_le_pow64, of d] by simp
  moreover have "0 \<le> rnd ?q" using b by (intro rnd_nonneg) simp
  ultimately show ?thesis
    using b by (simp add: bucket_idx_def f64_to_i64_def f64_to_int_def trunc_rat_def)
qed

lemma bucket_idx_nonneg:
  assumes "2 powi (- 64) \<le> b"
  shows "0 \<le> bucket_idx (Fin b) d"
proof -
  have "0 < b" using assms powi2_pos[of "- 64"] by (meson order_less_le_trans)
  then show ?thesis using assms by (simp add: bucket_idx_eq rnd_nonneg)
qed

lemma bucket_idx_mono:
  assumes "2 powi (- 64) \<le> b" and "c \<le> d"
  shows "bucket_idx (Fin b) c \<le> bucket_idx (Fin b) d"
proof -
  have "0 < b" using assms powi2_pos[of "- 64"] by (meson order_less_le_trans)
  then have "rnd (u64_real (unat c) / b) \<le> rnd (u64_real (unat d) / b)"
    using assms(2) by (intro rnd_mono divide_right_mono u64_real_mono) (simp_all add: word_le_nat_alt)
  then have "\<lfloor>rnd (u64_real (unat c) / b)\<rfloor> \<le> \<lfloor>rnd (u64_real (unat d) / b)\<rfloor>" by (rule floor_mono)
  then show ?thesis using assms(1) by (simp add: bucket_idx_eq)
qed

text \<open>
  The rounding of the two divisions cannot push a sample of the window past the last bucket while
  the window is at most \<open>2 ^ 51\<close> nanoseconds (26 days) long: the relative error of the quotient is
  about \<open>2 ^ - 52\<close>, the gap between the last sample and the end of the window at least \<open>1 / n\<close>.
\<close>

lemma quotient_regroup: "(a::rat) / (n / k * c) * d = k * (a * d / (n * c))"
  by simp

lemma bucket_idx_less:
  assumes n: "0 < n" "n \<le> 2 ^ 51" and k: "0 < k" "k \<le> 2 ^ 53" and d: "unat d < n"
  shows "bucket_idx (Fin (bucket_width n k)) d < int k"
proof (cases "unat d = 0")
  case True
  have "n \<le> 2 ^ 64" "k \<le> 2 ^ 64" using n k by simp_all
  note b = bucket_width_bounds(1)[OF n(1) this(1) k(1) this(2)]
  show ?thesis using True k b by (simp add: bucket_idx_eq u64_real_def rnd_def)
next
  case False
  let ?e = "2 powi (- 53) :: rat" and ?b = "bucket_width n k"
  let ?N = "of_nat n :: rat" and ?K = "of_nat k :: rat" and ?D = "of_nat (unat d) :: rat"
  have "n \<le> 2 ^ 64" "k \<le> 2 ^ 64" using n k by simp_all
  note b64 = bucket_width_bounds(1)[OF n(1) this(1) k(1) this(2)]
  then have b0: "0 < ?b" using powi2_pos[of "- 64"] by (meson order_less_le_trans)
  have e: "?e = 1 / 2 ^ 53" by (simp add: power_int_minus field_simps)
  have real: "u64_real n = ?N" "u64_real k = ?K" "u64_real (unat d) = ?D"
    using n k d by (simp_all add: u64_real_exact)
  have N: "1 \<le> ?N" "?N \<le> 2 ^ 51"
    using n of_nat_le_iff[of 1 n, where 'a = rat] of_nat_le_iff[of n "2 ^ 51", where 'a = rat] by simp_all
  have K: "1 \<le> ?K" "?K \<le> 2 ^ 53"
    using k of_nat_le_iff[of 1 k, where 'a = rat] of_nat_le_iff[of k "2 ^ 53", where 'a = rat] by simp_all
  have D: "1 \<le> ?D" "?D \<le> ?N - 1"
    using False d of_nat_le_iff[of 1 "unat d", where 'a = rat]
      of_nat_le_iff[of "unat d + 1" n, where 'a = rat] by simp_all
  have "1 / 2 ^ 53 \<le> ?N / ?K" using N K by (intro frac_le) simp_all
  moreover have "2 powi (- 1022) \<le> ?e" by (rule powi2_mono) simp
  ultimately have "?N / ?K * (1 - ?e) \<le> ?b"
    using round_pos_rel_error(2)[of "?N / ?K"] N K e
    by (simp add: bucket_width_def real rnd_def)
  then have q: "?D / ?b \<le> (?N - 1) / (?N / ?K * (1 - ?e))"
    using N K D e by (intro frac_le) simp_all
  have "?b \<le> 2 powi 64"
    unfolding bucket_width_def
    by (rule rnd_le_powi) (use bucket_width_bounds(2)[OF n(1) _ k(1)] n k in auto)
  then have "1 / 2 powi 64 \<le> ?D / ?b" using D b0 by (intro frac_le) simp_all
  moreover have "(2::rat) powi (- 1022) \<le> 2 powi (- 64)" by (rule powi2_mono) simp
  moreover have "(2::rat) powi (- 64) = 1 / 2 powi 64" by (simp only: power_int_minus_divide)
  ultimately have "rnd (?D / ?b) \<le> ?D / ?b * (1 + ?e)"
    using round_pos_rel_error(1)[of "?D / ?b"] D b0 by (simp only: rnd_def) auto
  also have "\<dots> \<le> (?N - 1) / (?N / ?K * (1 - ?e)) * (1 + ?e)"
    using q e by (intro mult_right_mono) simp_all
  also have "\<dots> = ?K * ((?N - 1) * (1 + ?e) / (?N * (1 - ?e)))" by (rule quotient_regroup)
  also have "\<dots> < ?K * 1"
  proof (rule mult_strict_left_mono)
    have "?N * ?e \<le> 2 ^ 51 * ?e" using N e by (intro mult_right_mono) simp_all
    then have "?N * ?e \<le> 1 / 4" using e by simp
    moreover have "0 < ?e" by simp
    ultimately have "(?N - 1) * (1 + ?e) < ?N * (1 - ?e)" by (simp add: algebra_simps)
    then show "(?N - 1) * (1 + ?e) / (?N * (1 - ?e)) < 1" using N e by (simp add: divide_less_eq)
  qed (use K in simp)
  finally have "rnd (u64_real (unat d) / ?b) < of_int (int k)" by (simp add: real)
  then have "\<lfloor>rnd (u64_real (unat d) / ?b)\<rfloor> < int k" by (simp only: floor_less_iff)
  then show ?thesis using b64 by (simp add: bucket_idx_eq)
qed

section \<open>Envelope of a bucket\<close>

lemma fold_f64_min:
  "fold (\<lambda>x m. f64_min m (snd x)) xs m \<in> insert m (snd ` set xs)"
  "v \<in> insert m (snd ` set xs) \<Longrightarrow> v \<noteq> FNaN \<Longrightarrow> f64_le (fold (\<lambda>x m. f64_min m (snd x)) xs m) v"
proof (induction xs arbitrary: m v)
  case (Cons x xs)
  { case 1
    show ?case using Cons(1)[of "f64_min m (snd x)"] f64_min_choice[of m "snd x"] by auto
  next
    case 2
    have step: "f64_le (fold (\<lambda>x m. f64_min m (snd x)) xs (f64_min m (snd x))) (f64_min m (snd x))"
      if "f64_min m (snd x) \<noteq> FNaN"
      using Cons(2)[of "f64_min m (snd x)" "f64_min m (snd x)"] that by simp
    from 2 consider "v = m" | "v = snd x" | "v \<in> snd ` set xs" by auto
    then show ?case
      using step Cons(2)[of v "f64_min m (snd x)"] 2(2) f64_min_le[of "snd x" m] f64_min_le(2)[of m "snd x"]
      by cases (auto intro: f64_le_trans)
  }
qed auto

lemma fold_f64_max:
  "fold (\<lambda>x m. f64_max m (snd x)) xs m \<in> insert m (snd ` set xs)"
  "v \<in> insert m (snd ` set xs) \<Longrightarrow> v \<noteq> FNaN \<Longrightarrow> f64_le v (fold (\<lambda>x m. f64_max m (snd x)) xs m)"
proof (induction xs arbitrary: m v)
  case (Cons x xs)
  { case 1
    show ?case using Cons(1)[of "f64_max m (snd x)"] f64_max_choice[of m "snd x"] by auto
  next
    case 2
    have step: "f64_le (f64_max m (snd x)) (fold (\<lambda>x m. f64_max m (snd x)) xs (f64_max m (snd x)))"
      if "f64_max m (snd x) \<noteq> FNaN"
      using Cons(2)[of "f64_max m (snd x)" "f64_max m (snd x)"] that by simp
    from 2 consider "v = m" | "v = snd x" | "v \<in> snd ` set xs" by auto
    then show ?case
      using step Cons(2)[of v "f64_max m (snd x)"] 2(2) f64_max_ge[of "snd x" m] f64_max_ge(2)[of m "snd x"]
      by cases (auto intro: f64_le_trans)
  }
qed auto

lemma bk_t_bucket_of [simp]: "bk_t (bucket_of g) = fst (hd g)"
  by (simp add: bucket_of_def extend_bucket_def)

lemma bucket_of_attained:
  assumes "g \<noteq> []"
  shows "bk_min (bucket_of g) \<in> snd ` set g" and "bk_max (bucket_of g) \<in> snd ` set g"
  using assms fold_f64_min(1)[of "tl g" "snd (hd g)"] fold_f64_max(1)[of "tl g" "snd (hd g)"]
  by (cases g; auto simp: bucket_of_def extend_bucket_def)+

lemma bucket_of_covers:
  assumes "x \<in> set g" and "snd x \<noteq> FNaN"
  shows "f64_le (bk_min (bucket_of g)) (snd x)" and "f64_le (snd x) (bk_max (bucket_of g))"
  using assms fold_f64_min(2)[of "snd x" "snd (hd g)" "tl g"] fold_f64_max(2)[of "snd x" "snd (hd g)" "tl g"]
  by (cases g; auto simp: bucket_of_def extend_bucket_def)+

lemma bucket_of_single: "bucket_of [x] = \<lparr>bk_t = fst x, bk_min = snd x, bk_max = snd x\<rparr>"
  by (simp add: bucket_of_def)

section \<open>The scalar query\<close>

definition window :: "timestamp \<Rightarrow> timestamp \<Rightarrow> (timestamp \<times> 'a) list \<Rightarrow> (timestamp \<times> 'a) list" where
  "window t0 t1 samples = filter (\<lambda>s. t0 \<le> fst s \<and> fst s < t1) samples"

text \<open>The key of a sample, and the groups the query forms: one per sample within the budget.\<close>

definition bucket_key :: "timestamp \<Rightarrow> timestamp \<Rightarrow> nat \<Rightarrow> timestamp \<times> 'a \<Rightarrow> int" where
  "bucket_key t0 t1 k x = bucket_idx (Fin (bucket_width (unat (t1 - t0)) k)) (fst x - t0)"

definition query_groups :: "timestamp \<Rightarrow> timestamp \<Rightarrow> nat \<Rightarrow> (timestamp \<times> f64) list
    \<Rightarrow> (timestamp \<times> f64) list list" where
  "query_groups t0 t1 k w =
     (if length w \<le> k then map (\<lambda>x. [x]) w else groups (bucket_key t0 t1 k) w)"

lemma width_ok:
  fixes t0 t1 :: timestamp
  assumes "t0 < t1" "0 < k" "k < 2 ^ 64"
  shows "0 < unat (t1 - t0)" "unat (t1 - t0) \<le> 2 ^ 64" "k \<le> 2 ^ 64"
    "2 powi (- 64) \<le> bucket_width (unat (t1 - t0)) k"
proof -
  have "t1 - t0 \<noteq> 0" using assms(1) by auto
  then show n: "0 < unat (t1 - t0)" by (simp add: unat_gt_0)
  show "unat (t1 - t0) \<le> 2 ^ 64" by (rule unat_le_pow64)
  show "k \<le> 2 ^ 64" using assms by simp
  then show "2 powi (- 64) \<le> bucket_width (unat (t1 - t0)) k"
    using n assms unat_le_pow64 by (intro bucket_width_bounds) auto
qed

lemma downsample_groups:
  assumes "t0 < t1" "0 < k" "k < 2 ^ 64" and "\<And>x. x \<in> set w \<Longrightarrow> \<not> chk \<or> t0 \<le> fst x"
  shows "downsample chk t0 t1 k w = Ok (map bucket_of (groups (bucket_key t0 t1 k) w))"
proof -
  note wd = width_ok[OF assms(1-3)]
  have "f64_div (f64_of_int (uint (t1 - t0))) (f64_of_int (int k)) = Fin (bucket_width (unat (t1 - t0)) k)"
    using f64_bucket_width[OF wd(1,2) assms(2) wd(3)] by simp
  then show ?thesis
    using assms(4) bucket_idx_nonneg[OF wd(4)] unfolding bucket_key_def
    by (intro downsample_loop) auto
qed

lemma query_scalar_groups:
  assumes "t0 < t1" "0 < k" "k < 2 ^ 64" and "get_at (st_scalars g) (unat ch) = Some samples"
    and "sorted (map fst samples)"
  shows "query_scalar chk g ch t0 t1 k = Ok (map bucket_of (query_groups t0 t1 k (window t0 t1 samples)))"
proof -
  have w: "time_window samples t0 t1 = Ok (window t0 t1 samples)"
    using assms(1,5) by (simp add: time_window_sorted window_def)
  have "downsample chk t0 t1 k (window t0 t1 samples)
      = Ok (map bucket_of (groups (bucket_key t0 t1 k) (window t0 t1 samples)))"
    using assms(1-3) by (intro downsample_groups) (auto simp: window_def)
  then show ?thesis
    using assms w
    by (auto simp: query_scalar_def query_groups_def bucket_of_single comp_def case_prod_beta not_le)
qed

lemma query_groups_facts:
  shows "concat (query_groups t0 t1 k w) = w" and "\<forall>g\<in>set (query_groups t0 t1 k w). g \<noteq> []"
  using groups_nonempty by (auto simp: query_groups_def)

lemma query_groups_length:
  assumes "t0 < t1" "unat (t1 - t0) \<le> 2 ^ 51" "0 < k" "k \<le> 2 ^ 53"
    and "sorted (map fst samples)"
  shows "length (query_groups t0 t1 k (window t0 t1 samples)) \<le> k"
proof (cases "length (window t0 t1 samples) \<le> k")
  case False
  let ?w = "window t0 t1 samples"
  have k: "k < 2 ^ 64" using assms(4) by simp
  note wd = width_ok[OF assms(1,3) k]
  have srt: "sorted (map fst ?w)" using assms(5) by (simp add: window_def sorted_filter)
  have in_w: "t0 \<le> fst x \<and> fst x < t1" if "x \<in> set ?w" for x
    using that by (simp add: window_def)
  have "sorted (map (bucket_key t0 t1 k) ?w)"
  proof -
    have "sorted_wrt (\<lambda>x y. bucket_key t0 t1 k x \<le> bucket_key t0 t1 k y) ?w"
    proof (rule sorted_wrt_mono_rel)
      show "sorted_wrt (\<lambda>x y. fst x \<le> fst y) ?w" using srt by (simp add: sorted_map)
      fix x y assume "x \<in> set ?w" "y \<in> set ?w" "fst x \<le> fst y"
      then have "fst x - t0 \<le> fst y - t0"
        using in_w by (simp add: word_le_nat_alt unat_sub diff_le_mono)
      then show "bucket_key t0 t1 k x \<le> bucket_key t0 t1 k y"
        unfolding bucket_key_def by (rule bucket_idx_mono[OF wd(4)])
    qed
    then show ?thesis by (simp add: sorted_map)
  qed
  then have "length (groups (bucket_key t0 t1 k) ?w) = card (bucket_key t0 t1 k ` set ?w)"
    by (rule length_groups_sorted)
  also have "\<dots> \<le> card {0..<int k}"
  proof (rule card_mono)
    show "bucket_key t0 t1 k ` set ?w \<subseteq> {0..<int k}"
    proof clarify
      fix a b assume x: "(a, b) \<in> set ?w"
      then have "unat (a - t0) < unat (t1 - t0)"
        using in_w[OF x] by (auto simp: unat_sub word_le_nat_alt word_less_nat_alt intro: diff_less_mono)
      then show "bucket_key t0 t1 k (a, b) \<in> {0..<int k}"
        using bucket_idx_nonneg[OF wd(4)] bucket_idx_less[OF wd(1) assms(2-4)]
        by (simp add: bucket_key_def)
    qed
  qed simp
  finally show ?thesis using False by (simp add: query_groups_def)
qed (simp add: query_groups_def)

lemma sorted_hd_concat:
  assumes "sorted (map key (concat gs))" and "\<forall>g\<in>set gs. g \<noteq> []"
  shows "sorted (map (\<lambda>g. key (hd g)) gs)"
  using assms
proof (induction gs)
  case (Cons g gs)
  have "key (hd g) \<le> key (hd h)" if "h \<in> set gs" for h
  proof -
    have "hd g \<in> set g" "hd h \<in> set (concat gs)"
      using Cons.prems(2) that hd_in_set[of h] by (auto intro!: bexI[of _ h])
    then show ?thesis using Cons.prems(1) by (auto simp: sorted_append)
  qed
  moreover have "sorted (map (\<lambda>g. key (hd g)) gs)"
    using Cons by (auto simp: sorted_append)
  ultimately show ?case by simp
qed simp

text \<open>
  C1. A scalar query over a channel whose timestamps do not decrease returns an envelope of the
  window. It does not panic; the buckets are in time order; every sample of the window lies in a
  bucket that starts at or before it and, unless it is NaN, between that bucket's minimum and maximum;
  and each bucket's time, minimum and maximum are those of samples of the window.
\<close>

theorem query_scalar_envelope:
  assumes "t0 < t1" and "0 < k" and "k < 2 ^ 64"
    and "get_at (st_scalars g) (unat ch) = Some samples" and "sorted (map fst samples)"
  shows "\<exists>bs. query_scalar chk g ch t0 t1 k = Ok bs \<and> sorted (map bk_t bs) \<and>
    (\<forall>s\<in>set (window t0 t1 samples). \<exists>b\<in>set bs. bk_t b \<le> fst s \<and>
       (snd s = FNaN \<or> f64_le (bk_min b) (snd s) \<and> f64_le (snd s) (bk_max b))) \<and>
    (\<forall>b\<in>set bs. bk_t b \<in> fst ` set (window t0 t1 samples) \<and>
       bk_min b \<in> snd ` set (window t0 t1 samples) \<and> bk_max b \<in> snd ` set (window t0 t1 samples))"
proof -
  let ?w = "window t0 t1 samples"
  let ?gs = "query_groups t0 t1 k ?w"
  have ne: "\<forall>g\<in>set ?gs. g \<noteq> []" and cc: "concat ?gs = ?w" by (rule query_groups_facts)+
  have srt: "sorted (map fst ?w)" using assms(5) by (simp add: window_def sorted_filter)
  have mem: "x \<in> set ?w" if "g \<in> set ?gs" "x \<in> set g" for g x
    using that arg_cong[OF cc, of set] by auto
  have "sorted (map bk_t (map bucket_of ?gs))"
    using sorted_hd_concat[of fst ?gs] srt ne cc by (simp add: comp_def)
  moreover have "\<exists>b\<in>set (map bucket_of ?gs). bk_t b \<le> fst s \<and>
      (snd s = FNaN \<or> f64_le (bk_min b) (snd s) \<and> f64_le (snd s) (bk_max b))"
    if "s \<in> set ?w" for s
  proof -
    have "s \<in> set (concat ?gs)" using that by (simp only: cc)
    then obtain g where g: "g \<in> set ?gs" "s \<in> set g" by auto
    then obtain as bs where e: "?gs = as @ g # bs" by (meson split_list)
    have "concat ?gs = concat as @ g @ concat bs" unfolding e by simp
    then have "sorted (map fst (concat as @ g @ concat bs))" using srt unfolding cc by (rule subst)
    then have "sorted (map fst g)" by (simp add: sorted_append)
    then have "fst (hd g) \<le> fst s" using g(2) by (cases g) auto
    then show ?thesis using g bucket_of_covers[OF g(2)] by (auto intro!: bexI[of _ g])
  qed
  moreover have "bk_t b \<in> fst ` set ?w \<and> bk_min b \<in> snd ` set ?w \<and> bk_max b \<in> snd ` set ?w"
    if "b \<in> set (map bucket_of ?gs)" for b
  proof -
    obtain g where g: "g \<in> set ?gs" "b = bucket_of g" using \<open>b \<in> set (map bucket_of ?gs)\<close> by auto
    then have sub: "set g \<subseteq> set ?w" and "g \<noteq> []" using mem ne by auto
    then have "fst (hd g) \<in> fst ` set ?w" by (auto intro!: imageI)
    then show ?thesis using g(2) bucket_of_attained[OF \<open>g \<noteq> []\<close>] image_mono[OF sub, of snd] by auto
  qed
  ultimately show ?thesis using query_scalar_groups[OF assms] by blast
qed

definition store_ex :: store where
  "store_ex = push_scalar 0 20 (Fin 3) (push_scalar 0 10 FNaN (push_scalar 0 10 (Fin 7)
     (snd (add_scalar ''m.x'' store_new))))"

lemma store_ex_samples:
  "get_at (st_scalars store_ex) (unat (0 :: u32)) = Some [(10, Fin 7), (10, FNaN), (20, Fin 3)]"
  by (simp add: store_ex_def add_scalar_def add_scalar_with_def add_channel_def push_scalar_def
      store_new_def get_at_def Let_def)

theorem query_scalar_envelope_witness:
  "\<exists>bs. query_scalar True store_ex 0 5 30 2 = Ok bs \<and>
     (\<exists>b\<in>set bs. f64_le (bk_min b) (Fin 3) \<and> f64_le (Fin 3) (bk_max b))"
proof -
  have w: "(20, Fin 3) \<in> set (window 5 30 [(10, Fin 7), (10, FNaN), (20, Fin 3)])"
    by (simp add: window_def)
  show ?thesis
    using query_scalar_envelope[of 5 30 2 store_ex 0 "[(10, Fin 7), (10, FNaN), (20, Fin 3)]" True]
      store_ex_samples w by fastforce
qed

text \<open>
  C14. The scalar query keeps to its budget: over a window of at most \<open>2 ^ 51\<close> nanoseconds it returns
  at most \<open>max_buckets\<close> buckets, the rounding of the two floating-point divisions included.
\<close>

theorem query_scalar_budget:
  assumes "t0 < t1" and "unat (t1 - t0) \<le> 2 ^ 51" and "0 < k" and "k \<le> 2 ^ 53"
    and "get_at (st_scalars g) (unat ch) = Some samples" and "sorted (map fst samples)"
  shows "\<exists>bs. query_scalar chk g ch t0 t1 k = Ok bs \<and> length bs \<le> k"
  using query_scalar_groups[OF assms(1,3) _ assms(5,6)] query_groups_length[OF assms(1-4,6)] assms(4)
  by simp

theorem query_scalar_budget_witness:
  "\<exists>bs. query_scalar True store_ex 0 5 30 2 = Ok bs \<and> length bs \<le> 2"
  using query_scalar_budget[of 5 30 2 store_ex 0 _ True, OF _ _ _ _ store_ex_samples] by simp

end
