(* ===== verification/Store_State.thy ===== *)
theory Store_State
  imports Store
begin

text \<open>
  Run-length encoded state channels of \<open>mock.rs\<close>: what \<open>push_state\<close> builds out of a sequence of
  observations and what \<open>query_state\<close> and \<open>sample_at\<close> read back from it. The abstract view of a state
  channel is the list of its observations; the runs are a compressed form of it.
\<close>

section \<open>Runs built by push_state\<close>

definition runs_of :: "(timestamp \<times> u32) list \<Rightarrow> state_run list" where
  "runs_of obs = fold (\<lambda>(t, v). push_run t v) obs []"

text \<open>Each run ends where the next one starts, and adjacent runs differ in value.\<close>

fun runs_linked :: "state_run list \<Rightarrow> bool" where
  "runs_linked (r # s # rs) \<longleftrightarrow>
     sr_t_end r = sr_t_start s \<and> sr_value r \<noteq> sr_value s \<and> runs_linked (s # rs)"
| "runs_linked _ \<longleftrightarrow> True"

abbreviation run_starts :: "state_run list \<Rightarrow> (timestamp \<times> u32) list" where
  "run_starts runs \<equiv> map (\<lambda>r. (sr_t_start r, sr_value r)) runs"

lemma runs_of_snoc: "runs_of (obs @ [(t, v)]) = push_run t v (runs_of obs)"
  by (simp add: runs_of_def)

lemma push_run_nonempty [simp]: "push_run t v runs \<noteq> []"
  by (simp add: push_run_def Let_def)

lemma runs_of_Nil [simp]: "runs_of [] = []"
  by (simp add: runs_of_def)

lemma runs_of_Nil_iff [simp]: "runs_of obs = [] \<longleftrightarrow> obs = []"
proof (cases obs rule: rev_cases)
  case (snoc ys y)
  then show ?thesis by (cases y) (simp add: runs_of_snoc)
qed simp

lemma run_starts_push_run:
  "run_starts (push_run t v runs) =
     (if runs \<noteq> [] \<and> sr_value (last runs) = v then run_starts runs else run_starts runs @ [(t, v)])"
  by (cases runs rule: rev_cases) (auto simp: push_run_def Let_def)

lemma last_push_run:
  "sr_value (last (push_run t v runs)) = v" "sr_t_end (last (push_run t v runs)) = t"
  by (cases runs rule: rev_cases, auto simp: push_run_def Let_def)+

lemma runs_linked_nth:
  "runs_linked runs \<longleftrightarrow> (\<forall>i. Suc i < length runs \<longrightarrow>
     sr_t_end (runs ! i) = sr_t_start (runs ! Suc i) \<and> sr_value (runs ! i) \<noteq> sr_value (runs ! Suc i))"
  by (induction runs rule: runs_linked.induct) (auto simp: nth_Cons split: nat.splits)

lemma runs_linked_append:
  "runs_linked (xs @ [r]) \<longleftrightarrow> runs_linked xs \<and>
     (xs = [] \<or> sr_t_end (last xs) = sr_t_start r \<and> sr_value (last xs) \<noteq> sr_value r)"
  by (induction xs rule: runs_linked.induct) auto

lemma runs_linked_append2:
  "runs_linked (xs @ [r, s]) \<longleftrightarrow> runs_linked (xs @ [r]) \<and>
     sr_t_end r = sr_t_start s \<and> sr_value r \<noteq> sr_value s"
  using runs_linked_append[of "xs @ [r]" s] by simp

lemma push_run_linked: "runs_linked runs \<Longrightarrow> runs_linked (push_run t v runs)"
  by (cases runs rule: rev_cases) (auto simp: push_run_def Let_def runs_linked_append runs_linked_append2)

lemma runs_of_linked: "runs_linked (runs_of obs)"
  by (induction obs rule: rev_induct) (auto simp: runs_of_snoc push_run_linked)

lemma runs_of_last: "obs \<noteq> [] \<Longrightarrow> sr_value (last (runs_of obs)) = snd (last obs)"
  by (cases obs rule: rev_cases) (auto simp: runs_of_snoc last_push_run)

lemma runs_of_starts_subset: "set (run_starts (runs_of obs)) \<subseteq> set obs"
proof (induction obs rule: rev_induct)
  case (snoc ob obs)
  then show ?case by (cases ob) (auto simp: runs_of_snoc run_starts_push_run simp del: set_map split: if_splits)
qed (simp add: runs_of_def)

lemma runs_of_sorted:
  assumes "sorted (map fst obs)"
  shows "sorted (map sr_t_start (runs_of obs))"
proof -
  have "sorted (map fst (run_starts (runs_of obs)))"
    using assms
  proof (induction obs rule: rev_induct)
    case (snoc ob obs)
    obtain t v where ob: "ob = (t, v)" by force
    have "x \<le> t" if "x \<in> fst ` set (run_starts (runs_of obs))" for x
      using that snoc.prems runs_of_starts_subset[of obs] ob by (auto simp: sorted_append)
    with snoc ob show ?case by (auto simp: runs_of_snoc run_starts_push_run sorted_append simp del: map_map)
  qed (simp add: runs_of_def)
  then show ?thesis by (simp add: comp_def)
qed

text \<open>The value in force at a time: the last observation at or before it.\<close>

definition held_value :: "(timestamp \<times> u32) list \<Rightarrow> timestamp \<Rightarrow> u32 option" where
  "held_value obs t = (let past = filter (\<lambda>(u, _). u \<le> t) obs in
     if past = [] then None else Some (snd (last past)))"

lemma held_value_all:
  "obs \<noteq> [] \<Longrightarrow> \<forall>ob\<in>set obs. fst ob \<le> t \<Longrightarrow> held_value obs t = Some (snd (last obs))"
proof -
  assume "obs \<noteq> []" and a: "\<forall>ob\<in>set obs. fst ob \<le> t"
  from a have "filter (\<lambda>(u, _). u \<le> t) obs = obs" by (simp add: filter_id_conv case_prod_beta)
  with \<open>obs \<noteq> []\<close> show ?thesis by (simp add: held_value_def)
qed

lemma held_value_runs:
  assumes "sorted (map fst obs)"
  shows "held_value (run_starts (runs_of obs)) t = held_value obs t"
  using assms
proof (induction obs rule: rev_induct)
  case (snoc ob obs)
  obtain u v where ob: "ob = (u, v)" by force
  have IH: "held_value (run_starts (runs_of obs)) t = held_value obs t"
    using snoc by (simp add: sorted_append)
  show ?case
  proof (cases "u \<le> t")
    case True
    then have all: "\<forall>x\<in>set (obs @ [ob]). fst x \<le> t"
      using snoc.prems ob by (auto simp: sorted_append)
    then have "held_value (obs @ [ob]) t = Some (snd (last (obs @ [ob])))"
      by (intro held_value_all) auto
    moreover have "held_value (run_starts (runs_of (obs @ [ob]))) t
        = Some (snd (last (run_starts (runs_of (obs @ [ob])))))"
      using all runs_of_starts_subset[of "obs @ [ob]"] by (intro held_value_all) (auto simp del: set_map)
    ultimately show ?thesis
      using runs_of_last[of "obs @ [ob]"] by (simp add: last_map)
  next
    case False
    then have "held_value (obs @ [ob]) t = held_value obs t"
      and "held_value (run_starts (runs_of (obs @ [ob]))) t = held_value (run_starts (runs_of obs)) t"
      using ob by (auto simp: held_value_def runs_of_snoc run_starts_push_run)
    then show ?thesis using IH by simp
  qed
qed (simp add: runs_of_def)

section \<open>Reading a value at a time\<close>

lemma starts_partition:
  assumes "sorted (map sr_t_start runs)"
  shows "take (partition_point (\<lambda>r. sr_t_start r \<le> t) runs) runs = filter (\<lambda>r. sr_t_start r \<le> t) runs"
    "drop (partition_point (\<lambda>r. sr_t_start r \<le> t) runs) runs = filter (\<lambda>r. t < sr_t_start r) runs"
  using take_partition_point[where P = "\<lambda>x. x \<le> t", OF assms] by (auto simp: not_le)

lemma sample_state_at_held:
  assumes srt: "sorted (map sr_t_start runs)" and lnk: "runs_linked runs" and t: "t \<noteq> - 1"
  shows "sample_state_at runs t = Ok (map_option (\<lambda>v. f64_of_int (uint v)) (held_value (run_starts runs) t))"
proof (cases "runs = []")
  case False
  define idx where "idx = partition_point (\<lambda>r. sr_t_start r \<le> t) runs"
  note tk = starts_partition[OF srt, of t, folded idx_def]
  have le: "idx \<le> length runs" by (simp add: idx_def partition_point_le)
  have held: "held_value (run_starts runs) t =
      (if take idx runs = [] then None else Some (sr_value (last (take idx runs))))"
    by (simp add: held_value_def filter_map comp_def tk(1) last_map)
  show ?thesis
  proof (cases "idx = 0")
    case True
    with False held show ?thesis by (simp add: sample_state_at_def idx_def[symmetric])
  next
    case nz: False
    then have i: "idx - 1 < length runs" using le by simp
    have last: "last (take idx runs) = runs ! (idx - 1)"
      using nz le False by (simp add: last_conv_nth)
    have "t < effective_end runs (idx - 1)"
    proof (cases "idx = length runs")
      case True
      then show ?thesis using t word_n1_ge[of t] by (simp add: effective_end_def order_less_le)
    next
      case lt: False
      then have "runs ! idx \<in> set (drop idx runs)" using le by (metis Cons_nth_drop_Suc le_neq_implies_less list.set_intros(1))
      then have "t < sr_t_start (runs ! idx)" by (simp add: tk(2))
      moreover have "sr_t_end (runs ! (idx - 1)) = sr_t_start (runs ! idx)"
        using lnk lt le nz unfolding runs_linked_nth by (metis Suc_pred' bot_nat_0.not_eq_extremum le_neq_implies_less)
      moreover have "idx - 1 \<noteq> length runs - 1" using lt le nz by linarith
      ultimately show ?thesis by (simp add: effective_end_def)
    qed
    then show ?thesis
      using nz i held last False by (simp add: sample_state_at_def idx_def[symmetric])
  qed
qed (simp add: sample_state_at_def held_value_def)

section \<open>Range queries\<close>

text \<open>The runs as queries show them: the trailing run is held to the end of time.\<close>

definition hold_last :: "state_run list \<Rightarrow> state_run list" where
  "hold_last runs = (if runs = [] then [] else butlast runs @ [(last runs)\<lparr>sr_t_end := - 1\<rparr>])"

lemma length_hold_last [simp]: "length (hold_last runs) = length runs"
  by (simp add: hold_last_def)

lemma hold_last_nth:
  "i < length runs \<Longrightarrow> hold_last runs ! i = (runs ! i)\<lparr>sr_t_end := effective_end runs i\<rparr>"
  by (cases runs rule: rev_cases) (auto simp: hold_last_def effective_end_def nth_append less_Suc_eq)

lemma map_start_hold_last [simp]: "map sr_t_start (hold_last runs) = map sr_t_start runs"
  by (cases runs rule: rev_cases) (auto simp: hold_last_def)

lemma query_state_takeWhile:
  assumes "get_at (st_states g) (unat ch) = Some runs"
  shows "query_state g ch t0 t1 = takeWhile (\<lambda>r. sr_t_start r < t1)
    (drop (partition_point (\<lambda>r. sr_t_end r \<le> t0) (butlast runs)) (hold_last runs))"
proof (cases "runs = []")
  case False
  let ?start = "partition_point (\<lambda>r. sr_t_end r \<le> t0) (butlast runs)"
  let ?f = "\<lambda>(i, r). \<lparr>sr_t_start = sr_t_start r,
      sr_t_end = (if ?start + i = length runs - 1 then - 1 else sr_t_end r), sr_value = sr_value r\<rparr>"
  have st: "(if length runs - 1 = 0 then 0
      else partition_point (\<lambda>r. sr_t_end r \<le> t0) (take (length runs - 1) runs)) = ?start"
    by (auto simp: butlast_conv_take)
  have le: "?start \<le> length runs - 1" using partition_point_le[of _ "butlast runs"] by simp
  have m: "map ?f (enumerate 0 (drop ?start runs)) = drop ?start (hold_last runs)"
    using le by (auto intro!: nth_equalityI simp: nth_enumerate_eq hold_last_nth effective_end_def)
  have "query_state g ch t0 t1
      = map ?f (takeWhile (\<lambda>(i, r). sr_t_start r < t1) (enumerate 0 (drop ?start runs)))"
    unfolding query_state_def assms option.case Let_def st using False by (simp only: if_False)
  also have "(\<lambda>(i, r). sr_t_start r < t1) = (\<lambda>r. sr_t_start r < t1) \<circ> ?f" by (auto simp: fun_eq_iff)
  finally show ?thesis by (simp only: m takeWhile_map[symmetric])
qed (use assms in \<open>simp add: query_state_def hold_last_def\<close>)

lemma sorted_ends:
  assumes "sorted (map sr_t_start runs)" and "runs_linked runs"
  shows "sorted (map sr_t_end (butlast runs))"
proof -
  have "map sr_t_end (butlast runs) = tl (map sr_t_start runs)"
    using assms(2) by (auto intro!: nth_equalityI simp: nth_butlast nth_tl runs_linked_nth)
  then show ?thesis using assms(1) sorted_tl by metis
qed

lemma query_state_overlap:
  assumes "get_at (st_states g) (unat ch) = Some runs" and "t0 < t1"
    and srt: "sorted (map sr_t_start runs)" and lnk: "runs_linked runs"
  shows "query_state g ch t0 t1 = filter (\<lambda>r. t0 < sr_t_end r \<and> sr_t_start r < t1) (hold_last runs)"
proof -
  let ?start = "partition_point (\<lambda>r. sr_t_end r \<le> t0) (butlast runs)"
  have d: "drop ?start (hold_last runs) = filter (\<lambda>r. t0 < sr_t_end r) (hold_last runs)"
  proof (cases "runs = []")
    case False
    have "t0 < - 1" using assms(2) word_n1_ge[of t1] by order
    moreover have "drop ?start (butlast runs) = filter (\<lambda>r. t0 < sr_t_end r) (butlast runs)"
      using take_partition_point(2)[where P = "\<lambda>x. x \<le> t0", OF sorted_ends[OF srt lnk]]
      by (auto simp: not_le)
    moreover have "?start \<le> length (butlast runs)" by (rule partition_point_le)
    ultimately show ?thesis using False by (simp add: hold_last_def)
  qed (simp add: hold_last_def)
  have "sorted (map sr_t_start (filter (\<lambda>r. t0 < sr_t_end r) (hold_last runs)))"
    using srt by (intro sorted_filter) simp
  from sorted_filter_split(1)[where P = "\<lambda>x. x < t1", OF this]
  have "takeWhile (\<lambda>r. sr_t_start r < t1) (filter (\<lambda>r. t0 < sr_t_end r) (hold_last runs))
      = filter (\<lambda>r. sr_t_start r < t1) (filter (\<lambda>r. t0 < sr_t_end r) (hold_last runs))"
    by auto
  then show ?thesis by (simp add: query_state_takeWhile[OF assms(1)] d conj_commute)
qed

text \<open>A point sample and the runs agree: the sample at a time is the value of the run that contains it.\<close>

lemma sample_state_at_iff:
  assumes srt: "sorted (map sr_t_start runs)" and lnk: "runs_linked runs" and t: "t \<noteq> - 1"
  shows "sample_state_at runs t = Ok (Some x) \<longleftrightarrow>
    (\<exists>r\<in>set (hold_last runs). sr_t_start r \<le> t \<and> t < sr_t_end r \<and> x = f64_of_int (uint (sr_value r)))"
    (is "?L \<longleftrightarrow> ?R")
proof -
  define idx where "idx = partition_point (\<lambda>r. sr_t_start r \<le> t) runs"
  have idx: "sr_t_start (runs ! i) \<le> t \<longleftrightarrow> i < idx" if "i < length runs" for i
  proof -
    have "idx \<le> length runs" by (simp add: idx_def partition_point_le)
    then have "runs ! i \<in> set (take idx runs) \<and> i < idx \<or> runs ! i \<in> set (drop idx runs) \<and> idx \<le> i"
      using that by (cases "i < idx") (auto simp: in_set_conv_nth intro: exI[of _ i] exI[of _ "i - idx"])
    then show ?thesis using starts_partition[OF srt, of t, folded idx_def] by auto
  qed
  have uniq: "j = idx - 1"
    if j: "j < length runs" "sr_t_start (runs ! j) \<le> t" "t < effective_end runs j" for j
  proof (cases "Suc j < length runs")
    case True
    then have "effective_end runs j = sr_t_start (runs ! Suc j)"
      using lnk by (auto simp: effective_end_def runs_linked_nth)
    then have "\<not> Suc j < idx" "j < idx" using j idx[OF True] idx[OF j(1)] by (simp_all add: not_le[symmetric])
    then show ?thesis by simp
  next
    case False
    then show ?thesis
      using j idx[OF j(1)] partition_point_le[of "\<lambda>r. sr_t_start r \<le> t" runs] by (simp add: idx_def)
  qed
  show ?thesis
  proof
    assume ?L
    then have "runs \<noteq> []" "idx \<noteq> 0" by (auto simp: sample_state_at_def idx_def Let_def split: if_splits)
    moreover have "idx - 1 < length runs"
      using \<open>idx \<noteq> 0\<close> partition_point_le[of "\<lambda>r. sr_t_start r \<le> t" runs] by (simp add: idx_def)
    moreover from this have "hold_last runs ! (idx - 1) \<in> set (hold_last runs)" by (intro nth_mem) simp
    ultimately show ?R
      using \<open>?L\<close> idx[of "idx - 1"]
      by (intro bexI[of _ "hold_last runs ! (idx - 1)"])
        (auto simp: sample_state_at_def idx_def[symmetric] hold_last_nth Let_def split: if_splits)
  next
    assume ?R
    then obtain j where j: "j < length runs" "sr_t_start (runs ! j) \<le> t" "t < effective_end runs j"
      "x = f64_of_int (uint (sr_value (runs ! j)))"
      by (auto simp: in_set_conv_nth hold_last_nth)
    then have "j = idx - 1" "0 < idx" using uniq idx by auto
    then show ?L using j by (auto simp: sample_state_at_def idx_def[symmetric] Let_def)
  qed
qed

end
