(* ===== verification/Store_Log.thy ===== *)
theory Store_Log
  imports Store_Scalar Store_State
begin

text \<open>
  The contract of the store. The specification is a log: per channel, the list of samples pushed
  since it was registered. \<open>MockStore\<close> refines it (\<open>store_refines_log\<close>), representing the
  observations of a state channel by runs, and its queries are answered as the log would answer them.
  The \<open>Store\<close> trait is the locale \<open>store_trait\<close>: its provided method \<open>value_bounds\<close> is verified
  once there, from the laws of the required methods, and \<open>MockStore\<close> is an instance of it.
\<close>

section \<open>The log and the refinement\<close>

record log_store =
  lg_channels :: "channel_info list"
  lg_scalars :: "(timestamp \<times> f64) list list"
  lg_states :: "(timestamp \<times> u32) list list"
  lg_texts :: "(timestamp \<times> string) list list"
  lg_revision :: u64
  lg_word_to_bits :: "channel_id \<rightharpoonup> channel_id list"

definition log_new :: log_store where
  "log_new = \<lparr>lg_channels = [], lg_scalars = [], lg_states = [], lg_texts = [],
     lg_revision = 0, lg_word_to_bits = Map.empty\<rparr>"

definition log_add :: "string \<Rightarrow> channel_kind \<Rightarrow> bool \<Rightarrow> log_store \<Rightarrow> log_store" where
  "log_add path kind int_storage l =
     l\<lparr>lg_channels := lg_channels l @ [\<lparr>ci_id = of_nat (length (lg_channels l)), ci_path = path,
                                        ci_kind = kind, ci_integer_storage = int_storage\<rparr>],
       lg_scalars := lg_scalars l @ [[]], lg_states := lg_states l @ [[]],
       lg_texts := lg_texts l @ [[]], lg_revision := lg_revision l + 1\<rparr>"

definition append_at :: "channel_id \<Rightarrow> 'a \<Rightarrow> 'a list list \<Rightarrow> 'a list list" where
  "append_at ch x xss = (if unat ch < length xss then xss[unat ch := xss ! unat ch @ [x]] else xss)"

definition bump :: "channel_id \<Rightarrow> 'a list list \<Rightarrow> u64 \<Rightarrow> u64" where
  "bump ch xss n = (if unat ch < length xss then n + 1 else n)"

fun log_step :: "store_op \<Rightarrow> log_store \<Rightarrow> log_store" where
  "log_step (Add_scalar p) l = log_add p CK_Scalar False l"
| "log_step (Add_scalar_int p) l = log_add p CK_Scalar True l"
| "log_step (Add_state p ls) l = log_add p (CK_State ls) True l"
| "log_step (Add_text p) l = log_add p CK_Text False l"
| "log_step (Register_word_bits w bs) l = l\<lparr>lg_word_to_bits := (lg_word_to_bits l)(w \<mapsto> bs)\<rparr>"
| "log_step (Push_scalar c t v) l =
     l\<lparr>lg_scalars := append_at c (t, v) (lg_scalars l), lg_revision := bump c (lg_scalars l) (lg_revision l)\<rparr>"
| "log_step (Push_state c t v) l =
     l\<lparr>lg_states := append_at c (t, v) (lg_states l), lg_revision := bump c (lg_states l) (lg_revision l)\<rparr>"
| "log_step (Push_text c t v) l =
     l\<lparr>lg_texts := append_at c (t, v) (lg_texts l), lg_revision := bump c (lg_texts l) (lg_revision l)\<rparr>"
| "log_step Clear l = log_new\<lparr>lg_revision := lg_revision l + 1\<rparr>"

definition log_run :: "store_op list \<Rightarrow> log_store" where
  "log_run ops = fold log_step ops log_new"

text \<open>The representation of a log.\<close>

definition store_of_log :: "log_store \<Rightarrow> store" where
  "store_of_log l = \<lparr>st_channels = lg_channels l, st_scalars = lg_scalars l,
     st_states = map runs_of (lg_states l), st_texts = lg_texts l,
     st_revision = lg_revision l, st_word_to_bits = lg_word_to_bits l\<rparr>"

lemma store_step_log: "store_step op (store_of_log l) = store_of_log (log_step op l)"
  by (cases op)
    (simp_all add: store_of_log_def add_defs push_defs register_word_bits_def store_clear_def log_add_def
      append_at_def bump_def log_new_def map_update runs_of_snoc)

lemma store_refines_log_raw: "store_run ops = store_of_log (log_run ops)"
proof -
  have f: "fold store_step ops (store_of_log l) = store_of_log (fold log_step ops l)" for l
    by (induction ops arbitrary: l) (simp_all add: store_step_log)
  have "store_new = store_of_log log_new"
    by (simp add: store_new_def store_of_log_def log_new_def)
  then show ?thesis by (simp only: store_run_def log_run_def f[symmetric])
qed


section \<open>Calls in time order\<close>

definition appends_in_order :: "channel_id \<Rightarrow> timestamp \<Rightarrow> (timestamp \<times> 'a) list list \<Rightarrow> bool" where
  "appends_in_order ch t xss \<longleftrightarrow>
     (unat ch < length xss \<longrightarrow> xss ! unat ch \<noteq> [] \<longrightarrow> fst (last (xss ! unat ch)) \<le> t)"

text \<open>The documented precondition of a push: the timestamps of a channel do not decrease.\<close>

fun op_in_order :: "store_op \<Rightarrow> log_store \<Rightarrow> bool" where
  "op_in_order (Push_scalar c t v) l = appends_in_order c t (lg_scalars l)"
| "op_in_order (Push_state c t v) l = appends_in_order c t (lg_states l)"
| "op_in_order (Push_text c t v) l = appends_in_order c t (lg_texts l)"
| "op_in_order _ l = True"

fun ops_in_order :: "store_op list \<Rightarrow> log_store \<Rightarrow> bool" where
  "ops_in_order [] l = True"
| "ops_in_order (op # ops) l \<longleftrightarrow> op_in_order op l \<and> ops_in_order ops (log_step op l)"

definition series_sorted :: "(timestamp \<times> 'a) list list \<Rightarrow> bool" where
  "series_sorted xss \<longleftrightarrow> (\<forall>xs\<in>set xss. sorted (map fst xs))"

definition log_sorted :: "log_store \<Rightarrow> bool" where
  "log_sorted l \<longleftrightarrow> series_sorted (lg_scalars l) \<and> series_sorted (lg_states l) \<and> series_sorted (lg_texts l)"

lemma sorted_snoc: "sorted (map fst xs) \<Longrightarrow> xs \<noteq> [] \<longrightarrow> fst (last xs) \<le> t \<Longrightarrow> sorted (map fst (xs @ [(t, v)]))"
  by (cases xs rule: rev_cases) (auto simp: sorted_append intro: order_trans)

lemma series_sorted_append_at:
  assumes "series_sorted xss" and "appends_in_order ch t xss"
  shows "series_sorted (append_at ch (t, v) xss)"
proof (cases "unat ch < length xss")
  case True
  let ?xs = "xss ! unat ch"
  have "sorted (map fst (?xs @ [(t, v)]))"
    using assms True by (intro sorted_snoc) (auto simp: series_sorted_def appends_in_order_def)
  then show ?thesis
    using assms(1) True set_update_subset_insert[of xss "unat ch" "?xs @ [(t, v)]"]
    unfolding series_sorted_def append_at_def by auto
qed (use assms in \<open>simp add: append_at_def\<close>)

lemma log_step_sorted: "log_sorted l \<Longrightarrow> op_in_order op l \<Longrightarrow> log_sorted (log_step op l)"
  by (cases op)
    (simp_all add: log_sorted_def log_add_def log_new_def series_sorted_append_at, simp_all add: series_sorted_def)

lemma ops_in_order_sorted: "ops_in_order ops l \<Longrightarrow> log_sorted l \<Longrightarrow> log_sorted (fold log_step ops l)"
  by (induction ops arbitrary: l) (auto intro: log_step_sorted)

lemma log_run_sorted: "ops_in_order ops log_new \<Longrightarrow> log_sorted (log_run ops)"
  unfolding log_run_def by (rule ops_in_order_sorted) (simp_all add: log_sorted_def log_new_def series_sorted_def)

lemma get_at_sorted: "series_sorted xss \<Longrightarrow> get_at xss i = Some xs \<Longrightarrow> sorted (map fst xs)"
  by (auto simp: series_sorted_def get_at_Some_iff)

section \<open>Values at a time\<close>

lemma binary_search_sorted:
  fixes s :: "(timestamp \<times> 'a) list" and t :: timestamp
  assumes "sorted (map fst s)" and "s \<noteq> []"
  defines "k \<equiv> length (filter (\<lambda>x. fst x \<le> t) s)"
  shows "binary_search_by (\<lambda>x. if fst x < t then Less else if fst x = t then Equal else Greater) s =
    (if k = 0 then Err 0 else if fst (s ! (k - 1)) = t then Ok (k - 1) else Err k)"
    and "k < length s \<Longrightarrow> t < fst (s ! k)" and "0 < k \<Longrightarrow> fst (s ! (k - 1)) \<le> t" and "k \<le> length s"
proof -
  let ?f = "\<lambda>x. if fst x < t then Less else if fst x = t then Equal else Greater"
  let ?b = "bs_loop ?f s 0 (length s)"
  show kl: "k \<le> length s" by (simp add: k_def)
  have split: "filter (\<lambda>x. fst x \<le> t) s = take k s"
    using sorted_filter_split(1)[where P = "\<lambda>x. x \<le> t", OF assms(1)] unfolding k_def
    by (metis (no_types, lifting) order.trans takeWhile_eq_take)
  have part: "?f (s ! i) \<noteq> Greater \<longleftrightarrow> i < k" if "i < length s" for i
  proof -
    have "fst (s ! i) \<le> t \<longleftrightarrow> i < k"
    proof
      assume "i < k"
      then have "s ! i \<in> set (take k s)" using that kl by (metis in_set_conv_nth length_take min.absorb2 nth_take)
      then show "fst (s ! i) \<le> t" by (simp add: split[symmetric])
    next
      assume le: "fst (s ! i) \<le> t"
      show "i < k"
      proof (rule ccontr)
        assume "\<not> i < k"
        then have "s ! i \<in> set (drop k s)"
          using that by (auto simp: in_set_conv_nth intro!: exI[of _ "i - k"])
        with le have "filter (\<lambda>x. fst x \<le> t) (drop k s) \<noteq> []"
          by (auto simp: filter_empty_conv)
        moreover have "length (filter (\<lambda>x. fst x \<le> t) (take k s)) = k"
          by (simp add: split[symmetric]) (simp add: k_def)
        ultimately show False
          using arg_cong[of _ _ length, OF filter_append[of "\<lambda>x. fst x \<le> t" "take k s" "drop k s"]]
          by (simp add: k_def)
      qed
    qed
    then show ?thesis by auto
  qed
  have "(?b = 0 \<or> ?b < k) \<and> k \<le> ?b + 1"
    using assms(2) kl part by (intro bs_loop_partitioned) auto
  then have b: "?b = k - 1" by auto
  have "k - 1 < length s" using kl assms(2) by (cases k) auto
  from part[OF this] show "binary_search_by ?f s =
      (if k = 0 then Err 0 else if fst (s ! (k - 1)) = t then Ok (k - 1) else Err k)"
    using assms(2) unfolding binary_search_by_def b Let_def by (auto split: if_splits)
  show "t < fst (s ! k)" if "k < length s"
    using part[OF that] by (auto split: if_splits)
  show "fst (s ! (k - 1)) \<le> t" if "0 < k"
    using part[OF \<open>k - 1 < length s\<close>] that by (auto split: if_splits)
qed

text \<open>Linear interpolation between two samples, in the arithmetic of the code.\<close>

definition interpolate :: "timestamp \<times> f64 \<Rightarrow> timestamp \<times> f64 \<Rightarrow> timestamp \<Rightarrow> f64" where
  "interpolate a b t =
     f64_add (snd a) (f64_mul (f64_div (f64_of_int (uint (t - fst a))) (f64_of_int (uint (fst b - fst a))))
                              (f64_sub (snd b) (snd a)))"

lemma sample_scalar_at_sorted:
  fixes t :: timestamp
  assumes "sorted (map fst s)"
  defines "k \<equiv> length (filter (\<lambda>x. fst x \<le> t) s)"
  shows "sample_scalar_at chk s t =
    (if k = 0 then Ok None
     else if fst (s ! (k - 1)) = t then Ok (Some (snd (s ! (k - 1))))
     else if k = length s then Ok None
     else Ok (Some (interpolate (s ! (k - 1)) (s ! k) t)))"
proof (cases "s = []")
  case False
  note bs = binary_search_sorted[OF assms(1) False, of t, folded k_def]
  consider "k = 0" | "0 < k" "fst (s ! (k - 1)) = t" | "0 < k" "fst (s ! (k - 1)) \<noteq> t" "k = length s"
    | "0 < k" "fst (s ! (k - 1)) \<noteq> t" "k < length s"
    using bs(4) by linarith
  then show ?thesis
  proof cases
    case 4
    then have "fst (s ! (k - 1)) < t" "t < fst (s ! k)" using bs(2,3) by auto
    then have "(sub_chk chk t (fst (s ! (k - 1))) :: u64 run) = Ok (t - fst (s ! (k - 1)))"
      "(sub_chk chk (fst (s ! k)) (fst (s ! (k - 1))) :: u64 run) = Ok (fst (s ! k) - fst (s ! (k - 1)))"
      by (auto intro!: sub_chk_Ok)
    with 4 show ?thesis
      using False bs(1) by (simp add: sample_scalar_at_def interpolate_def case_prod_beta Let_def)
  qed (use False bs(1,4) in \<open>auto simp: sample_scalar_at_def\<close>)
qed (simp add: sample_scalar_at_def k_def)

lemma log_channel:
  assumes "get_at (lg_channels (log_run ops)) i = Some info"
  shows "get_at (st_channels (store_run ops)) i = Some info"
    "get_at (st_scalars (store_run ops)) i = Some (lg_scalars (log_run ops) ! i)"
    "get_at (st_states (store_run ops)) i = Some (runs_of (lg_states (log_run ops) ! i))"
    "get_at (st_texts (store_run ops)) i = Some (lg_texts (log_run ops) ! i)"
    "i < length (lg_scalars (log_run ops))" "i < length (lg_states (log_run ops))"
    "i < length (lg_texts (log_run ops))"
  using assms store_run_wf[of ops]
  by (auto simp: store_refines_log_raw store_of_log_def get_at_def store_wf_def split: if_splits)

text \<open>
  C12. A state channel remembers: after pushes in time order, \<open>sample_at\<close> returns the value of the last
  observation at or before the given time, and \<open>None\<close> before the first one. (The largest timestamp is
  excluded: the code treats it as the open end of the trailing run.)
\<close>

theorem sample_at_state:
  assumes "ops_in_order ops log_new" and "get_at (lg_channels (log_run ops)) (unat ch) = Some info"
    and "ci_kind info = CK_State labels" and "t \<noteq> - 1"
  shows "sample_at chk (store_run ops) ch t =
    Ok (map_option (\<lambda>v. f64_of_int (uint v)) (held_value (lg_states (log_run ops) ! unat ch) t))"
proof -
  let ?obs = "lg_states (log_run ops) ! unat ch"
  note lc = log_channel[OF assms(2)]
  have srt: "sorted (map fst ?obs)"
    using log_run_sorted[OF assms(1)] lc(6) by (auto simp: log_sorted_def series_sorted_def)
  have "sample_at chk (store_run ops) ch t = sample_state_at (runs_of ?obs) t"
    by (simp add: sample_at_def lc(1) index_at_get[OF lc(3)] assms(3))
  also have "\<dots> = Ok (map_option (\<lambda>v. f64_of_int (uint v)) (held_value (run_starts (runs_of ?obs)) t))"
    by (rule sample_state_at_held[OF runs_of_sorted[OF srt] runs_of_linked assms(4)])
  finally show ?thesis by (simp only: held_value_runs[OF srt])
qed

definition state_ops_ex :: "store_op list" where
  "state_ops_ex = [Add_state ''m.mode'' [''idle'', ''run''], Push_state 0 10 0, Push_state 0 20 0, Push_state 0 30 1]"

lemma state_ops_ex_facts:
  "ops_in_order state_ops_ex log_new"
  "get_at (lg_channels (log_run state_ops_ex)) (unat (0 :: u32)) =
     Some \<lparr>ci_id = 0, ci_path = ''m.mode'', ci_kind = CK_State [''idle'', ''run''], ci_integer_storage = True\<rparr>"
  "lg_states (log_run state_ops_ex) ! unat (0 :: u32) = [(10, 0), (20, 0), (30, 1)]"
  by (simp_all add: state_ops_ex_def log_run_def log_new_def log_add_def append_at_def get_at_def
      appends_in_order_def)

theorem sample_at_state_witness:
  "sample_at True (store_run state_ops_ex) 0 35 = Ok (Some (f64_of_int 1))"
  using sample_at_state[OF state_ops_ex_facts(1,2), of _ 35 True]
  by (simp add: state_ops_ex_facts(3)[simplified] held_value_def)

text \<open>
  C13. The range query and the point query of a state channel agree: at every time of the window,
  \<open>sample_at\<close> returns a value exactly when a run returned by \<open>query_state\<close> contains the time, and
  then it is the value of that run.
\<close>

theorem query_state_matches_sample_at:
  assumes "ops_in_order ops log_new" and "get_at (lg_channels (log_run ops)) (unat ch) = Some info"
    and "ci_kind info = CK_State labels" and "t0 \<le> t" and "t < t1"
  shows "sample_at chk (store_run ops) ch t = Ok (Some x) \<longleftrightarrow>
    (\<exists>r\<in>set (query_state (store_run ops) ch t0 t1).
       sr_t_start r \<le> t \<and> t < sr_t_end r \<and> x = f64_of_int (uint (sr_value r)))"
proof -
  let ?obs = "lg_states (log_run ops) ! unat ch"
  note lc = log_channel[OF assms(2)]
  have srt: "sorted (map sr_t_start (runs_of ?obs))"
    using log_run_sorted[OF assms(1)] lc(6) by (auto simp: log_sorted_def series_sorted_def intro: runs_of_sorted)
  have t: "t \<noteq> - 1" using assms(5) word_n1_ge[of t1] by auto
  have "t0 < t1" using assms(4,5) by order
  note q = query_state_overlap[OF lc(3) this srt runs_of_linked]
  have "sample_at chk (store_run ops) ch t = sample_state_at (runs_of ?obs) t"
    by (simp add: sample_at_def lc(1) index_at_get[OF lc(3)] assms(3))
  then show ?thesis
    using sample_state_at_iff[OF srt runs_of_linked t, of x] assms(4,5) unfolding q by force
qed

theorem query_state_matches_sample_at_witness:
  "sample_at True (store_run state_ops_ex) 0 25 = Ok (Some (f64_of_int 0)) \<longleftrightarrow>
    (\<exists>r\<in>set (query_state (store_run state_ops_ex) 0 15 40).
       sr_t_start r \<le> 25 \<and> 25 < sr_t_end r \<and> f64_of_int 0 = f64_of_int (uint (sr_value r)))"
  by (rule query_state_matches_sample_at[OF state_ops_ex_facts(1,2)]) simp_all

text \<open>
  On a scalar channel filled in time order \<open>sample_at\<close> returns the value of the last sample with
  exactly that timestamp; between two samples it interpolates linearly between the nearest ones; and
  outside the sampled range it returns \<open>None\<close>. It never panics.
\<close>

theorem sample_at_scalar:
  assumes "ops_in_order ops log_new" and "get_at (lg_channels (log_run ops)) (unat ch) = Some info"
    and "ci_kind info = CK_Scalar"
  shows "sample_at chk (store_run ops) ch t =
    (let s = lg_scalars (log_run ops) ! unat ch; k = length (filter (\<lambda>x. fst x \<le> t) s) in
     if k = 0 then Ok None
     else if fst (s ! (k - 1)) = t then Ok (Some (snd (s ! (k - 1))))
     else if k = length s then Ok None
     else Ok (Some (interpolate (s ! (k - 1)) (s ! k) t)))"
proof -
  note lc = log_channel[OF assms(2)]
  have "sorted (map fst (lg_scalars (log_run ops) ! unat ch))"
    using log_run_sorted[OF assms(1)] lc(5) by (auto simp: log_sorted_def series_sorted_def)
  then show ?thesis
    by (simp add: sample_at_def lc(1) index_at_get[OF lc(2)] assms(3) sample_scalar_at_sorted Let_def)
qed

definition scalar_ops_ex :: "store_op list" where
  "scalar_ops_ex = [Add_scalar ''m.x'', Push_scalar 0 10 (Fin 4), Push_scalar 0 20 (Fin 8)]"

lemma scalar_ops_ex_facts:
  "ops_in_order scalar_ops_ex log_new"
  "get_at (lg_channels (log_run scalar_ops_ex)) (unat (0 :: u32)) =
     Some \<lparr>ci_id = 0, ci_path = ''m.x'', ci_kind = CK_Scalar, ci_integer_storage = False\<rparr>"
  "lg_scalars (log_run scalar_ops_ex) ! unat (0 :: u32) = [(10, Fin 4), (20, Fin 8)]"
  by (simp_all add: scalar_ops_ex_def log_run_def log_new_def log_add_def append_at_def get_at_def
      appends_in_order_def)

theorem sample_at_scalar_witness:
  "sample_at True (store_run scalar_ops_ex) 0 15 = Ok (Some (interpolate (10, Fin 4) (20, Fin 8) 15))"
  using sample_at_scalar[OF scalar_ops_ex_facts(1,2), of True 15]
  by (simp add: scalar_ops_ex_facts(3)[simplified])

section \<open>Raw and text queries\<close>

lemma query_series_sorted:
  assumes "t0 < t1" and "0 < m" and "get_at xss (unat ch) = Some samples" and "sorted (map fst samples)"
  shows "\<exists>out. query_series xss ch t0 t1 m = Ok out \<and> length out \<le> m \<and> subseq out (window t0 t1 samples) \<and>
    (length (window t0 t1 samples) \<le> m \<longrightarrow> out = window t0 t1 samples) \<and>
    (window t0 t1 samples \<noteq> [] \<longrightarrow> out \<noteq> [] \<and> hd out = hd (window t0 t1 samples))"
proof -
  let ?w = "window t0 t1 samples"
  have w: "(time_window samples t0 t1 :: _ run) = Ok ?w"
    using assms(1,4) by (simp add: time_window_sorted window_def)
  have n: "\<not> t1 \<le> t0" using assms(1) by simp
  show ?thesis
  proof (cases "length ?w \<le> m")
    case True
    then show ?thesis using n assms(2,3) w by (simp add: query_series_def)
  next
    case False
    let ?st = "max (div_ceil (length ?w) m) 1"
    have "length ?w \<le> m * ?st"
      using div_ceil_le(1)[OF assms(2), of "length ?w"] by (metis le_trans max.cobounded1 mult.commute mult_le_mono2)
    then have "length (step_by ?st ?w) \<le> m"
      using div_ceil_leI[of ?st] by (simp add: length_step_by)
    moreover have "query_series xss ch t0 t1 m = Ok (step_by ?st ?w)"
      using False n assms(2,3) w by (simp add: query_series_def Let_def)
    moreover have "step_by ?st ?w \<noteq> [] \<and> hd (step_by ?st ?w) = hd ?w"
      using False by (cases ?w) auto
    ultimately show ?thesis using False step_by_subseq[of ?st ?w] by auto
  qed
qed

text \<open>
  A raw query of a scalar channel filled in time order returns samples of the window in order, at
  most \<open>max_samples\<close> of them, the first one included, and the whole window when it fits.
\<close>

theorem query_raw_window:
  assumes "ops_in_order ops log_new" and "get_at (lg_channels (log_run ops)) (unat ch) = Some info"
    and "t0 < t1" and "0 < m"
  shows "\<exists>out. query_raw (store_run ops) ch t0 t1 m = Ok out \<and> length out \<le> m \<and>
    (let w = window t0 t1 (lg_scalars (log_run ops) ! unat ch) in
     subseq out w \<and> (length w \<le> m \<longrightarrow> out = w) \<and> (w \<noteq> [] \<longrightarrow> out \<noteq> [] \<and> hd out = hd w))"
proof -
  note lc = log_channel[OF assms(2)]
  have "sorted (map fst (lg_scalars (log_run ops) ! unat ch))"
    using log_run_sorted[OF assms(1)] lc(5) by (auto simp: log_sorted_def series_sorted_def)
  from query_series_sorted[OF assms(3,4) lc(2) this] show ?thesis
    by (simp add: query_raw_def Let_def)
qed

theorem query_raw_window_witness:
  "query_raw (store_run scalar_ops_ex) 0 5 30 2 = Ok [(10, Fin 4), (20, Fin 8)]"
  using query_raw_window[OF scalar_ops_ex_facts(1,2), of 5 30 2]
  by (auto simp: scalar_ops_ex_facts(3)[simplified] window_def Let_def)

section \<open>No query panics\<close>

lemma query_series_no_panic [no_panic]: "query_series xss ch t0 t1 m \<noteq> Panic"
  by (auto simp: query_series_def outcome_simps time_window_no_panic Let_def split: option.splits if_splits)

lemma downsample_no_panic: "downsample False t0 t1 k w \<noteq> Panic"
proof -
  have "ofold (bucket_step False t0 bw) xs s \<noteq> Panic" for bw xs s
    by (induction xs arbitrary: s) (auto simp: bucket_step_def outcome_simps Let_def split: if_splits)
  then show ?thesis by (auto simp: downsample_def Let_def outcome_simps)
qed

lemma query_scalar_no_panic: "query_scalar False g ch t0 t1 k \<noteq> Panic"
  by (auto simp: query_scalar_def outcome_simps time_window_no_panic downsample_no_panic
      split: option.splits if_splits)

lemma binary_search_by_bounds:
  "binary_search_by f s = Ok i \<Longrightarrow> i < length s" "binary_search_by f s = Err i \<Longrightarrow> i \<le> length s"
  "binary_search_by f s \<noteq> Panic"
proof -
  have "s \<noteq> [] \<Longrightarrow> bs_loop f s 0 (length s) < length s"
    using bs_loop_range[of "length s" 0 f s] by simp
  then show "binary_search_by f s = Ok i \<Longrightarrow> i < length s" "binary_search_by f s = Err i \<Longrightarrow> i \<le> length s"
    "binary_search_by f s \<noteq> Panic"
    by (auto simp: binary_search_by_def Let_def split: if_splits ordering.splits)
qed

lemma sample_scalar_at_no_panic: "sample_scalar_at False s t \<noteq> Panic"
  using binary_search_by_bounds[of "\<lambda>x. if fst x < t then Less else if fst x = t then Equal else Greater" s]
  by (auto simp: sample_scalar_at_def outcome_simps Let_def index_at_def
      split: outcome.splits if_splits prod.splits)

lemma sample_state_at_no_panic: "sample_state_at runs t \<noteq> Panic"
proof -
  have "idx - 1 < length runs" if "idx = partition_point (\<lambda>r. sr_t_start r \<le> t) runs" "idx \<noteq> 0" for idx
    using that partition_point_le[of "\<lambda>r. sr_t_start r \<le> t" runs] by simp
  then show ?thesis by (auto simp: sample_state_at_def Let_def outcome_simps)
qed

lemma sample_at_no_panic: "store_wf g \<Longrightarrow> sample_at False g ch t \<noteq> Panic"
  by (auto simp: sample_at_def index_at_wf sample_scalar_at_no_panic sample_state_at_no_panic
      split: option.splits channel_kind.splits)

lemma value_bounds_no_panic: "value_bounds False g ch \<noteq> Panic"
  by (auto simp: value_bounds_def default_value_bounds_def outcome_simps query_scalar_no_panic Let_def
      split: option.splits list.splits prod.splits if_splits)

text \<open>
  No query of the store panics in a release build, whatever was pushed and in whatever order,
  for any channel id, window and budget: the two binary searches of a window are taken on the same
  list and never cross, even when the list is not sorted.
\<close>

theorem queries_never_panic:
  "query_scalar False (store_run ops) ch t0 t1 k \<noteq> Panic \<and> query_raw (store_run ops) ch t0 t1 k \<noteq> Panic \<and>
   query_text (store_run ops) ch t0 t1 k \<noteq> Panic \<and> sample_at False (store_run ops) ch t0 \<noteq> Panic \<and>
   value_bounds False (store_run ops) ch \<noteq> Panic"
  by (simp add: query_scalar_no_panic query_raw_def query_text_def query_series_no_panic
      sample_at_no_panic[OF store_run_wf] value_bounds_no_panic)

section \<open>The trait and its provided method\<close>

text \<open>
  The required methods of the trait that \<open>value_bounds\<close> calls, on a state of type \<open>'g\<close>, and what an
  implementor promises on states that satisfy \<open>inv\<close>: the time bounds enclose the samples of every
  channel, and a one-bucket query over a short window is the envelope of the samples in it.
\<close>

locale store_trait =
  fixes inv :: "'g \<Rightarrow> bool"
    and samples :: "'g \<Rightarrow> channel_id \<Rightarrow> (timestamp \<times> f64) list"
    and tb :: "'g \<Rightarrow> (timestamp \<times> timestamp) option"
    and qs :: "'g \<Rightarrow> channel_id \<Rightarrow> timestamp \<Rightarrow> timestamp \<Rightarrow> usize \<Rightarrow> bucket list run"
    and qst :: "'g \<Rightarrow> channel_id \<Rightarrow> timestamp \<Rightarrow> timestamp \<Rightarrow> state_run list"
  assumes bounds_enclose: "inv g \<Longrightarrow> x \<in> set (samples g ch) \<Longrightarrow>
      \<exists>a b. tb g = Some (a, b) \<and> a \<le> fst x \<and> fst x \<le> b"
    and one_bucket: "inv g \<Longrightarrow> t0 < t1 \<Longrightarrow> unat (t1 - t0) \<le> 2 ^ 51 \<Longrightarrow> window t0 t1 (samples g ch) \<noteq> [] \<Longrightarrow>
      qs g ch t0 t1 1 = Ok [bucket_of (window t0 t1 (samples g ch))]"
begin

lemma value_bounds_envelope:
  assumes "inv g" and "samples g ch \<noteq> []" and "tb g = Some (a, b)" and "b \<noteq> - 1" and "unat (b - a) < 2 ^ 51"
  shows "default_value_bounds (tb g) (qs g) (qst g) ch =
    Ok (Some (bk_min (bucket_of (samples g ch)), bk_max (bucket_of (samples g ch))))"
proof -
  have enc: "a \<le> fst x \<and> fst x \<le> b" if "x \<in> set (samples g ch)" for x
    using bounds_enclose[OF assms(1) that] assms(3) by auto
  have b1: "unat (b + 1) = unat b + 1"
    using assms(4) unatSuc[of b] by (simp add: add_eq_0_iff add.commute)
  have ab: "a \<le> b" using enc[of "hd (samples g ch)"] assms(2) by force
  have lt: "a < b + 1" using ab b1 by (simp add: word_less_nat_alt word_le_nat_alt)
  have "unat (b + 1 - a) = unat (b - a) + 1"
    using ab b1 lt by (simp add: unat_sub word_le_nat_alt order_less_imp_le)
  then have span: "unat (b + 1 - a) \<le> 2 ^ 51" using assms(5) by simp
  have all: "window a (b + 1) (samples g ch) = samples g ch"
    using enc b1 by (auto simp: window_def filter_id_conv word_less_nat_alt word_le_nat_alt le_imp_less_Suc)
  have "qs g ch a (b + 1) 1 = Ok [bucket_of (samples g ch)]"
    using one_bucket[OF assms(1) lt span, of ch] assms(2) by (simp only: all) simp
  then show ?thesis using assms(3,4) by (simp add: default_value_bounds_def)
qed

end

definition scalar_samples :: "store \<Rightarrow> channel_id \<Rightarrow> (timestamp \<times> f64) list" where
  "scalar_samples g ch = (case get_at (st_scalars g) (unat ch) of None \<Rightarrow> [] | Some s \<Rightarrow> s)"

definition scalars_sorted :: "store \<Rightarrow> bool" where
  "scalars_sorted g \<longleftrightarrow> series_sorted (st_scalars g)"

lemma widen_keeps:
  assumes "acc = (Some a, Some b)" and "a \<le> x" and "y \<le> b"
  shows "\<exists>a b. widen lo hi xs acc = (Some a, Some b) \<and> a \<le> x \<and> y \<le> b"
  using assms by (auto simp: widen_def min_def max_def intro: order_trans)

lemma fold_widen_keeps:
  assumes "acc = (Some a, Some b)" and "a \<le> x" and "y \<le> b"
  shows "\<exists>a b. fold (widen lo hi) xss acc = (Some a, Some b) \<and> a \<le> x \<and> y \<le> b"
  using assms
proof (induction xss arbitrary: acc a b)
  case (Cons xs xss)
  from widen_keeps[OF Cons.prems, of lo hi xs] show ?case using Cons.IH by auto
qed auto

lemma fold_widen_covers:
  assumes "xs \<in> set xss" and "xs \<noteq> []" and "fst acc = None \<longleftrightarrow> snd acc = None"
  shows "\<exists>a b. fold (widen lo hi) xss acc = (Some a, Some b) \<and> a \<le> lo (hd xs) \<and> hi (last xs) \<le> b"
  using assms
proof (induction xss arbitrary: acc)
  case (Cons ys yss)
  have inv: "fst (widen lo hi ys acc) = None \<longleftrightarrow> snd (widen lo hi ys acc) = None"
    using Cons.prems(3) by (auto simp: widen_def case_prod_beta)
  show ?case
  proof (cases "xs = ys")
    case True
    then obtain a b where "widen lo hi ys acc = (Some a, Some b)" "a \<le> lo (hd xs)" "hi (last xs) \<le> b"
      using Cons.prems(2,3) by (auto simp: widen_def case_prod_beta split: option.splits)
    then show ?thesis using fold_widen_keeps by simp
  next
    case False
    then show ?thesis using Cons.IH[of "widen lo hi ys acc"] Cons.prems inv by simp
  qed
qed simp

lemma time_bounds_scalars:
  assumes "s \<in> set (st_scalars g)" and "s \<noteq> []"
  shows "\<exists>a b. time_bounds g = Some (a, b) \<and> a \<le> fst (hd s) \<and> fst (last s) \<le> b"
proof -
  obtain a b where "fold (widen fst fst) (st_scalars g) (None, None) = (Some a, Some b)"
      "a \<le> fst (hd s)" "fst (last s) \<le> b"
    using fold_widen_covers[OF assms, of "(None, None)" fst fst] by auto
  then obtain a b where "fold (widen sr_t_start sr_t_end) (st_states g)
        (fold (widen fst fst) (st_scalars g) (None, None)) = (Some a, Some b)"
      "a \<le> fst (hd s)" "fst (last s) \<le> b"
    using fold_widen_keeps by blast
  then obtain a b where "fold (widen fst fst) (st_texts g) (fold (widen sr_t_start sr_t_end) (st_states g)
        (fold (widen fst fst) (st_scalars g) (None, None))) = (Some a, Some b)"
      "a \<le> fst (hd s)" "fst (last s) \<le> b"
    using fold_widen_keeps by blast
  then show ?thesis by (simp add: time_bounds_def Let_def)
qed

lemma query_groups_one:
  assumes "t0 < t1" "unat (t1 - t0) \<le> 2 ^ 51" and "sorted (map fst s)" and "window t0 t1 s \<noteq> []"
  shows "query_groups t0 t1 1 (window t0 t1 s) = [window t0 t1 s]"
proof -
  have "length (query_groups t0 t1 1 (window t0 t1 s)) \<le> 1"
    using query_groups_length[OF assms(1,2) _ _ assms(3), of 1] by simp
  then show ?thesis
    using query_groups_facts(1)[of t0 t1 1 "window t0 t1 s"] assms(4)
    by (cases "query_groups t0 t1 1 (window t0 t1 s)") auto
qed

interpretation mock: store_trait scalars_sorted scalar_samples time_bounds "query_scalar chk" query_state
  for chk
proof (unfold_locales, goal_cases)
  case (1 g x ch)
  then obtain s where s: "get_at (st_scalars g) (unat ch) = Some s" "x \<in> set s"
    by (cases "get_at (st_scalars g) (unat ch)") (auto simp: scalar_samples_def)
  then have "sorted (map fst s)" "s \<in> set (st_scalars g)" "s \<noteq> []"
    using 1(1) by (auto simp: scalars_sorted_def get_at_sorted get_at_Some_iff)
  moreover from this s(2) have "fst (hd s) \<le> fst x" by (cases s) auto
  moreover from calculation s(2) have "fst x \<le> fst (last s)"
    by (cases s rule: rev_cases) (auto simp: sorted_append)
  ultimately show ?case using time_bounds_scalars[of s g] by (meson order_trans)
next
  case (2 g t0 t1 ch)
  then obtain s where s: "get_at (st_scalars g) (unat ch) = Some s" "scalar_samples g ch = s"
    by (cases "get_at (st_scalars g) (unat ch)") (auto simp: scalar_samples_def window_def)
  then have "sorted (map fst s)" using 2(1) by (auto simp: scalars_sorted_def get_at_sorted)
  then show ?case
    using query_scalar_groups[OF 2(2) _ _ s(1), of 1] query_groups_one[OF 2(2,3)] 2(4) s(2) by simp
qed

text \<open>
  C15. \<open>value_bounds\<close> is exact: on a store whose scalar channels are in time order and span less than
  \<open>2 ^ 51\<close> nanoseconds, the bounds of a non-empty channel are values of its samples, and every
  sample that is not NaN lies between them.
\<close>

theorem value_bounds_exact:
  assumes "ops_in_order ops log_new" and "unat ch < length (lg_scalars (log_run ops))"
    and "lg_scalars (log_run ops) ! unat ch \<noteq> []"
    and "time_bounds (store_run ops) = Some (a, b)" and "b \<noteq> - 1" and "unat (b - a) < 2 ^ 51"
  shows "\<exists>lo hi. value_bounds chk (store_run ops) ch = Ok (Some (lo, hi)) \<and>
    lo \<in> snd ` set (lg_scalars (log_run ops) ! unat ch) \<and> hi \<in> snd ` set (lg_scalars (log_run ops) ! unat ch) \<and>
    (\<forall>s\<in>set (lg_scalars (log_run ops) ! unat ch). snd s = FNaN \<or> f64_le lo (snd s) \<and> f64_le (snd s) hi)"
proof -
  let ?s = "lg_scalars (log_run ops) ! unat ch"
  have st: "st_scalars (store_run ops) = lg_scalars (log_run ops)"
    by (simp add: store_refines_log_raw store_of_log_def)
  have "scalar_samples (store_run ops) ch = ?s"
    using assms(2) by (simp add: scalar_samples_def st get_at_def)
  moreover have "scalars_sorted (store_run ops)"
    using log_run_sorted[OF assms(1)] by (simp add: scalars_sorted_def st log_sorted_def)
  ultimately have "value_bounds chk (store_run ops) ch = Ok (Some (bk_min (bucket_of ?s), bk_max (bucket_of ?s)))"
    using mock.value_bounds_envelope[of "store_run ops" ch a b] assms(3-6) by (simp add: value_bounds_def)
  then show ?thesis
    using bucket_of_attained[OF assms(3)] bucket_of_covers[of _ ?s] by auto
qed

theorem value_bounds_exact_witness:
  "\<exists>lo hi. value_bounds True (store_run scalar_ops_ex) 0 = Ok (Some (lo, hi)) \<and> f64_le lo (Fin 4) \<and> f64_le (Fin 8) hi"
proof -
  have "time_bounds (store_run scalar_ops_ex) = Some (10, 20)"
    by (simp add: scalar_ops_ex_def store_run_def store_new_def add_defs push_defs time_bounds_def widen_def)
  moreover have "length (lg_scalars (log_run scalar_ops_ex)) = 1"
    by (simp add: scalar_ops_ex_def log_run_def log_new_def log_add_def append_at_def)
  ultimately show ?thesis
    using value_bounds_exact[OF scalar_ops_ex_facts(1), of 0 10 20 True]
    by (fastforce simp: scalar_ops_ex_facts(3)[simplified])
qed

lemma u64_real_top: "u64_real (2 ^ 64 - 2) = 2 ^ 64" "u64_real (2 ^ 64 - 1) = 2 ^ 64"
proof -
  let ?x = "18446744073709551614 :: rat"
  have "ilog2 ?x = 63" by (rule ilog2_eqI) simp_all
  then have e: "f64_exp ?x = 11" by (simp add: f64_exp_def)
  have "\<lfloor>?x / 2048\<rfloor> = 9007199254740991" by (rule floor_unique) simp_all
  then have "round_half_even (?x / 2048) = 9007199254740992" by (simp add: round_half_even_def)
  then have "round_pos ?x = 2 ^ 64" by (simp add: round_pos_def e)
  then show a: "u64_real (2 ^ 64 - 2) = 2 ^ 64" by (simp add: u64_real_def)
  have "u64_real (2 ^ 64 - 2) \<le> u64_real (2 ^ 64 - 1)" "u64_real (2 ^ 64 - 1) \<le> u64_real (2 ^ 64)"
    by (rule u64_real_mono; simp)+
  then show "u64_real (2 ^ 64 - 1) = 2 ^ 64" using a u64_real_pow64 by simp
qed

text \<open>
  The budget is exceeded on longer windows: with samples at 0 and at \<open>2 ^ 64 - 2\<close>, a query over
  \<open>[0, 2 ^ 64 - 1)\<close> for one bucket returns two, although \<open>query_scalar\<close> is documented to return at
  most \<open>max_buckets\<close>: the last timestamp and the span round to the same floating-point number.
\<close>

theorem query_scalar_over_budget:
  "\<exists>bs. query_scalar False (store_run [Add_scalar ''x'', Push_scalar 0 0 (Fin 1), Push_scalar 0 (- 2) (Fin 5)])
     0 0 (- 1) 1 = Ok bs \<and> length bs = 2"
proof -
  let ?s = "[(0, Fin 1), (- 2, Fin 5)] :: (timestamp \<times> f64) list"
  let ?ops = "[Add_scalar ''x'', Push_scalar 0 0 (Fin 1), Push_scalar 0 (- 2) (Fin 5)]"
  have g: "get_at (st_scalars (store_run ?ops)) (unat (0 :: u32)) = Some ?s"
    by (simp add: store_run_def store_new_def add_defs push_defs get_at_def)
  have u: "unat (- 1 :: u64) = 2 ^ 64 - 1" "unat (- 2 :: u64) = 2 ^ 64 - 2" by (simp_all add: unsigned_minus_1_eq_mask mask_eq_exp_minus_1)
  have w: "window 0 (- 1) ?s = ?s" by (simp add: window_def word_less_nat_alt u)
  have "rnd (2 ^ 64) = 2 ^ 64" using round_pos_powi[of 64] by (simp add: rnd_def)
  then have b: "bucket_width (unat (- 1 - 0 :: u64)) 1 = 2 powi 64"
    using u64_real_top(2) u64_real_exact[of 1] by (simp add: bucket_width_def u)
  have key: "bucket_key 0 (- 1) 1 x = bucket_idx (Fin (2 powi 64)) (fst x)" for x :: "timestamp \<times> f64"
    unfolding bucket_key_def b by simp
  have "rnd 1 = 1" using round_pos_powi[of 0] by (simp add: rnd_def)
  then have "bucket_key 0 (- 1) 1 (- 2, Fin 5) = 1"
    unfolding key using u64_real_top(1) by (simp add: bucket_idx_eq u)
  moreover have "bucket_key 0 (- 1) 1 (0, Fin 1) = 0"
    unfolding key by (simp add: bucket_idx_eq u64_real_def rnd_def)
  ultimately have "length (groups (bucket_key 0 (- 1) 1) ?s) = 2" by simp
  then show ?thesis
    using query_scalar_groups[OF _ _ _ g, of 0 "- 1" 1] w by (simp add: query_groups_def word_less_nat_alt u)
qed

end
