(* ===== verification/Mapper.thy ===== *)
theory Mapper
  imports Schema Store_Log
begin

text \<open>
  The mapping of schema fields to store channels: \<open>viewer/crates/btelem-ingest/src/mapper.rs\<close>.
  \<open>build\<close> registers one channel per scalar, array element, state, bitfield word, bit or string of the
  schema; \<open>dispatch\<close> decodes the payload of one record and pushes a sample to each of them.
  \<open>chk\<close> says whether overflow checks are compiled in.
\<close>

section \<open>Types\<close>

datatype map_error = DuplicateSchema u16

datatype field_kind =
    FK_Scalar channel_id field_type u16 u16
  | FK_ScalarArray field_type u16 u16 "channel_id list"
  | FK_State channel_id u16
  | FK_Bitfield u16 u16 "channel_id option" "(bit_def \<times> channel_id) list"
  | FK_Text channel_id field_def
  | FK_Ignored

type_synonym channel_map = "u16 \<rightharpoonup> field_kind list"

section \<open>Building the map\<close>

definition is_integer_type :: "field_type \<Rightarrow> bool" where
  "is_integer_type ty \<longleftrightarrow> ty \<in> {FT_U8, FT_U16, FT_U32, FT_U64, FT_I8, FT_I16, FT_I32, FT_I64}"

definition is_numeric_type :: "field_type \<Rightarrow> bool" where
  "is_numeric_type ty \<longleftrightarrow> is_integer_type ty \<or> ty \<in> {FT_F32, FT_F64}"

text \<open>The closure \<open>add\<close> and the loops that register a channel per path.\<close>

definition add_numeric :: "field_type \<Rightarrow> string \<Rightarrow> store \<Rightarrow> channel_id \<times> store" where
  "add_numeric ty p g = (if is_integer_type ty then add_scalar_int p g else add_scalar p g)"

fun add_each :: "(string \<Rightarrow> store \<Rightarrow> channel_id \<times> store) \<Rightarrow> string list \<Rightarrow> store \<Rightarrow> channel_id list \<times> store" where
  "add_each add [] g = ([], g)"
| "add_each add (p # ps) g =
     (let (ch, g) = add p g; (chs, g) = add_each add ps g in (ch # chs, g))"

definition entry_name :: "schema \<Rightarrow> u16 \<Rightarrow> string" where
  "entry_name schema schema_id =
     (case schema_lookup schema schema_id of Some e \<Rightarrow> se_name e | None \<Rightarrow> ''?'')"

definition field_path :: "schema \<Rightarrow> u16 \<Rightarrow> field_def \<Rightarrow> string \<Rightarrow> string" where
  "field_path schema schema_id f sfx = entry_name schema schema_id @ ''.'' @ fd_name f @ sfx"

definition elem_size :: "field_def \<Rightarrow> u16" where
  "elem_size f = (if 0 < fd_count f then fd_size f div ucast (fd_count f) else fd_size f)"

definition build_numeric :: "u16 \<Rightarrow> field_def \<Rightarrow> schema \<Rightarrow> store \<Rightarrow> field_kind \<times> store" where
  "build_numeric schema_id f schema g =
     (if fd_count f = 1
      then let (ch, g) = add_numeric (fd_ty f) (field_path schema schema_id f []) g
           in (FK_Scalar ch (fd_ty f) (fd_offset f) (elem_size f), g)
      else let (channels, g) = add_each (add_numeric (fd_ty f))
                 (map (\<lambda>i. field_path schema schema_id f (''['' @ show_nat i @ '']'')) [0..<unat (fd_count f)]) g
           in (FK_ScalarArray (fd_ty f) (fd_offset f) (elem_size f) channels, g))"

definition build_bitfield :: "u16 \<Rightarrow> field_def \<Rightarrow> bitfield_def \<Rightarrow> schema \<Rightarrow> store \<Rightarrow> field_kind \<times> store" where
  "build_bitfield schema_id f bf schema g =
     (let (word, g) =
            (if fd_size f \<in> {1, 2, 4, 8}
             then let (ch, g) = add_scalar_int (field_path schema schema_id f []) g in (Some ch, g)
             else (None, g));
          (chs, g) = add_each add_scalar_int
            (map (\<lambda>b. field_path schema schema_id f (''.'' @ bd_name b)) (bf_bits bf)) g;
          bits = zip (bf_bits bf) chs;
          g = (case word of Some w \<Rightarrow> register_word_bits w (map snd bits) g | None \<Rightarrow> g)
      in (FK_Bitfield (fd_offset f) (fd_size f) word bits, g))"

definition build_field :: "u16 \<Rightarrow> u16 \<Rightarrow> field_def \<Rightarrow> schema \<Rightarrow> store \<Rightarrow> field_kind \<times> store" where
  "build_field schema_id field_index f schema g =
     (if is_numeric_type (fd_ty f) then build_numeric schema_id f schema g
      else if fd_count f \<noteq> 1 then (FK_Ignored, g)
      else case fd_ty f of
        FT_Bool \<Rightarrow>
          let (ch, g) = add_state (field_path schema schema_id f []) [''false'', ''true''] g
          in (FK_State ch (fd_offset f), g)
      | FT_Enum \<Rightarrow>
          let labels = (case enum_labels schema schema_id field_index of Some ls \<Rightarrow> ls | None \<Rightarrow> []);
              (ch, g) = add_state (field_path schema schema_id f []) labels g
          in (FK_State ch (fd_offset f), g)
      | FT_Bitfield \<Rightarrow>
          (case schema_bitfield schema schema_id field_index of
             None \<Rightarrow> (FK_Ignored, g)
           | Some bf \<Rightarrow> build_bitfield schema_id f bf schema g)
      | FT_String \<Rightarrow>
          let (ch, g) = add_text (field_path schema schema_id f []) g in (FK_Text ch f, g)
      | _ \<Rightarrow> (FK_Ignored, g))"

fun build_fields :: "u16 \<Rightarrow> nat \<Rightarrow> field_def list \<Rightarrow> schema \<Rightarrow> store \<Rightarrow> field_kind list \<times> store" where
  "build_fields schema_id fi [] schema g = ([], g)"
| "build_fields schema_id fi (f # fs) schema g =
     (let (k, g) = build_field schema_id (of_nat fi) f schema g;
          (ks, g) = build_fields schema_id (fi + 1) fs schema g
      in (k # ks, g))"

definition build_entry :: "schema_entry \<Rightarrow> schema \<Rightarrow> store \<Rightarrow> field_kind list \<times> store" where
  "build_entry entry schema g = build_fields (se_id entry) 0 (se_fields entry) schema g"

text \<open>
  The loop of \<open>ChannelMap::build\<close>. The channels registered before a duplicate id is met stay in the
  store, which is why the store is part of the result in both cases.
\<close>

fun build_loop :: "schema_entry list \<Rightarrow> schema \<Rightarrow> channel_map \<Rightarrow> store
    \<Rightarrow> (channel_map, map_error) outcome \<times> store" where
  "build_loop [] schema m g = (Ok m, g)"
| "build_loop (e # es) schema m g =
     (if m (se_id e) \<noteq> None then (Err (DuplicateSchema (se_id e)), g)
      else let (ks, g) = build_entry e schema g
           in build_loop es schema (m(se_id e \<mapsto> ks)) g)"

definition channel_map_build :: "schema \<Rightarrow> store \<Rightarrow> (channel_map, map_error) outcome \<times> store" where
  "channel_map_build schema g = build_loop (sc_entries schema) schema Map.empty g"

section \<open>Dispatching a record\<close>

definition read_scalar :: "field_type \<Rightarrow> bytes \<Rightarrow> u16 \<Rightarrow> u16 \<Rightarrow> f64 option run" where
  "read_scalar ty payload offset sz =
     (let off = unat offset; n = unat sz in
      if length payload < off + n then Ok None
      else obind (slice_range payload off (off + n)) (\<lambda>s.
        case ty of
          FT_U8 \<Rightarrow> obind (index_at s 0) (\<lambda>b. Ok (Some (f64_of_int (uint b))))
        | FT_U16 \<Rightarrow> exact 2 s (\<lambda>s. f64_of_int (uint (le_word s :: u16)))
        | FT_U32 \<Rightarrow> exact 4 s (\<lambda>s. f64_of_int (uint (le_word s :: u32)))
        | FT_U64 \<Rightarrow> exact 8 s (\<lambda>s. f64_of_int (uint (le_word s :: u64)))
        | FT_I8 \<Rightarrow> obind (index_at s 0) (\<lambda>b. Ok (Some (f64_of_int (sint b))))
        | FT_I16 \<Rightarrow> exact 2 s (\<lambda>s. f64_of_int (sint (le_word s :: u16)))
        | FT_I32 \<Rightarrow> exact 4 s (\<lambda>s. f64_of_int (sint (le_word s :: u32)))
        | FT_I64 \<Rightarrow> exact 8 s (\<lambda>s. f64_of_int (sint (le_word s :: u64)))
        | FT_F32 \<Rightarrow> exact 4 s (\<lambda>s. f64_of_f32_bits (le_word s))
        | FT_F64 \<Rightarrow> exact 8 s (\<lambda>s. f64_of_bits (le_word s))
        | _ \<Rightarrow> Ok None))"

text \<open>The word of a bitfield: \<open>raw |= (b as u64) << (i * 8)\<close>.\<close>

definition raw_step :: "bool \<Rightarrow> nat \<times> u8 \<Rightarrow> u64 \<Rightarrow> u64 run" where
  "raw_step chk = (\<lambda>(i, b) raw. obind (shl_chk chk (ucast b) (i * 8)) (\<lambda>x. Ok (raw OR x)))"

definition raw_word :: "bool \<Rightarrow> bytes \<Rightarrow> u64 run" where
  "raw_word chk bs = ofold (raw_step chk) (enumerate 0 bs) 0"

text \<open>\<open>((raw & mask) >> start)\<close> with \<open>mask = ((1 << width) - 1) << start\<close>.\<close>

definition bit_value :: "bool \<Rightarrow> u64 \<Rightarrow> bit_def \<Rightarrow> u64 run" where
  "bit_value chk raw bd =
     obind (shl_chk chk (1 :: u64) (unat (bd_width bd))) (\<lambda>a.
     obind (sub_chk chk a 1) (\<lambda>b.
     obind (shl_chk chk b (unat (bd_start bd))) (\<lambda>mask.
     shr_chk chk (raw AND mask) (unat (bd_start bd)))))"

definition push_if :: "channel_id \<Rightarrow> u64 \<Rightarrow> f64 option \<Rightarrow> store \<Rightarrow> store" where
  "push_if ch t v g = (case v of Some v \<Rightarrow> push_scalar ch t v g | None \<Rightarrow> g)"

definition push_element :: "bool \<Rightarrow> field_type \<Rightarrow> bytes \<Rightarrow> u16 \<Rightarrow> u16 \<Rightarrow> u64 \<Rightarrow> nat \<times> channel_id \<Rightarrow> store \<Rightarrow> store run" where
  "push_element chk ty payload base_offset esz t = (\<lambda>(i, ch) g.
     obind (mul_chk chk (of_nat i :: u16) esz) (\<lambda>m.
     obind (add_chk chk base_offset m) (\<lambda>off.
     obind (read_scalar ty payload off esz) (\<lambda>v. Ok (push_if ch t v g)))))"

definition push_bit_value :: "bool \<Rightarrow> u64 \<Rightarrow> u64 \<Rightarrow> bit_def \<times> channel_id \<Rightarrow> store \<Rightarrow> store run" where
  "push_bit_value chk raw t = (\<lambda>(bd, ch) g.
     obind (bit_value chk raw bd) (\<lambda>v. Ok (push_scalar ch t (f64_of_int (uint v)) g)))"

fun dispatch_field :: "bool \<Rightarrow> u64 \<Rightarrow> bytes \<Rightarrow> field_kind \<Rightarrow> store \<Rightarrow> store run" where
  "dispatch_field chk t payload (FK_Scalar ch ty offset sz) g =
     obind (read_scalar ty payload offset sz) (\<lambda>v. Ok (push_if ch t v g))"
| "dispatch_field chk t payload (FK_ScalarArray ty base_offset esz channels) g =
     ofold (push_element chk ty payload base_offset esz t) (enumerate 0 channels) g"
| "dispatch_field chk t payload (FK_State ch offset) g =
     (let off = unat offset in
      if off < length payload
      then obind (index_at payload off) (\<lambda>b. Ok (push_state ch t (ucast b) g))
      else Ok g)"
| "dispatch_field chk t payload (FK_Bitfield offset storage_bytes word bits) g =
     (let off = unat offset; n = unat storage_bytes in
      if off + n \<le> length payload
      then obind (slice_range payload off (off + n)) (\<lambda>s.
           obind (raw_word chk s) (\<lambda>raw.
           let g = (case word of Some ch \<Rightarrow> push_scalar ch t (f64_of_int (uint raw)) g | None \<Rightarrow> g)
           in ofold (push_bit_value chk raw t) bits g))
      else Ok g)"
| "dispatch_field chk t payload FK_Ignored g = Ok g"
| "dispatch_field chk t payload (FK_Text ch field_def) g =
     (case field_as_string field_def payload of Some v \<Rightarrow> Ok (push_text ch t v g) | None \<Rightarrow> Ok g)"

definition dispatch :: "bool \<Rightarrow> channel_map \<Rightarrow> u16 \<Rightarrow> u64 \<Rightarrow> bytes \<Rightarrow> store \<Rightarrow> store run" where
  "dispatch chk m schema_id t payload g =
     (case m schema_id of
        None \<Rightarrow> Ok g
      | Some fks \<Rightarrow> ofold (dispatch_field chk t payload) fks g)"

section \<open>A record as a sequence of pushes\<close>

text \<open>
  The specification of \<open>dispatch\<close>: the pushes it makes, as operations of the store. Everything the
  store guarantees for a sequence of operations then holds of ingested data.
\<close>

definition opt_push :: "channel_id \<Rightarrow> u64 \<Rightarrow> f64 option \<Rightarrow> store_op list" where
  "opt_push ch t v = (case v of Some v \<Rightarrow> [Push_scalar ch t v] | None \<Rightarrow> [])"

definition element_ops :: "bool \<Rightarrow> field_type \<Rightarrow> bytes \<Rightarrow> u16 \<Rightarrow> u16 \<Rightarrow> u64 \<Rightarrow> nat \<times> channel_id \<Rightarrow> store_op list run" where
  "element_ops chk ty payload base_offset esz t = (\<lambda>(i, ch).
     obind (mul_chk chk (of_nat i :: u16) esz) (\<lambda>m.
     obind (add_chk chk base_offset m) (\<lambda>off.
     obind (read_scalar ty payload off esz) (\<lambda>v. Ok (opt_push ch t v)))))"

definition bit_ops :: "bool \<Rightarrow> u64 \<Rightarrow> u64 \<Rightarrow> bit_def \<times> channel_id \<Rightarrow> store_op list run" where
  "bit_ops chk raw t = (\<lambda>(bd, ch). obind (bit_value chk raw bd) (\<lambda>v. Ok [Push_scalar ch t (f64_of_int (uint v))]))"

definition oconcat :: "('a list list, 'e) outcome \<Rightarrow> ('a list, 'e) outcome" where
  "oconcat m = obind m (\<lambda>l. Ok (concat l))"

fun field_ops :: "bool \<Rightarrow> u64 \<Rightarrow> bytes \<Rightarrow> field_kind \<Rightarrow> store_op list run" where
  "field_ops chk t payload (FK_Scalar ch ty offset sz) =
     obind (read_scalar ty payload offset sz) (\<lambda>v. Ok (opt_push ch t v))"
| "field_ops chk t payload (FK_ScalarArray ty base_offset esz channels) =
     oconcat (omap (element_ops chk ty payload base_offset esz t) (enumerate 0 channels))"
| "field_ops chk t payload (FK_State ch offset) =
     Ok (if unat offset < length payload then [Push_state ch t (ucast (payload ! unat offset))] else [])"
| "field_ops chk t payload (FK_Bitfield offset storage_bytes word bits) =
     (if unat offset + unat storage_bytes \<le> length payload
      then obind (raw_word chk (take (unat storage_bytes) (drop (unat offset) payload))) (\<lambda>raw.
           obind (oconcat (omap (bit_ops chk raw t) bits)) (\<lambda>ops.
           Ok ((case word of Some ch \<Rightarrow> [Push_scalar ch t (f64_of_int (uint raw))] | None \<Rightarrow> []) @ ops)))
      else Ok [])"
| "field_ops chk t payload FK_Ignored = Ok []"
| "field_ops chk t payload (FK_Text ch fd) =
     Ok (case field_as_string fd payload of Some v \<Rightarrow> [Push_text ch t v] | None \<Rightarrow> [])"

definition record_ops :: "bool \<Rightarrow> channel_map \<Rightarrow> u16 \<Rightarrow> u64 \<Rightarrow> bytes \<Rightarrow> store_op list run" where
  "record_ops chk m schema_id t payload =
     (case m schema_id of None \<Rightarrow> Ok [] | Some fks \<Rightarrow> oconcat (omap (field_ops chk t payload) fks))"

abbreviation apply_ops :: "store_op list run \<Rightarrow> store \<Rightarrow> store run" where
  "apply_ops m g \<equiv> obind m (\<lambda>ops. Ok (fold store_step ops g))"

lemma push_if_ops: "push_if ch t v g = fold store_step (opt_push ch t v) g"
  by (simp add: push_if_def opt_push_def split: option.split)

lemma ofold_ops:
  assumes "\<And>x g. x \<in> set xs \<Longrightarrow> f x g = apply_ops (h x) g"
  shows "ofold f xs g = apply_ops (oconcat (omap h xs)) g"
  using assms
proof (induction xs arbitrary: g)
  case (Cons x xs)
  show ?case
  proof (cases "h x")
    case (Ok ops)
    then show ?thesis
      using Cons.IH[of "fold store_step ops g"] Cons.prems by (cases "omap h xs") (simp_all add: oconcat_def)
  qed (use Cons.prems in \<open>simp_all add: oconcat_def\<close>)
qed (simp add: oconcat_def)

lemma push_element_ops: "push_element chk ty pl off esz t x g = apply_ops (element_ops chk ty pl off esz t x) g"
  by (cases x) (simp add: push_element_def element_ops_def obind_assoc push_if_ops)

lemma push_bit_value_ops: "push_bit_value chk raw t x g = apply_ops (bit_ops chk raw t x) g"
  by (cases x) (simp add: push_bit_value_def bit_ops_def obind_assoc)

lemma dispatch_field_ops: "dispatch_field chk t pl k g = apply_ops (field_ops chk t pl k) g"
proof (cases k)
  case (FK_Scalar ch ty off sz)
  then show ?thesis by (simp add: obind_assoc push_if_ops)
next
  case (FK_ScalarArray ty off esz chs)
  then show ?thesis by (simp add: ofold_ops[OF push_element_ops])
next
  case (FK_Bitfield off n word bits)
  then show ?thesis
    by (auto simp: ofold_ops[OF push_bit_value_ops] obind_assoc Let_def split: option.split
        intro!: obind_cong)
qed (simp_all add: Let_def split: option.split)

lemma dispatch_ops: "dispatch chk m schema_id t pl g = apply_ops (record_ops chk m schema_id t pl) g"
  by (simp add: dispatch_def record_ops_def ofold_ops[OF dispatch_field_ops] split: option.split)

section \<open>When dispatch cannot panic\<close>

definition bit_safe :: "bit_def \<Rightarrow> bool" where
  "bit_safe b \<longleftrightarrow> unat (bd_width b) < 64 \<and> unat (bd_start b) < 64"

definition width_safe :: "field_type \<Rightarrow> u16 \<Rightarrow> bool" where
  "width_safe ty sz \<longleftrightarrow> ty \<in> {FT_U8, FT_I8} \<longrightarrow> sz \<noteq> 0"

fun kind_safe :: "field_kind \<Rightarrow> bool" where
  "kind_safe (FK_Scalar ch ty off sz) = width_safe ty sz"
| "kind_safe (FK_ScalarArray ty off esz chs) \<longleftrightarrow>
     width_safe ty esz \<and> length chs < 2 ^ 16 \<and> unat off + length chs * unat esz < 2 ^ 16"
| "kind_safe (FK_Bitfield off n word bits) \<longleftrightarrow> unat n \<le> 8 \<and> (\<forall>(b, _)\<in>set bits. bit_safe b)"
| "kind_safe _ = True"

lemma read_scalar_no_panic: "width_safe ty sz \<Longrightarrow> read_scalar ty pl off sz \<noteq> Panic"
proof (cases "length pl < unat off + unat sz")
  case False
  assume w: "width_safe ty sz"
  have "index_at (take (unat sz) (drop (unat off) pl)) 0 \<noteq> (Panic :: u8 run)" if "ty \<in> {FT_U8, FT_I8}"
    using w that False by (auto simp: index_at_def width_safe_def unat_eq_zero)
  then show ?thesis
    using False by (cases ty) (auto simp: read_scalar_def Let_def exact_def outcome_simps)
qed (simp add: read_scalar_def)

lemma element_ops_no_panic:
  assumes "width_safe ty esz" and "i < n" and "n < 2 ^ 16" and "unat off + n * unat esz < 2 ^ 16"
  shows "element_ops chk ty pl off esz t (i, ch) \<noteq> Panic"
proof -
  have i: "unat (of_nat i :: u16) = i" using assms(2,3) by (simp add: unat_of_nat)
  have "i * unat esz \<le> n * unat esz" using assms(2) by simp
  then have b: "unat off + i * unat esz < 2 ^ 16" using assms(4) by linarith
  then have m: "unat (of_nat i * esz :: u16) = i * unat esz"
    by (simp add: unat_word_ariths(2) i)
  have "(mul_chk chk (of_nat i) esz :: u16 run) = Ok (of_nat i * esz)"
    using b by (intro mul_chk_Ok) (simp add: i)
  moreover have "(add_chk chk off (of_nat i * esz) :: u16 run) = Ok (off + of_nat i * esz)"
    using b by (intro add_chk_Ok) (simp add: m)
  ultimately show ?thesis
    using read_scalar_no_panic[OF assms(1)] by (simp add: element_ops_def outcome_simps)
qed

lemma raw_word_no_panic: "length bs \<le> 8 \<Longrightarrow> raw_word chk bs \<noteq> Panic"
proof -
  assume l: "length bs \<le> 8"
  have "\<forall>(i, b)\<in>set ibs. i < 8 \<Longrightarrow> ofold (raw_step chk) ibs r \<noteq> Panic" for ibs r
    by (induction ibs arbitrary: r) (auto simp: raw_step_def shl_chk_Ok outcome_simps)
  moreover have "\<forall>(i, b)\<in>set (enumerate 0 bs). i < 8"
    using l by (auto simp: in_set_enumerate_eq)
  ultimately show ?thesis unfolding raw_word_def by blast
qed

lemma one_le_pow2: "w < 64 \<Longrightarrow> (1 :: u64) \<le> 2 ^ w"
proof -
  assume "w < 64"
  then have "(2 :: u64) ^ w \<noteq> 0" by (simp add: exp_eq_zero_iff)
  then show ?thesis by (simp add: word_le_nat_alt unat_gt_0 Suc_leI)
qed

lemma bit_value_no_panic: "bit_safe b \<Longrightarrow> bit_value chk raw b \<noteq> Panic"
  by (simp add: bit_value_def bit_safe_def shl_chk_Ok shr_chk_Ok sub_chk_Ok one_le_pow2)

lemma oconcat_Panic_iff: "oconcat m = Panic \<longleftrightarrow> m = Panic"
  by (simp add: oconcat_def outcome_simps)

lemma field_ops_no_panic: "kind_safe k \<Longrightarrow> field_ops chk t pl k \<noteq> Panic"
proof (cases k)
  case (FK_ScalarArray ty off esz chs)
  assume k: "kind_safe k"
  have "element_ops chk ty pl off esz t x \<noteq> Panic" if "x \<in> set (enumerate 0 chs)" for x
  proof -
    have "fst x < length chs" using that by (auto simp: in_set_enumerate_eq)
    then show ?thesis
      using k FK_ScalarArray element_ops_no_panic[of ty esz "fst x" "length chs" off chk pl t "snd x"] by simp
  qed
  then have "omap (element_ops chk ty pl off esz t) (enumerate 0 chs) \<noteq> Panic" by (rule omap_no_panic)
  then show ?thesis using FK_ScalarArray by (simp add: oconcat_Panic_iff)
next
  case (FK_Bitfield off n word bits)
  assume k: "kind_safe k"
  have "bit_ops chk raw t x \<noteq> Panic" if "x \<in> set bits" for raw x
    using k FK_Bitfield that bit_value_no_panic by (auto simp: bit_ops_def outcome_simps)
  then have "omap (bit_ops chk raw t) bits \<noteq> Panic" for raw by (rule omap_no_panic)
  then show ?thesis
    using FK_Bitfield k by (auto simp: outcome_simps oconcat_Panic_iff raw_word_no_panic)
qed (simp_all add: outcome_simps read_scalar_no_panic)

section \<open>What build registers\<close>

type_synonym channel_spec = "string \<times> channel_kind \<times> bool"

abbreviation spec_of :: "channel_info \<Rightarrow> channel_spec" where
  "spec_of c \<equiv> (ci_path c, ci_kind c, ci_integer_storage c)"

text \<open>The channels of a field, in order of registration.\<close>

definition numeric_specs :: "schema \<Rightarrow> u16 \<Rightarrow> field_def \<Rightarrow> channel_spec list" where
  "numeric_specs schema schema_id f =
     map (\<lambda>p. (p, CK_Scalar, is_integer_type (fd_ty f)))
       (if fd_count f = 1 then [field_path schema schema_id f []]
        else map (\<lambda>i. field_path schema schema_id f (''['' @ show_nat i @ '']'')) [0..<unat (fd_count f)])"

definition bitfield_specs :: "schema \<Rightarrow> u16 \<Rightarrow> field_def \<Rightarrow> bitfield_def \<Rightarrow> channel_spec list" where
  "bitfield_specs schema schema_id f bf =
     map (\<lambda>p. (p, CK_Scalar, True))
       ((if fd_size f \<in> {1, 2, 4, 8} then [field_path schema schema_id f []] else [])
        @ map (\<lambda>b. field_path schema schema_id f (''.'' @ bd_name b)) (bf_bits bf))"

definition field_specs :: "schema \<Rightarrow> u16 \<Rightarrow> u16 \<Rightarrow> field_def \<Rightarrow> channel_spec list" where
  "field_specs schema schema_id field_index f =
     (let p = field_path schema schema_id f [] in
      if is_numeric_type (fd_ty f) then numeric_specs schema schema_id f
      else if fd_count f \<noteq> 1 then []
      else case fd_ty f of
        FT_Bool \<Rightarrow> [(p, CK_State [''false'', ''true''], True)]
      | FT_Enum \<Rightarrow> [(p, CK_State (case enum_labels schema schema_id field_index of Some ls \<Rightarrow> ls | None \<Rightarrow> []), True)]
      | FT_Bitfield \<Rightarrow> (case schema_bitfield schema schema_id field_index of
             None \<Rightarrow> [] | Some bf \<Rightarrow> bitfield_specs schema schema_id f bf)
      | FT_String \<Rightarrow> [(p, CK_Text, False)]
      | _ \<Rightarrow> [])"

definition entry_specs :: "schema \<Rightarrow> schema_entry \<Rightarrow> channel_spec list" where
  "entry_specs schema e =
     concat (map (\<lambda>(i, f). field_specs schema (se_id e) (of_nat i) f) (enumerate 0 (se_fields e)))"

definition schema_specs :: "schema \<Rightarrow> channel_spec list" where
  "schema_specs schema = concat (map (entry_specs schema) (sc_entries schema))"

text \<open>The channel ids a field kind pushes to.\<close>

fun kind_channels :: "field_kind \<Rightarrow> channel_id list" where
  "kind_channels (FK_Scalar ch _ _ _) = [ch]"
| "kind_channels (FK_ScalarArray _ _ _ chs) = chs"
| "kind_channels (FK_State ch _) = [ch]"
| "kind_channels (FK_Bitfield _ _ word bits) = (case word of Some ch \<Rightarrow> [ch] | None \<Rightarrow> []) @ map snd bits"
| "kind_channels (FK_Text ch _) = [ch]"
| "kind_channels FK_Ignored = []"

fun is_registration :: "store_op \<Rightarrow> bool" where
  "is_registration (Push_scalar _ _ _) = False"
| "is_registration (Push_state _ _ _) = False"
| "is_registration (Push_text _ _ _) = False"
| "is_registration Clear = False"
| "is_registration _ = True"

definition registers :: "store \<Rightarrow> store \<Rightarrow> bool" where
  "registers g g' \<longleftrightarrow> (\<exists>ops. (\<forall>op\<in>set ops. is_registration op) \<and> g' = fold store_step ops g)"

lemma registers_refl [simp]: "registers g g"
  unfolding registers_def by (rule exI[of _ "[]"]) simp

lemma registers_trans: "registers g h \<Longrightarrow> registers h k \<Longrightarrow> registers g k"
proof -
  assume "registers g h" "registers h k"
  then obtain ops ops' where "\<forall>op\<in>set ops. is_registration op" "h = fold store_step ops g"
    "\<forall>op\<in>set ops'. is_registration op" "k = fold store_step ops' h"
    by (auto simp: registers_def)
  then have "\<forall>op\<in>set (ops @ ops'). is_registration op" "k = fold store_step (ops @ ops') g" by auto
  then show ?thesis unfolding registers_def by blast
qed

lemma registers_step: "is_registration op \<Longrightarrow> registers g (store_step op g)"
  unfolding registers_def by (rule exI[of _ "[op]"]) simp

text \<open>
  \<open>grows specs ids g g'\<close>: \<open>g'\<close> results from \<open>g\<close> by registrations only; they append channels with the
  given paths and kinds, and \<open>ids\<close> are the positions of these channels.
\<close>

definition grows :: "channel_spec list \<Rightarrow> channel_id list \<Rightarrow> store \<Rightarrow> store \<Rightarrow> bool" where
  "grows specs ids g g' \<longleftrightarrow> registers g g' \<and>
     map spec_of (st_channels g') = map spec_of (st_channels g) @ specs \<and>
     ids = map of_nat [length (st_channels g)..<length (st_channels g) + length specs]"

lemma grows_refl: "grows [] [] g g"
  by (simp add: grows_def)

lemma grows_length: "grows ss is g h \<Longrightarrow> length (st_channels h) = length (st_channels g) + length ss"
proof -
  assume "grows ss is g h"
  then have "length (map spec_of (st_channels h)) = length (map spec_of (st_channels g) @ ss)"
    by (simp only: grows_def)
  then show ?thesis by simp
qed

lemma grows_trans:
  assumes "grows ss is g h" and "grows ts js h k"
  shows "grows (ss @ ts) (is @ js) g k"
proof -
  have u: "[length (st_channels g)..<length (st_channels g) + length (ss @ ts)] =
      [length (st_channels g)..<length (st_channels g) + length ss] @ [length (st_channels h)..<length (st_channels h) + length ts]"
    using grows_length[OF assms(1)] upt_add_eq_append[of "length (st_channels g)" "length (st_channels g) + length ss" "length ts"]
    by (simp add: add.assoc)
  have "registers g k" using assms registers_trans[of g h k] by (simp add: grows_def)
  moreover have "map spec_of (st_channels k) = map spec_of (st_channels g) @ ss @ ts"
    using assms by (simp add: grows_def)
  moreover have "is @ js = map of_nat [length (st_channels g)..<length (st_channels g) + length (ss @ ts)]"
    using assms unfolding u grows_def by simp
  ultimately show ?thesis by (simp only: grows_def)
qed

lemma grows_step:
  assumes "is_registration op" and "g' = store_step op g"
    and "ch = of_nat (length (st_channels g))" and "map spec_of (st_channels g') = map spec_of (st_channels g) @ [sp]"
  shows "grows [sp] [ch] g g'"
  using assms by (simp add: grows_def registers_step)

lemma grows_adds:
  "add_scalar p g = (ch, g') \<Longrightarrow> grows [(p, CK_Scalar, False)] [ch] g g'"
  "add_scalar_int p g = (ch, g') \<Longrightarrow> grows [(p, CK_Scalar, True)] [ch] g g'"
  "add_state p ls g = (ch, g') \<Longrightarrow> grows [(p, CK_State ls, True)] [ch] g g'"
  "add_text p g = (ch, g') \<Longrightarrow> grows [(p, CK_Text, False)] [ch] g g'"
  by (rule grows_step[of "Add_scalar p"] grows_step[of "Add_scalar_int p"] grows_step[of "Add_state p ls"]
      grows_step[of "Add_text p"]; force simp: add_defs; fail)+

lemma grows_register: "grows ss is g h \<Longrightarrow> grows ss is g (register_word_bits w bs h)"
  using registers_trans[of g h "register_word_bits w bs h"] registers_step[of "Register_word_bits w bs" h]
  by (simp add: grows_def) (simp add: register_word_bits_def)

lemma grows_numeric: "add_numeric ty p g = (ch, g') \<Longrightarrow> grows [(p, CK_Scalar, is_integer_type ty)] [ch] g g'"
  by (cases "is_integer_type ty") (auto simp: add_numeric_def intro: grows_adds)

lemma grows_each:
  assumes "\<And>p g ch g'. add p g = (ch, g') \<Longrightarrow> grows [f p] [ch] g g'"
  shows "add_each add ps g = (chs, g') \<Longrightarrow> grows (map f ps) chs g g'"
proof (induction ps arbitrary: g chs)
  case (Cons p ps)
  then show ?case
    using grows_trans[of "[f p]"] assms by (fastforce split: prod.splits simp: Let_def)
qed (simp add: grows_refl)

lemma grows_build_numeric:
  "build_numeric schema_id f schema g = (k, g') \<Longrightarrow>
     grows (numeric_specs schema schema_id f) (kind_channels k) g g'"
  using grows_each[of "add_numeric (fd_ty f)" "\<lambda>p. (p, CK_Scalar, is_integer_type (fd_ty f))", OF grows_numeric]
  by (auto simp: build_numeric_def numeric_specs_def grows_numeric simp del: map_map split: prod.splits if_splits)

lemma length_add_each: "length (fst (add_each add ps g)) = length ps"
proof (induction ps arbitrary: g)
  case (Cons p ps)
  then show ?case by (metis (no_types, lifting) add_each.simps(2) case_prod_beta fst_conv length_Cons)
qed simp

lemma grows_build_bitfield:
  assumes "build_bitfield schema_id f bf schema g = (k, g')"
  shows "grows (bitfield_specs schema schema_id f bf) (kind_channels k) g g'"
proof -
  let ?path = "field_path schema schema_id f"
  let ?ps = "map (\<lambda>b. ?path (''.'' @ bd_name b)) (bf_bits bf)"
  obtain word h where w: "(if fd_size f \<in> {1, 2, 4, 8}
      then let (ch, g) = add_scalar_int (?path []) g in (Some ch, g) else (None, g)) = (word, h)" by force
  obtain chs h' where e: "add_each add_scalar_int ?ps h = (chs, h')" by force
  let ?ws = "(if fd_size f \<in> {1, 2, 4, 8} then [(?path [], CK_Scalar, True)] else []) :: channel_spec list"
  let ?is = "case word of Some ch \<Rightarrow> [ch] | None \<Rightarrow> []"
  have a: "grows ?ws ?is g h"
    using w by (cases "fd_size f \<in> {1, 2, 4, 8}") (auto simp: grows_refl split: prod.splits intro: grows_adds)
  have "grows (map (\<lambda>p. (p, CK_Scalar, True)) ?ps) chs h h'"
    by (rule grows_each[OF grows_adds(2) e])
  note b = grows_trans[OF a this]
  have l: "length chs = length (bf_bits bf)" using length_add_each[of add_scalar_int ?ps h] e by simp
  have k: "k = FK_Bitfield (fd_offset f) (fd_size f) word (zip (bf_bits bf) chs)"
    "g' = (case word of Some w \<Rightarrow> register_word_bits w (map snd (zip (bf_bits bf) chs)) h' | None \<Rightarrow> h')"
    using assms unfolding build_bitfield_def w
    unfolding Let_def prod.case e by auto
  have "grows (?ws @ map (\<lambda>p. (p, CK_Scalar, True)) ?ps) (?is @ chs) g g'"
    using b grows_register unfolding k(2) by (cases word) auto
  moreover have "bitfield_specs schema schema_id f bf = ?ws @ map (\<lambda>p. (p, CK_Scalar, True)) ?ps"
    by (simp add: bitfield_specs_def)
  moreover have "kind_channels k = ?is @ chs" using l by (simp add: k(1))
  ultimately show ?thesis by simp
qed

lemma grows_build_field:
  assumes "build_field schema_id fi f schema g = (k, g')"
  shows "grows (field_specs schema schema_id fi f) (kind_channels k) g g'"
proof (cases "is_numeric_type (fd_ty f)")
  case True
  then show ?thesis using assms grows_build_numeric by (simp add: build_field_def field_specs_def)
next
  case False
  show ?thesis
  proof (cases "fd_count f = 1")
    case c: True
    show ?thesis
      using assms False c grows_build_bitfield
      by (cases "fd_ty f")
        (auto simp: build_field_def field_specs_def Let_def grows_refl grows_adds split: prod.splits option.splits)
  qed (use assms False in \<open>auto simp: build_field_def field_specs_def grows_refl\<close>)
qed

lemma grows_build_fields:
  "build_fields schema_id fi fs schema g = (ks, g') \<Longrightarrow>
     grows (concat (map (\<lambda>(i, f). field_specs schema schema_id (of_nat i) f) (enumerate fi fs)))
       (concat (map kind_channels ks)) g g'"
proof (induction fs arbitrary: fi g ks g')
  case (Cons f fs)
  obtain k h where k: "build_field schema_id (of_nat fi) f schema g = (k, h)" by force
  obtain ks' h' where ks: "build_fields schema_id (fi + 1) fs schema h = (ks', h')" by force
  show ?case
    using Cons.prems grows_trans[OF grows_build_field[OF k] Cons.IH[OF ks]] k ks by auto
qed (simp add: grows_refl)

definition entry_channels :: "channel_map \<Rightarrow> schema_entry \<Rightarrow> channel_id list" where
  "entry_channels m e = concat (map kind_channels (case m (se_id e) of Some ks \<Rightarrow> ks | None \<Rightarrow> []))"

lemma build_loop_Ok:
  assumes "build_loop es schema m g = (Ok m', g')"
  shows "distinct (map se_id es) \<and> (\<forall>e\<in>set es. m (se_id e) = None) \<and>
    (\<forall>i. i \<notin> se_id ` set es \<longrightarrow> m' i = m i) \<and>
    (\<forall>e\<in>set es. \<exists>h ks h'. m' (se_id e) = Some ks \<and> build_entry e schema h = (ks, h')) \<and>
    grows (concat (map (entry_specs schema) es)) (concat (map (entry_channels m') es)) g g'"
  using assms
proof (induction es arbitrary: m g)
  case (Cons e es)
  then have n: "m (se_id e) = None" by (simp split: if_splits)
  obtain ks h where b: "build_entry e schema g = (ks, h)" by force
  have l: "build_loop es schema (m(se_id e \<mapsto> ks)) h = (Ok m', g')" using Cons.prems n b by simp
  note IH = Cons.IH[OF l]
  then have ni: "se_id e \<notin> se_id ` set es" by auto
  with IH have me: "m' (se_id e) = Some ks" by simp
  have "grows (entry_specs schema e) (entry_channels m' e) g h"
    using grows_build_fields[of "se_id e" 0 "se_fields e" schema g ks h] b me
    by (simp add: build_entry_def entry_specs_def entry_channels_def)
  from grows_trans[OF this] have "grows (concat (map (entry_specs schema) (e # es)))
      (concat (map (entry_channels m') (e # es))) g g'"
    using IH by simp
  moreover have "\<forall>i. i \<notin> se_id ` set (e # es) \<longrightarrow> m' i = m i" using IH by simp
  moreover have "\<forall>e'\<in>set (e # es). \<exists>h ks h'. m' (se_id e') = Some ks \<and> build_entry e' schema h = (ks, h')"
    using IH me b by auto
  moreover have "\<forall>e'\<in>set (e # es). m (se_id e') = None"
    using IH n ni by (auto split: if_splits)
  moreover have "distinct (map se_id (e # es))" using IH ni by simp
  ultimately show ?case by (intro conjI)
qed (simp add: grows_refl)

lemma build_loop_Err:
  "build_loop es schema m g = (Err (DuplicateSchema i), g') \<Longrightarrow>
     i \<in> se_id ` set es \<and> (m i \<noteq> None \<or> \<not> distinct (map se_id es))"
proof (induction es arbitrary: m g)
  case (Cons e es)
  show ?case
  proof (cases "m (se_id e) = None")
    case True
    obtain ks h where b: "build_entry e schema g = (ks, h)" by force
    have "build_loop es schema (m(se_id e \<mapsto> ks)) h = (Err (DuplicateSchema i), g')"
      using Cons.prems True b by simp
    from Cons.IH[OF this] show ?thesis by (auto split: if_splits)
  qed (use Cons.prems in auto)
qed simp

lemma build_loop_no_panic: "fst (build_loop es schema m g) \<noteq> Panic"
  by (induction es arbitrary: m g) (auto split: prod.splits)

lemma build_distinct:
  assumes "distinct (map se_id (sc_entries schema))"
  shows "\<exists>m g'. channel_map_build schema g = (Ok m, g')"
proof (cases "channel_map_build schema g")
  case (Pair r g')
  then show ?thesis
    using assms build_loop_no_panic[of "sc_entries schema" schema Map.empty g]
      build_loop_Err[of "sc_entries schema" schema Map.empty g]
    by (cases r rule: outcome.exhaust) (auto simp: channel_map_build_def intro: map_error.exhaust)
qed


section \<open>Schemas whose records never panic\<close>

text \<open>
  What a device declares: fields lie inside a payload of at most 65535 bytes, one-byte integers are not
  empty, bitfields are stored in at most 8 bytes and their bits lie inside a 64-bit word.
\<close>

definition field_sane :: "field_def \<Rightarrow> bool" where
  "field_sane f \<longleftrightarrow> unat (fd_offset f) + unat (fd_size f) < 2 ^ 16 \<and> width_safe (fd_ty f) (elem_size f) \<and>
     (fd_ty f = FT_Bitfield \<longrightarrow> unat (fd_size f) \<le> 8)"

definition schema_sane :: "schema \<Rightarrow> bool" where
  "schema_sane s \<longleftrightarrow> (\<forall>e\<in>set (sc_entries s). \<forall>f\<in>set (se_fields e). field_sane f) \<and>
     (\<forall>bf\<in>set (sc_bitfields s). \<forall>b\<in>set (bf_bits bf). bit_safe b)"

lemma elems_fit: "unat (fd_count f) * unat (elem_size f) \<le> unat (fd_size f) \<or> fd_count f = 0"
proof (cases "fd_count f = 0")
  case False
  have "unat (fd_count f) < 2 ^ 16" by (rule order_less_trans[OF unat_byte_less]) simp
  then have "unat (ucast (fd_count f) :: u16) = unat (fd_count f)"
    by (simp add: unsigned_ucast_eq take_bit_nat_eq_self)
  then show ?thesis using False by (simp add: elem_size_def word_gt_0 unat_div times_div_less_eq_dividend)
qed simp

lemma schema_bitfield_mem: "schema_bitfield s i j = Some bf \<Longrightarrow> bf \<in> set (sc_bitfields s)"
  by (auto simp: schema_bitfield_def find_first_def find_Some_iff)

lemma build_field_safe:
  assumes "build_field schema_id fi f schema g = (k, g')" and "field_sane f"
    and "\<forall>bf\<in>set (sc_bitfields schema). \<forall>b\<in>set (bf_bits bf). bit_safe b"
  shows "kind_safe k"
proof (cases "is_numeric_type (fd_ty f)")
  case True
  show ?thesis
  proof (cases "fd_count f = 1")
    case c: True
    then show ?thesis using assms(1,2) True
      by (auto simp: build_field_def build_numeric_def field_sane_def split: prod.splits)
  next
    case c: False
    then obtain chs where k: "k = FK_ScalarArray (fd_ty f) (fd_offset f) (elem_size f) chs"
      "length chs = unat (fd_count f)"
      using assms(1) True length_add_each[of "add_numeric (fd_ty f)"
        "map (\<lambda>i. field_path schema schema_id f (''['' @ show_nat i @ '']'')) [0..<unat (fd_count f)]" g]
      by (auto simp: build_field_def build_numeric_def split: prod.splits)
    moreover have "unat (fd_count f) < 2 ^ 16" by (rule order_less_trans[OF unat_byte_less]) simp
    ultimately show ?thesis using assms(2) elems_fit[of f] by (auto simp: field_sane_def)
  qed
next
  case False
  then show ?thesis
    using assms schema_bitfield_mem[of schema schema_id fi]
    by (cases "fd_ty f")
      (fastforce simp: build_field_def build_bitfield_def field_sane_def Let_def
        dest: set_zip_leftD split: prod.splits option.splits if_splits)+
qed

lemma omap_no_Err: "(\<And>x. x \<in> set xs \<Longrightarrow> f x \<noteq> Err e) \<Longrightarrow> omap f xs \<noteq> Err e"
  by (induction xs) (auto simp: outcome_simps)

lemma oconcat_Err_iff: "oconcat m = Err e \<longleftrightarrow> m = Err e"
  by (simp add: oconcat_def outcome_simps)

lemma chk_no_Err [simp]:
  "add_chk chk a b \<noteq> Err e" "sub_chk chk a b \<noteq> Err e" "mul_chk chk a b \<noteq> Err e" "shl_chk chk a k \<noteq> Err e"
  "shr_chk chk a k \<noteq> Err e" "index_at xs i \<noteq> Err e" "slice_range xs i j \<noteq> Err e"
  by (simp_all add: add_chk_def sub_chk_def mul_chk_def shl_chk_def shr_chk_def index_at_def slice_range_def)

lemma read_scalar_no_Err [simp]: "read_scalar ty pl off sz \<noteq> Err e"
  by (cases ty) (simp_all add: read_scalar_def Let_def exact_def outcome_simps)

lemma field_ops_no_Err: "field_ops chk t pl k \<noteq> Err e"
proof (cases k)
  case (FK_Bitfield off n word bits)
  have "raw_word chk bs \<noteq> Err e" for bs
  proof -
    have "ofold (raw_step chk) xs r \<noteq> Err e" for xs r
      by (induction xs arbitrary: r) (auto simp: raw_step_def outcome_simps)
    then show ?thesis by (simp add: raw_word_def)
  qed
  moreover have "omap (bit_ops chk raw t) bits \<noteq> Err e" for raw
    by (rule omap_no_Err) (auto simp: bit_ops_def bit_value_def outcome_simps)
  ultimately show ?thesis using FK_Bitfield by (simp add: outcome_simps oconcat_Err_iff)
next
  case (FK_ScalarArray ty off esz chs)
  have "omap (element_ops chk ty pl off esz t) (enumerate 0 chs) \<noteq> Err e"
    by (rule omap_no_Err) (auto simp: element_ops_def outcome_simps)
  then show ?thesis using FK_ScalarArray by (simp add: oconcat_Err_iff)
qed (simp_all add: outcome_simps)

lemma build_safe:
  assumes "channel_map_build schema g = (Ok m, g')" and "schema_sane schema" and "m i = Some ks" and "k \<in> set ks"
  shows "kind_safe k"
proof -
  have fs: "\<forall>f\<in>set fs. field_sane f \<Longrightarrow> build_fields sid fi fs schema h = (ks', h') \<Longrightarrow> \<forall>k\<in>set ks'. kind_safe k"
    for fs sid fi h ks' h'
  proof (induction fs arbitrary: fi h ks' h')
    case (Cons f fs)
    obtain k' h1 where k: "build_field sid (of_nat fi) f schema h = (k', h1)" by force
    obtain ks1 h2 where ks: "build_fields sid (fi + 1) fs schema h1 = (ks1, h2)" by force
    have "kind_safe k'" using build_field_safe[OF k] Cons.prems(1) assms(2) by (simp add: schema_sane_def)
    moreover have "\<forall>k\<in>set ks1. kind_safe k" using Cons.IH[OF _ ks] Cons.prems(1) by simp
    ultimately show ?case using Cons.prems(2) k ks by auto
  qed simp
  have l: "build_loop (sc_entries schema) schema Map.empty g = (Ok m, g')"
    using assms(1) by (simp add: channel_map_build_def)
  note B = build_loop_Ok[OF l]
  then obtain e where e: "e \<in> set (sc_entries schema)" "i = se_id e" using assms(3) by force
  with B obtain h h' where "build_entry e schema h = (ks, h')" using assms(3) by fastforce
  then show ?thesis using fs[of "se_fields e"] e assms(2,4) by (auto simp: build_entry_def schema_sane_def)
qed

lemma dispatch_returns:
  assumes "channel_map_build schema g = (Ok m, g')" and "schema_sane schema"
  shows "\<exists>h'. dispatch chk m schema_id t payload h = Ok h'"
proof (cases "m schema_id")
  case (Some ks)
  then have "\<forall>k\<in>set ks. field_ops chk t payload k \<noteq> Panic"
    using build_safe[OF assms] field_ops_no_panic by blast
  then have "omap (field_ops chk t payload) ks \<noteq> Panic" by (intro omap_no_panic) blast
  moreover have "omap (field_ops chk t payload) ks \<noteq> Err e" for e by (rule omap_no_Err) (rule field_ops_no_Err)
  ultimately obtain os where "omap (field_ops chk t payload) ks = Ok os"
    by (cases "omap (field_ops chk t payload) ks") auto
  then show ?thesis using Some by (simp add: dispatch_ops record_ops_def oconcat_def)
qed (simp add: dispatch_def)

text \<open>
  C19. Ingest cannot be crashed by payloads: for a map built from a schema whose fields fit a payload
  (\<open>schema_sane\<close>), dispatching a record with any id, any timestamp and any payload, short ones
  included, returns without a panic, even with overflow checks compiled in.
\<close>

theorem dispatch_never_panics:
  assumes "channel_map_build schema g = (Ok m, g')" and "schema_sane schema"
  shows "\<exists>h'. dispatch chk m schema_id t payload h = Ok h'"
  using assms by (rule dispatch_returns)

definition schema_ex :: schema where
  "schema_ex = \<lparr>
     sc_entries = [\<lparr>se_id = 5, se_name = ''imu'', se_description = [], se_payload_size = 3,
        se_fields = [\<lparr>fd_name = ''temp'', fd_offset = 0, fd_size = 2, fd_ty = FT_I16, fd_count = 1\<rparr>,
                     \<lparr>fd_name = ''flags'', fd_offset = 2, fd_size = 1, fd_ty = FT_Bitfield, fd_count = 1\<rparr>]\<rparr>],
     sc_enums = [],
     sc_bitfields = [\<lparr>bf_schema_id = 5, bf_field_index = 1,
        bf_bits = [\<lparr>bd_name = ''armed'', bd_start = 0, bd_width = 1\<rparr>, \<lparr>bd_name = ''mode'', bd_start = 1, bd_width = 3\<rparr>]\<rparr>]\<rparr>"

lemma schema_ex_sane: "schema_sane schema_ex"
  by (simp add: schema_sane_def schema_ex_def field_sane_def width_safe_def bit_safe_def)

lemma schema_ex_built: "\<exists>m g'. channel_map_build schema_ex store_new = (Ok m, g')"
  by (rule build_distinct) (simp add: schema_ex_def)

theorem dispatch_never_panics_witness:
  "\<exists>m g'. channel_map_build schema_ex store_new = (Ok m, g') \<and> (\<exists>h. dispatch True m 5 100 [1] g' = Ok h)"
  using schema_ex_built dispatch_never_panics[OF _ schema_ex_sane] by blast

text \<open>
  Without that condition a payload can crash the ingest thread: a one-byte integer field that the
  schema declares with size 0 makes \<open>read_scalar\<close> index an empty slice, in release builds too.
\<close>

theorem zero_size_field_panics: "read_scalar FT_U8 payload 0 0 = Panic"
  by (simp add: read_scalar_def index_at_def)

section \<open>Bitfields\<close>

lemma take_bit_or_shift:
  fixes a x :: u64
  assumes "take_bit k a = a"
  shows "a OR push_bit k x = a + push_bit k x"
proof -
  have "a AND push_bit k x = 0"
    by (subst assms[symmetric]) (auto simp: bit_eq_iff bit_simps)
  then show ?thesis by (simp add: disjunctive_add_eq_or)
qed

lemma le_nat_snoc: "le_nat (bs @ [b]) = le_nat bs + 256 ^ length bs * unat b"
  by (induction bs) (simp_all add: algebra_simps)

lemma raw_word_snoc:
  "raw_word chk (bs @ [b]) = obind (raw_word chk bs) (raw_step chk (length bs, b))"
proof -
  have "obind m Ok = m" for m :: "u64 run" by (cases m) auto
  moreover have "ofold (raw_step chk) [] = Ok" by (rule ext) simp
  ultimately show ?thesis
    by (cases "ofold (raw_step chk) (enumerate 0 bs) 0")
      (simp_all add: raw_word_def enumerate_append_eq ofold_append)
qed

lemma raw_word_le: "length bs \<le> 8 \<Longrightarrow> raw_word chk bs = Ok (le_word bs)"
proof (induction bs rule: rev_induct)
  case (snoc b bs)
  let ?n = "8 * length bs"
  have n: "?n < 64" using snoc.prems by simp
  have lt: "le_nat bs < 2 ^ ?n" using le_nat_less[of bs] by (simp add: power_mult)
  have "take_bit ?n (le_word bs :: u64) = of_nat (take_bit ?n (le_nat bs))"
    unfolding le_word_def using n by (simp add: take_bit_of_nat)
  then have tb: "take_bit ?n (le_word bs :: u64) = le_word bs"
    using lt by (simp add: take_bit_nat_eq_self le_word_def)
  have "(2 :: u64) ^ ?n = 256 ^ length bs" by (simp add: power_mult)
  then have "push_bit ?n (ucast b :: u64) = of_nat (256 ^ length bs * unat b)"
    by (simp add: push_bit_eq_mult)
  then have "(le_word bs :: u64) + push_bit ?n (ucast b) = le_word (bs @ [b])"
    by (simp add: le_word_def le_nat_snoc)
  then have "(le_word bs :: u64) OR push_bit ?n (ucast b) = le_word (bs @ [b])"
    by (simp only: take_bit_or_shift[OF tb])
  then show ?case
    using snoc n by (simp add: raw_word_snoc raw_step_def shl_chk_Ok mult.commute)
qed (simp add: raw_word_def le_word_def)

lemma bit_value_eq:
  assumes "bit_safe b" and "unat (bd_start b) + unat (bd_width b) \<le> 64"
  shows "\<exists>v. bit_value chk raw b = Ok v \<and> uint v = uint raw div 2 ^ unat (bd_start b) mod 2 ^ unat (bd_width b)"
proof -
  let ?s = "unat (bd_start b)" and ?w = "unat (bd_width b)"
  have "drop_bit ?s (raw AND push_bit ?s (mask ?w)) = take_bit ?w (drop_bit ?s raw)"
    using assms(2) by (auto simp: bit_eq_iff bit_simps)
  moreover have "(2 :: u64) ^ ?w - 1 = mask ?w" by (simp add: mask_eq_exp_minus_1)
  ultimately have "bit_value chk raw b = Ok (take_bit ?w (drop_bit ?s raw))"
    using assms(1) by (simp add: bit_value_def bit_safe_def shl_chk_Ok shr_chk_Ok sub_chk_Ok one_le_pow2 del: drop_bit_and)
  moreover have "uint (take_bit ?w (drop_bit ?s raw)) = uint raw div 2 ^ ?s mod 2 ^ ?w"
  proof -
    have "uint raw mod 2 ^ 64 = uint raw"
      using unsigned_less[of raw, where 'a = int] by (intro mod_pos_pos_trivial) simp_all
    then show ?thesis
      by (simp only: unsigned_take_bit_eq unsigned_drop_bit_eq) (simp add: take_bit_eq_mod drop_bit_eq_div)
  qed
  ultimately show ?thesis by blast
qed

text \<open>
  C20. A bitfield record is decoded bit by bit: for a storage of at most 8 bytes inside the payload,
  \<open>dispatch\<close> pushes the little-endian word to the word channel (when there is one) and to each bit
  channel, in order, the bits \<open>start .. start + width\<close> of that word as a number.
\<close>

theorem bitfield_values:
  assumes "unat off + unat n \<le> length payload" and "unat n \<le> 8"
    and "\<forall>(b, ch)\<in>set bits. unat (bd_width b) < 64 \<and> unat (bd_start b) < 64 \<and> unat (bd_start b) + unat (bd_width b) \<le> 64"
  defines "raw \<equiv> le_word (take (unat n) (drop (unat off) payload)) :: u64"
  shows "dispatch_field chk t payload (FK_Bitfield off n word bits) g =
    Ok (fold (\<lambda>(b, ch). push_scalar ch t (f64_of_int (uint raw div 2 ^ unat (bd_start b) mod 2 ^ unat (bd_width b)))) bits
         (case word of Some ch \<Rightarrow> push_scalar ch t (f64_of_int (uint raw)) g | None \<Rightarrow> g))"
proof -
  have "ofold (push_bit_value chk raw t) bs h =
      Ok (fold (\<lambda>(b, ch). push_scalar ch t (f64_of_int (uint raw div 2 ^ unat (bd_start b) mod 2 ^ unat (bd_width b)))) bs h)"
    if "set bs \<subseteq> set bits" for bs h
    using that
  proof (induction bs arbitrary: h)
    case (Cons x bs)
    obtain b ch where x: "x = (b, ch)" by force
    then have "bit_safe b" "unat (bd_start b) + unat (bd_width b) \<le> 64"
      using assms(3) Cons.prems by (auto simp: bit_safe_def)
    from bit_value_eq[OF this, of chk raw] Cons x show ?case by (auto simp: push_bit_value_def)
  qed simp
  then show ?thesis
    using assms(1,2) raw_word_le[of "take (unat n) (drop (unat off) payload)" chk]
    by (simp add: Let_def flip: raw_def)
qed

theorem bitfield_values_witness:
  "dispatch_field True 9 [0, 0xA5] (FK_Bitfield 1 1 None [(\<lparr>bd_name = ''mode'', bd_start = 4, bd_width = 4\<rparr>, 3)]) store_new =
    Ok (push_scalar 3 9 (f64_of_int 10) store_new)"
  using bitfield_values[of 1 1 "[0, 0xA5]" "[(\<lparr>bd_name = ''mode'', bd_start = 4, bd_width = 4\<rparr>, 3)]" True 9 None store_new]
  by (simp add: le_word_def)

section \<open>Frame: a record only touches its own channels\<close>

text \<open>
  What \<open>dispatch\<close> relies on in the store: a push changes the samples of the channel it addresses and no
  others. Stated once, for any state with a per-channel view.
\<close>

locale sample_sink =
  fixes step :: "'op \<Rightarrow> 's \<Rightarrow> 's"
    and is_push :: "'op \<Rightarrow> bool"
    and target :: "'op \<Rightarrow> channel_id"
    and view :: "'s \<Rightarrow> channel_id \<Rightarrow> 'v"
  assumes step_frame: "is_push op \<Longrightarrow> target op \<noteq> c \<Longrightarrow> view (step op s) c = view s c"
begin

lemma fold_frame:
  "\<forall>op\<in>set ops. is_push op \<and> target op \<noteq> c \<Longrightarrow> view (fold step ops s) c = view s c"
  by (induction ops arbitrary: s) (simp_all add: step_frame)

lemma fold_single:
  assumes "\<forall>op\<in>set (pre @ post). is_push op \<and> target op \<noteq> c"
  shows "\<exists>s'. view s' c = view s c \<and> view (fold step (pre @ op # post) s) c = view (step op s') c"
  using assms fold_frame[of pre c s] fold_frame[of post c "step op (fold step pre s)"] by (intro exI[of _ "fold step pre s"]) auto

end

fun op_target :: "store_op \<Rightarrow> channel_id" where
  "op_target (Push_scalar c _ _) = c"
| "op_target (Push_state c _ _) = c"
| "op_target (Push_text c _ _) = c"
| "op_target _ = 0"

fun op_time :: "store_op \<Rightarrow> timestamp option" where
  "op_time (Push_scalar _ t _) = Some t"
| "op_time (Push_state _ t _) = Some t"
| "op_time (Push_text _ t _) = Some t"
| "op_time _ = None"

definition channel_view :: "store \<Rightarrow> channel_id
    \<Rightarrow> (timestamp \<times> f64) list option \<times> state_run list option \<times> (timestamp \<times> string) list option" where
  "channel_view g c = (get_at (st_scalars g) (unat c), get_at (st_states g) (unat c), get_at (st_texts g) (unat c))"

interpretation mock_sink: sample_sink store_step "\<lambda>op. op_time op \<noteq> None" op_target channel_view
proof (unfold_locales, goal_cases)
  case (1 op c s)
  then show ?case
    by (cases op) (auto simp: channel_view_def get_at_def push_defs word_unat_eq_iff)
qed

lemma oconcat_omap_OkD:
  assumes "oconcat (omap f xs) = Ok ops" and "op \<in> set ops"
  shows "\<exists>x os. x \<in> set xs \<and> f x = Ok os \<and> op \<in> set os"
  using assms omap_Ok_setD[of f xs] by (fastforce simp: oconcat_def outcome_simps)

lemma field_ops_targets:
  assumes "field_ops chk t pl k = Ok ops" and "op \<in> set ops"
  shows "op_time op = Some t \<and> op_target op \<in> set (kind_channels k)"
proof (cases k)
  case (FK_ScalarArray ty off esz chs)
  then obtain i ch os where "(i, ch) \<in> set (enumerate 0 chs)" "element_ops chk ty pl off esz t (i, ch) = Ok os" "op \<in> set os"
    using oconcat_omap_OkD assms by fastforce
  then show ?thesis
    using FK_ScalarArray
    by (auto simp: element_ops_def outcome_simps opt_push_def in_set_enumerate_eq split: option.splits)
next
  case (FK_Bitfield off n word bits)
  show ?thesis
  proof (cases "unat off + unat n \<le> length pl")
    case True
    then obtain raw bops where b: "oconcat (omap (bit_ops chk raw t) bits) = Ok bops"
      "ops = (case word of Some ch \<Rightarrow> [Push_scalar ch t (f64_of_int (uint raw))] | None \<Rightarrow> []) @ bops"
      using assms(1) FK_Bitfield by (auto simp: outcome_simps)
    have "op_time op = Some t \<and> op_target op \<in> snd ` set bits" if "op \<in> set bops"
      using oconcat_omap_OkD[OF b(1) that] by (force simp: bit_ops_def outcome_simps)
    then show ?thesis using b(2) assms(2) FK_Bitfield by (auto split: option.splits)
  qed (use assms FK_Bitfield in auto)
qed (use assms in \<open>auto simp: outcome_simps opt_push_def split: option.splits if_splits\<close>)

lemma record_ops_targets:
  assumes "record_ops chk m sid t pl = Ok ops" and "op \<in> set ops"
  shows "op_time op = Some t \<and> (\<exists>ks. m sid = Some ks \<and> op_target op \<in> set (concat (map kind_channels ks)))"
proof (cases "m sid")
  case (Some ks)
  then obtain k os where "k \<in> set ks" "field_ops chk t pl k = Ok os" "op \<in> set os"
    using assms oconcat_omap_OkD by (fastforce simp: record_ops_def)
  then show ?thesis using field_ops_targets[of chk t pl k os op] Some by (auto intro!: bexI[of _ k])
qed (use assms in \<open>simp add: record_ops_def\<close>)

lemma built_channels_distinct:
  assumes "channel_map_build schema g = (Ok m, g')" and "length (st_channels g') \<le> 2 ^ 32"
    and "m sid = Some ks"
  shows "distinct (concat (map kind_channels ks))"
proof -
  have l: "build_loop (sc_entries schema) schema Map.empty g = (Ok m, g')"
    using assms(1) by (simp add: channel_map_build_def)
  note B = build_loop_Ok[OF l]
  then obtain e where e: "e \<in> set (sc_entries schema)" "sid = se_id e" using assms(3) by force
  let ?n = "length (st_channels g)"
  obtain specs where "grows specs (concat (map (entry_channels m) (sc_entries schema))) g g'" using B by blast
  note G = this
  have ids: "concat (map (entry_channels m) (sc_entries schema)) = map of_nat [?n..<length (st_channels g')]"
    using G grows_length[OF G] by (simp add: grows_def)
  have "inj_on (of_nat :: nat \<Rightarrow> u32) {?n..<length (st_channels g')}"
  proof (rule inj_onI)
    fix x y assume "x \<in> {?n..<length (st_channels g')}" "y \<in> {?n..<length (st_channels g')}" "(of_nat x :: u32) = of_nat y"
    then show "x = y" using assms(2) by (simp add: word_of_nat_eq_iff take_bit_nat_eq_self)
  qed
  then have "distinct (concat (map (entry_channels m) (sc_entries schema)))"
    unfolding ids by (simp add: distinct_map)
  then have "distinct (entry_channels m e)" using e(1) by (auto simp: distinct_concat_iff)
  then show ?thesis using e(2) assms(3) by (simp add: entry_channels_def)
qed

text \<open>
  C10. A record is delivered to the right channel and to no other. For a map built on a store with at
  most \<open>2 ^ 32\<close> channels, dispatching a record in which a scalar field decodes to \<open>v\<close> appends exactly
  \<open>(t, v)\<close> to that field's channel, and the samples of every channel that does not belong to the
  record's schema entry are unchanged.
\<close>

theorem dispatch_delivers:
  assumes "channel_map_build schema g0 = (Ok m, g1)" and "length (st_channels g1) \<le> 2 ^ 32"
    and "m sid = Some ks" and "FK_Scalar ch ty off sz \<in> set ks"
    and "read_scalar ty payload off sz = Ok (Some v)" and "dispatch chk m sid t payload g = Ok g'"
    and "get_at (st_scalars g) (unat ch) = Some samples"
  shows "get_at (st_scalars g') (unat ch) = Some (samples @ [(t, v)]) \<and>
    (\<forall>c. c \<notin> set (concat (map kind_channels ks)) \<longrightarrow> channel_view g' c = channel_view g c)"
proof -
  let ?k = "FK_Scalar ch ty off sz"
  obtain ops where ops: "record_ops chk m sid t payload = Ok ops" "g' = fold store_step ops g"
    using assms(6) by (auto simp: dispatch_ops outcome_simps)
  note T = record_ops_targets[OF ops(1)]
  have frame: "channel_view g' c = channel_view g c" if "c \<notin> set (concat (map kind_channels ks))" for c
    unfolding ops(2) using T that assms(3) by (intro mock_sink.fold_frame) fastforce
  obtain pre post where ks: "ks = pre @ ?k # post" using assms(4) by (meson split_list)
  have om: "oconcat (omap (field_ops chk t payload) (pre @ ?k # post)) = Ok ops"
    using ops(1) assms(3) by (simp add: record_ops_def ks)
  have k1: "field_ops chk t payload ?k = Ok [Push_scalar ch t v]" using assms(5) by (simp add: opt_push_def)
  from om k1 obtain p q where p: "omap (field_ops chk t payload) pre = Ok p" "omap (field_ops chk t payload) post = Ok q"
    "ops = concat p @ Push_scalar ch t v # concat q"
    unfolding oconcat_def omap_append omap.simps by (auto simp: outcome_simps)
  have d: "distinct (concat (map kind_channels ks))" by (rule built_channels_distinct[OF assms(1-3)])
  have "\<forall>op\<in>set (concat p @ concat q). op_time op \<noteq> None \<and> op_target op \<noteq> ch"
  proof
    fix op assume "op \<in> set (concat p @ concat q)"
    then obtain os where "os \<in> set p \<or> os \<in> set q" "op \<in> set os" by auto
    with p(1,2) obtain k where "k \<in> set (pre @ post)" "field_ops chk t payload k = Ok os" "op \<in> set os"
      using omap_Ok_setD[OF p(1)] omap_Ok_setD[OF p(2)] by fastforce
    then have "op_time op = Some t" "op_target op \<in> set (kind_channels k)" "k \<in> set (pre @ post)"
      using field_ops_targets by blast+
    then show "op_time op \<noteq> None \<and> op_target op \<noteq> ch" using d unfolding ks by auto
  qed
  from mock_sink.fold_single[OF this, of g "Push_scalar ch t v"] obtain s' where
    "channel_view s' ch = channel_view g ch" "channel_view g' ch = channel_view (push_scalar ch t v s') ch"
    using ops(2) p(3) by auto
  then have "get_at (st_scalars g') (unat ch) = Some (samples @ [(t, v)])"
    using assms(7) by (auto simp: channel_view_def push_defs get_at_def split: if_splits)
  with frame show ?thesis by blast
qed

lemma schema_ex_map:
  "\<exists>m g1. channel_map_build schema_ex store_new = (Ok m, g1) \<and> length (st_channels g1) = 4 \<and>
     st_scalars g1 = [[], [], [], []] \<and>
     m 5 = Some [FK_Scalar 0 FT_I16 0 2,
       FK_Bitfield 2 1 (Some 1) [(\<lparr>bd_name = ''armed'', bd_start = 0, bd_width = 1\<rparr>, 2),
                                 (\<lparr>bd_name = ''mode'', bd_start = 1, bd_width = 3\<rparr>, 3)]]"
  by (simp add: channel_map_build_def schema_ex_def build_entry_def build_field_def build_numeric_def
      build_bitfield_def is_numeric_type_def is_integer_type_def schema_bitfield_def find_first_def
      add_numeric_def elem_size_def add_defs register_word_bits_def store_new_def)

theorem dispatch_delivers_witness:
  "\<exists>m g1 g'. channel_map_build schema_ex store_new = (Ok m, g1) \<and> dispatch True m 5 100 [0xFE, 0xFF, 0x0B] g1 = Ok g' \<and>
     get_at (st_scalars g') 0 = Some [(100, f64_of_int (- 2))]"
proof -
  obtain m g1 where b: "channel_map_build schema_ex store_new = (Ok m, g1)" "length (st_channels g1) = 4"
    "st_scalars g1 = [[], [], [], []]" and m: "m 5 = Some [FK_Scalar 0 FT_I16 0 2,
       FK_Bitfield 2 1 (Some 1) [(\<lparr>bd_name = ''armed'', bd_start = 0, bd_width = 1\<rparr>, 2),
                                 (\<lparr>bd_name = ''mode'', bd_start = 1, bd_width = 3\<rparr>, 3)]]"
    using schema_ex_map by auto
  obtain g' where g': "dispatch True m 5 100 [0xFE, 0xFF, 0x0B] g1 = Ok g'"
    using dispatch_returns[OF b(1) schema_ex_sane] by blast
  have r: "read_scalar FT_I16 [0xFE, 0xFF, 0x0B] 0 2 = Ok (Some (f64_of_int (- 2)))"
    by (simp add: read_scalar_def exact_def le_word_def)
  show ?thesis
    using dispatch_delivers[OF b(1) _ m _ r g', of 0 "[]"] b g' by (auto simp: get_at_def)
qed

section \<open>Records in time order\<close>

definition series_le :: "(timestamp \<times> 'a) list list \<Rightarrow> timestamp \<Rightarrow> bool" where
  "series_le xss t \<longleftrightarrow> (\<forall>x\<in>set (concat xss). fst x \<le> t)"

definition times_le :: "log_store \<Rightarrow> timestamp \<Rightarrow> bool" where
  "times_le l t \<longleftrightarrow> series_le (lg_scalars l) t \<and> series_le (lg_states l) t \<and> series_le (lg_texts l) t"

lemma series_le_mono: "series_le xss t \<Longrightarrow> t \<le> u \<Longrightarrow> series_le xss u"
  unfolding series_le_def using order_trans by blast

lemma times_le_mono: "times_le l t \<Longrightarrow> t \<le> u \<Longrightarrow> times_le l u"
  by (auto simp: times_le_def intro: series_le_mono)

lemma appends_in_orderI: "series_le xss t \<Longrightarrow> appends_in_order ch t xss"
  unfolding series_le_def appends_in_order_def by (metis UN_I last_in_set nth_mem set_concat)

lemma set_append_at: "set (concat (append_at ch x xss)) \<subseteq> insert x (set (concat xss))"
proof (cases "unat ch < length xss")
  case True
  then have "set (xss ! unat ch) \<subseteq> set (concat xss)" using nth_mem by fastforce
  moreover have "set (append_at ch x xss) \<subseteq> insert (xss ! unat ch @ [x]) (set xss)"
    unfolding append_at_def using set_update_subset_insert by (simp add: True)
  ultimately show ?thesis by fastforce
qed (auto simp: append_at_def)

lemma series_le_append_at: "series_le xss t \<Longrightarrow> series_le (append_at ch (t, v) xss) t"
  unfolding series_le_def using set_append_at[of ch "(t, v)" xss] by fastforce

lemma push_op_in_order:
  assumes "op_time op = Some t" and "times_le l t"
  shows "op_in_order op l \<and> times_le (log_step op l) t"
  using assms by (cases op) (simp_all add: times_le_def series_le_append_at appends_in_orderI)

lemma registration_in_order:
  assumes "is_registration op" and "times_le l t"
  shows "op_in_order op l \<and> times_le (log_step op l) t"
  using assms by (cases op) (simp_all add: times_le_def log_add_def series_le_def)

lemma ops_in_order_append: "ops_in_order (xs @ ys) l \<longleftrightarrow> ops_in_order xs l \<and> ops_in_order ys (fold log_step xs l)"
  by (induction xs arbitrary: l) auto

lemma ops_at_in_order:
  assumes "\<forall>op\<in>set ops. op_time op = Some t \<or> is_registration op" and "times_le l t"
  shows "ops_in_order ops l \<and> times_le (fold log_step ops l) t"
  using assms
proof (induction ops arbitrary: l)
  case (Cons op ops)
  then have "op_in_order op l \<and> times_le (log_step op l) t"
    using push_op_in_order registration_in_order by auto
  then show ?case using Cons by simp
qed simp

text \<open>The operations of a sequence of records \<open>(schema id, timestamp, payload)\<close>.\<close>

definition records_ops :: "bool \<Rightarrow> channel_map \<Rightarrow> (u16 \<times> u64 \<times> bytes) list \<Rightarrow> store_op list run" where
  "records_ops chk m rs = oconcat (omap (\<lambda>(i, t, pl). record_ops chk m i t pl) rs)"

lemma records_in_order:
  assumes "records_ops chk m rs = Ok ops" and "sorted (map (fst \<circ> snd) rs)"
    and "\<forall>r\<in>set rs. times_le l (fst (snd r))"
  shows "ops_in_order ops l"
  using assms
proof (induction rs arbitrary: l ops)
  case (Cons r rs)
  obtain i t pl where r: "r = (i, t, pl)" by (cases r)
  obtain o1 o2 where o: "record_ops chk m i t pl = Ok o1" "records_ops chk m rs = Ok o2" "ops = o1 @ o2"
    using Cons.prems(1) r by (auto simp: records_ops_def oconcat_def outcome_simps)
  have a: "ops_in_order o1 l \<and> times_le (fold log_step o1 l) t"
    using record_ops_targets[OF o(1)] Cons.prems(3) r by (intro ops_at_in_order) auto
  have "ops_in_order o2 (fold log_step o1 l)"
    using Cons.IH[OF o(2)] Cons.prems(2) r a by (auto intro: times_le_mono)
  with a o(3) show ?case by (simp add: ops_in_order_append)
qed (simp add: records_ops_def oconcat_def)

end
