(* ===== verification/Tcp.thy ===== *)
theory Tcp
  imports Capture Mapper
begin

text \<open>
  The TCP source: \<open>viewer/crates/btelem-ingest/src/tcp.rs\<close> and the error type of \<open>lib.rs\<close>.

  The environment of the ingest thread is explicit. A connection is the list of events its reads meet:
  a chunk of bytes (of which a read takes as much as its buffer holds), or an error; its end is the end
  of the stream. The stop flag is only ever set, never reset, so it is given by the number of times the
  thread reads it as unset; every loop of the thread reads it, so the thread is a total function.
\<close>

section \<open>Errors and streams\<close>

datatype io_kind = Interrupted | WouldBlock | TimedOut | OtherIo

datatype ingest_error = IE_Io io_kind | IE_Wire wire_error | IE_Map map_error | IE_Closed

datatype read_event = Data bytes | Fail io_kind

type_synonym stream = "read_event list"
type_synonym 'a ires = "('a, ingest_error) outcome"

definition stream_read :: "nat \<Rightarrow> stream \<Rightarrow> (bytes + io_kind) \<times> stream" where
  "stream_read n s =
     (case s of
        [] \<Rightarrow> (Inl [], [])
      | Data c # s' \<Rightarrow> if length c \<le> n then (Inl c, s') else (Inl (take n c), Data (drop n c) # s')
      | Fail k # s' \<Rightarrow> (Inr k, s'))"

text \<open>The loop of \<open>read_exact_or_eof\<close>: \<open>acc\<close> is the filled part of the buffer of \<open>n\<close> bytes.\<close>

function read_fill :: "nat \<Rightarrow> bytes \<Rightarrow> stream \<Rightarrow> bytes ires \<times> stream" where
  "read_fill n acc s =
     (if n \<le> length acc then (Ok acc, s)
      else case stream_read (n - length acc) s of
        (Inl c, s') \<Rightarrow> if c = [] then (Err IE_Closed, s') else read_fill n (acc @ c) s'
      | (Inr k, s') \<Rightarrow>
          if k = Interrupted \<or> k = WouldBlock \<or> k = TimedOut
          then (if acc = [] then (Err (IE_Io k), s') else read_fill n acc s')
          else (Err (IE_Io k), s'))"
  by pat_completeness auto
termination
  by (relation "measures [\<lambda>(n, acc, s). length s, \<lambda>(n, acc, s). n - length acc]")
    (auto simp: stream_read_def split: list.splits read_event.splits if_splits)

declare read_fill.simps [simp del]

definition read_exact_or_eof :: "nat \<Rightarrow> stream \<Rightarrow> bytes ires \<times> stream" where
  "read_exact_or_eof n s = read_fill n [] s"

definition tcp_read_u32 :: "stream \<Rightarrow> u32 ires \<times> stream" where
  "tcp_read_u32 s =
     (case read_exact_or_eof 4 s of
        (Ok b, s') \<Rightarrow> (Ok (le_word b), s')
      | (Err e, s') \<Rightarrow> (Err e, s')
      | (Panic, s') \<Rightarrow> (Panic, s'))"

section \<open>The packet loop\<close>

type_synonym ingest_state = "store \<times> capture option"

text \<open>The \<open>for\<close> loop over the entries of one packet, and the copy to the capture.\<close>

definition dispatch_entries :: "bool \<Rightarrow> channel_map \<Rightarrow> decoded_entry list \<Rightarrow> store \<Rightarrow> store run" where
  "dispatch_entries chk m es g = ofold (\<lambda>e. dispatch chk m (de_id e) (de_timestamp e) (de_payload e)) es g"

definition capture_packet :: "nat \<Rightarrow> bytes \<Rightarrow> capture option \<Rightarrow> capture option" where
  "capture_packet now pkt cap =
     (case cap of None \<Rightarrow> None
      | Some c \<Rightarrow> Some (case push_packet now pkt c of Ok c' \<Rightarrow> c' | _ \<Rightarrow> c))"

fun packet_loop :: "bool \<Rightarrow> channel_map \<Rightarrow> nat \<Rightarrow> nat \<Rightarrow> stream \<Rightarrow> ingest_state
    \<Rightarrow> unit ires \<times> ingest_state \<times> nat" where
  "packet_loop chk m now 0 s st = (Ok (), st, 0)"
| "packet_loop chk m now (Suc k) s (g, cap) =
     (case tcp_read_u32 s of
        (Panic, _) \<Rightarrow> (Panic, (g, cap), k)
      | (Err e, s') \<Rightarrow>
          if e = IE_Io WouldBlock \<or> e = IE_Io TimedOut then packet_loop chk m now k s' (g, cap)
          else (Err e, (g, cap), k)
      | (Ok len, s') \<Rightarrow>
          (case read_exact_or_eof (unat len) s' of
             (Panic, _) \<Rightarrow> (Panic, (g, cap), k)
           | (Err e, _) \<Rightarrow> (Err e, (g, cap), k)
           | (Ok pkt, s'') \<Rightarrow>
               (case decode_packet pkt of
                  Panic \<Rightarrow> (Panic, (g, cap), k)
                | Err w \<Rightarrow> (Err (IE_Wire w), (g, cap), k)
                | Ok p \<Rightarrow>
                    (case dispatch_entries chk m (pk_entries p) g of
                       Ok g' \<Rightarrow> packet_loop chk m now k s'' (g', capture_packet now pkt cap)
                     | _ \<Rightarrow> (Panic, (g, cap), k)))))"

section \<open>Connecting\<close>

text \<open>
  What each \<open>connect_timeout\<close> of the address list yields, in order: a connected stream or an error.
\<close>

type_synonym connect_result = "stream + io_kind"

text \<open>The part after a successful connect: read the schema, decode it, register the channels.\<close>

definition open_stream :: "stream \<Rightarrow> store \<Rightarrow> (stream \<times> bytes \<times> channel_map) ires \<times> store" where
  "open_stream s g =
     (case tcp_read_u32 s of
        (Err e, _) \<Rightarrow> (Err e, g)
      | (Panic, _) \<Rightarrow> (Panic, g)
      | (Ok schema_len, s') \<Rightarrow>
          (case read_exact_or_eof (unat schema_len) s' of
             (Err e, _) \<Rightarrow> (Err e, g)
           | (Panic, _) \<Rightarrow> (Panic, g)
           | (Ok buf, s'') \<Rightarrow>
               (case schema_decode buf of
                  Err w \<Rightarrow> (Err (IE_Wire w), g)
                | Panic \<Rightarrow> (Panic, g)
                | Ok schema \<Rightarrow>
                    (case channel_map_build schema g of
                       (Ok m, g') \<Rightarrow> (Ok (s'', buf, m), g')
                     | (Err e, g') \<Rightarrow> (Err (IE_Map e), g')
                     | (Panic, g') \<Rightarrow> (Panic, g')))))"

fun connect_once :: "connect_result list \<Rightarrow> ingest_error option \<Rightarrow> store
    \<Rightarrow> (stream \<times> bytes \<times> channel_map) ires \<times> store" where
  "connect_once [] last_err g = (Err (case last_err of Some e \<Rightarrow> e | None \<Rightarrow> IE_Io OtherIo), g)"
| "connect_once (Inl s # rest) last_err g = open_stream s g"
| "connect_once (Inr k # rest) last_err g = connect_once rest (Some (IE_Io k)) g"

section \<open>Reconnecting\<close>

text \<open>The chunked sleep: the remaining number of unset reads of the stop flag.\<close>

function backoff_sleep :: "nat \<Rightarrow> nat \<Rightarrow> nat \<Rightarrow> nat" where
  "backoff_sleep k delay_ms slept =
     (if slept < delay_ms then (if k = 0 then 0 else backoff_sleep (k - 1) delay_ms (slept + 100)) else k)"
  by pat_completeness auto
termination
  by (relation "measure (\<lambda>(k, d, s). d - s)") auto

declare backoff_sleep.simps [simp del]

lemma backoff_sleep_le: "backoff_sleep k d s \<le> k"
proof (induction k d s rule: backoff_sleep.induct)
  case (1 k d s)
  show ?case
  proof (cases "s < d \<and> k \<noteq> 0")
    case True
    then have "backoff_sleep (k - 1) d (s + 100) \<le> k - 1" using 1 by simp
    then have "backoff_sleep (k - 1) d (s + 100) \<le> k" by linarith
    then show ?thesis using True by (simp add: backoff_sleep.simps[of k])
  qed (auto simp: backoff_sleep.simps[of k])
qed

lemma backoff_sleep_less: "k \<noteq> 0 \<Longrightarrow> backoff_sleep (k - 1) d s - 1 < k"
  using backoff_sleep_le[of "k - 1" d s] by linarith

lemma packet_loop_le: "packet_loop chk m now k s st = (r, st', k') \<Longrightarrow> k' \<le> k"
proof (induction k arbitrary: s st)
  case (Suc k)
  obtain g cap where st: "st = (g, cap)" by force
  from Suc.prems show ?case
    unfolding st
    by (auto split: prod.splits outcome.splits if_splits dest!: Suc.IH)
qed simp

definition set_capture_schema :: "nat \<Rightarrow> bytes \<Rightarrow> capture option \<Rightarrow> capture option" where
  "set_capture_schema now buf cap = map_option (\<lambda>c. snd (set_schema now buf c)) cap"

text \<open>
  The \<open>while\<close> loop of \<open>run_with_reconnect\<close>. \<open>attempts\<close> lists what the connection attempts meet; each
  \<open>stop.load\<close> consumes one unset read, and the loop ends when none is left.
\<close>

function reconnect_loop :: "bool \<Rightarrow> nat \<Rightarrow> nat \<Rightarrow> nat \<Rightarrow> connect_result list list \<Rightarrow> ingest_state
    \<Rightarrow> unit ires \<times> ingest_state" where
  "reconnect_loop chk now k delay_ms attempts (g, cap) =
     (if k = 0 then (Ok (), (g, cap))
      else let k = backoff_sleep (k - 1) delay_ms 0 in
        if k = 0 then (Ok (), (g, cap))
        else
          let k = k - 1;
              g = store_clear g;
              cap = map_option capture_clear cap;
              (addrs, attempts) = (case attempts of [] \<Rightarrow> ([], []) | a # as \<Rightarrow> (a, as))
          in case connect_once addrs None g of
               (Panic, g) \<Rightarrow> (Panic, (g, cap))
             | (Err _, g) \<Rightarrow> reconnect_loop chk now k (min (delay_ms * 2) 5000) attempts (g, cap)
             | (Ok (s, schema_buf, m), g) \<Rightarrow>
                 (case packet_loop chk m now k s (g, set_capture_schema now schema_buf cap) of
                    (Panic, st, k) \<Rightarrow> (Panic, st)
                  | (Ok _, st, k) \<Rightarrow> reconnect_loop chk now k 250 attempts st
                  | (Err _, st, k) \<Rightarrow>
                      if k = 0 then (Ok (), st) else reconnect_loop chk now (k - 1) 250 attempts st))"
  by pat_completeness auto
termination
  by (relation "measure (\<lambda>(chk, now, k, d, a, st). k)")
    (simp_all, (metis Suc_pred' backoff_sleep_less diff_le_self le_less_trans order_less_le_trans
       packet_loop_le bot_nat_0.not_eq_extremum One_nat_def)+)

declare reconnect_loop.simps [simp del]

definition run_with_reconnect :: "bool \<Rightarrow> nat \<Rightarrow> nat \<Rightarrow> stream \<Rightarrow> channel_map \<Rightarrow> connect_result list list
    \<Rightarrow> ingest_state \<Rightarrow> unit ires \<times> ingest_state" where
  "run_with_reconnect chk now k s m attempts st =
     (case packet_loop chk m now k s st of
        (Panic, st, k) \<Rightarrow> (Panic, st)
      | (Ok _, st, k) \<Rightarrow> reconnect_loop chk now k 250 attempts st
      | (Err _, st, k) \<Rightarrow>
          if k = 0 then (Ok (), st) else reconnect_loop chk now (k - 1) 250 attempts st)"

text \<open>
  \<open>TcpSource::connect\<close>: the first connection is made by the caller; the rest runs in the thread, whose
  initial state is the result.
\<close>

definition tcp_connect :: "nat \<Rightarrow> connect_result list \<Rightarrow> ingest_state
    \<Rightarrow> (stream \<times> channel_map) ires \<times> ingest_state" where
  "tcp_connect now addrs = (\<lambda>(g, cap).
     if addrs = [] then (Err (IE_Io OtherIo), (g, cap))
     else case connect_once addrs None g of
       (Ok (s, schema_buf, m), g') \<Rightarrow> (Ok (s, m), (g', set_capture_schema now schema_buf cap))
     | (Err e, g') \<Rightarrow> (Err e, (g', cap))
     | (Panic, g') \<Rightarrow> (Panic, (g', cap)))"

section \<open>Framing\<close>

text \<open>A stretch of a stream without errors, and the bytes it carries.\<close>

definition clean :: "stream \<Rightarrow> bool" where
  "clean s \<longleftrightarrow> (\<forall>ev\<in>set s. case ev of Data c \<Rightarrow> c \<noteq> [] | Fail _ \<Rightarrow> False)"

fun content :: "stream \<Rightarrow> bytes" where
  "content [] = []"
| "content (Data c # s) = c @ content s"
| "content (Fail _ # s) = content s"

lemma clean_empty: "clean c \<Longrightarrow> content c = [] \<Longrightarrow> c = []"
  by (cases c rule: content.cases) (auto simp: clean_def)

lemma read_fill_clean:
  assumes "clean c" and "length acc + m = n" and "m \<le> length (content c)"
  shows "\<exists>c'. read_fill n acc (c @ s) = (Ok (acc @ take m (content c)), c' @ s) \<and> clean c' \<and>
    content c' = drop m (content c)"
  using assms
proof (induction c arbitrary: acc m)
  case Nil
  then show ?case by (simp add: read_fill.simps clean_def)
next
  case (Cons ev c)
  obtain d where ev: "ev = Data d" "d \<noteq> []" using Cons.prems(1) by (cases ev) (auto simp: clean_def)
  show ?case
  proof (cases "m = 0")
    case True
    then show ?thesis using Cons.prems by (intro exI[of _ "ev # c"]) (simp add: read_fill.simps)
  next
    case m: False
    then have nm: "n - length acc = m" "\<not> n \<le> length acc" using Cons.prems(2) by auto
    show ?thesis
    proof (cases "length d \<le> m")
      case True
      then have "read_fill n acc ((ev # c) @ s) = read_fill n (acc @ d) (c @ s)"
        using m ev nm by (subst read_fill.simps) (simp add: stream_read_def)
      moreover have "\<exists>c'. read_fill n (acc @ d) (c @ s) = (Ok ((acc @ d) @ take (m - length d) (content c)), c' @ s) \<and>
          clean c' \<and> content c' = drop (m - length d) (content c)"
        using Cons.prems True ev by (intro Cons.IH) (auto simp: clean_def)
      ultimately show ?thesis using ev True by simp
    next
      case False
      then have "read_fill n acc ((ev # c) @ s) = read_fill n (acc @ take m d) (Data (drop m d) # c @ s)"
        using m ev nm by (subst read_fill.simps) (simp add: stream_read_def)
      also have "\<dots> = (Ok (acc @ take m d), Data (drop m d) # c @ s)"
        using Cons.prems(2) False by (simp add: read_fill.simps)
      finally show ?thesis
        using ev False Cons.prems(1) by (intro exI[of _ "Data (drop m d) # c"]) (simp add: clean_def)
    qed
  qed
qed

text \<open>A packet as it travels: its length, then its bytes.\<close>

definition frame :: "bytes \<Rightarrow> bytes" where
  "frame p = word_le 4 (of_nat (length p) :: u32) @ p"

text \<open>The effect of a list of packets on the store and the ring.\<close>

fun ingest_all :: "bool \<Rightarrow> channel_map \<Rightarrow> nat \<Rightarrow> bytes list \<Rightarrow> ingest_state \<Rightarrow> (ingest_state, wire_error) outcome" where
  "ingest_all chk m now [] st = Ok st"
| "ingest_all chk m now (p # ps) (g, cap) =
     obind (decode_packet p) (\<lambda>pk.
     case dispatch_entries chk m (pk_entries pk) g of
       Ok g' \<Rightarrow> ingest_all chk m now ps (g', capture_packet now p cap)
     | _ \<Rightarrow> Panic)"

lemma ingest_all_ConsD:
  assumes "ingest_all chk m now (p # ps) (g, cap) = Ok st'"
  obtains pk g' where "decode_packet p = Ok pk" "dispatch_entries chk m (pk_entries pk) g = Ok g'"
    "ingest_all chk m now ps (g', capture_packet now p cap) = Ok st'"
proof -
  obtain pk where pk: "decode_packet p = Ok pk" using assms by (auto simp: outcome_simps)
  then show ?thesis using that assms by (cases "dispatch_entries chk m (pk_entries pk) g") auto
qed

lemma packet_loop_frames:
  assumes "clean c" and "content c = concat (map frame ps)" and "\<forall>p\<in>set ps. length p < 2 ^ 32"
    and "ingest_all chk m now ps st = Ok st'"
  shows "packet_loop chk m now (length ps + k) (c @ s) st = packet_loop chk m now k s st'"
  using assms
proof (induction ps arbitrary: c st)
  case Nil
  then show ?case using clean_empty[of c] by simp
next
  case (Cons p ps)
  obtain g cap where st: "st = (g, cap)" by force
  obtain pk g' where pk: "decode_packet p = Ok pk" "dispatch_entries chk m (pk_entries pk) g = Ok g'"
    and rest: "ingest_all chk m now ps (g', capture_packet now p cap) = Ok st'"
    using Cons.prems(4) st ingest_all_ConsD by blast
  have con: "content c = word_le 4 (of_nat (length p) :: u32) @ p @ concat (map frame ps)"
    using Cons.prems(2) by (simp add: frame_def[of p])
  obtain c1 where c1: "read_fill 4 [] (c @ s) = (Ok (word_le 4 (of_nat (length p) :: u32)), c1 @ s)"
    "clean c1" "content c1 = p @ concat (map frame ps)"
    using read_fill_clean[OF Cons.prems(1), of "[]" 4 4 s] con by auto
  obtain c2 where c2: "read_fill (length p) [] (c1 @ s) = (Ok p, c2 @ s)" "clean c2" "content c2 = concat (map frame ps)"
    using read_fill_clean[OF c1(2), of "[]" "length p" "length p" s] c1(3) by auto
  have "unat (of_nat (length p) :: u32) = length p" using Cons.prems(3) by (simp add: unat_of_nat)
  then have "packet_loop chk m now (Suc (length ps + k)) (c @ s) (g, cap) =
      packet_loop chk m now (length ps + k) (c2 @ s) (g', capture_packet now p cap)"
    using c1(1) c2(1) pk by (simp add: tcp_read_u32_def read_exact_or_eof_def)
  also have "\<dots> = packet_loop chk m now k s st'"
    using Cons.IH[OF c2(2,3) _ rest] Cons.prems(3) by simp
  finally show ?case using st by simp
qed

text \<open>
  A stream that carries packets: any chunking of their frames, with read timeouts only between
  frames. The number counts the iterations of the packet loop.
\<close>

inductive framed :: "stream \<Rightarrow> bytes list \<Rightarrow> nat \<Rightarrow> bool" where
  framed_end: "clean c \<Longrightarrow> content c = concat (map frame ps) \<Longrightarrow> framed c ps (length ps)"
| framed_idle: "clean c \<Longrightarrow> content c = concat (map frame ps) \<Longrightarrow> e = WouldBlock \<or> e = TimedOut \<Longrightarrow>
     framed s qs n \<Longrightarrow> framed (c @ Fail e # s) (ps @ qs) (length ps + 1 + n)"

lemma ingest_all_append:
  "ingest_all chk m now (ps @ qs) st = obind (ingest_all chk m now ps st) (ingest_all chk m now qs)"
proof (induction ps arbitrary: st)
  case (Cons p ps)
  then show ?case by (cases st; cases "decode_packet p") (auto split: outcome.splits)
qed simp

text \<open>
  C4. Framing is independent of how TCP cuts the stream: if the bytes received are the frames of
  packets that decode, in any chunks, with read timeouts at most between frames, then the packet loop
  delivers exactly these packets in order to the store and to the capture ring, and ends with
  \<open>Closed\<close> when the peer closes.
\<close>

theorem packet_loop_delivers:
  assumes "framed s ps n" and "\<forall>p\<in>set ps. length p < 2 ^ 32"
    and "ingest_all chk m now ps st = Ok st'" and "n < k"
  shows "packet_loop chk m now k s st = (Err IE_Closed, st', k - n - 1)"
  using assms
proof (induction arbitrary: st k rule: framed.induct)
  case (framed_end c ps)
  obtain g cap where st': "st' = (g, cap)" by force
  obtain k' where k: "k = length ps + Suc k'" using framed_end.prems(3) less_iff_Suc_add by auto
  have "packet_loop chk m now k (c @ []) st = packet_loop chk m now (Suc k') [] st'"
    unfolding k by (rule packet_loop_frames[OF framed_end.hyps framed_end.prems(1,2)])
  then show ?case
    using k st' by (simp add: tcp_read_u32_def read_exact_or_eof_def read_fill.simps stream_read_def)
next
  case (framed_idle c ps e s qs n)
  obtain st1 where st1: "ingest_all chk m now ps st = Ok st1" "ingest_all chk m now qs st1 = Ok st'"
    using framed_idle.prems(2) by (auto simp: ingest_all_append outcome_simps)
  obtain g cap where g: "st1 = (g, cap)" by force
  obtain k' where k: "k = length ps + Suc k'" "n < k'"
    using framed_idle.prems(3) that[of "k - length ps - 1"] by simp
  have "packet_loop chk m now k (c @ Fail e # s) st = packet_loop chk m now (Suc k') (Fail e # s) st1"
    unfolding k(1) using framed_idle.prems(1) by (intro packet_loop_frames[OF framed_idle.hyps(1,2) _ st1(1)]) simp
  also have "\<dots> = packet_loop chk m now k' s st1"
    using framed_idle.hyps(3) g
    by (auto simp: tcp_read_u32_def read_exact_or_eof_def read_fill.simps stream_read_def)
  also have "\<dots> = (Err IE_Closed, st', k' - n - 1)"
    using framed_idle.IH[OF _ st1(2) k(2)] framed_idle.prems(1) by simp
  finally show ?case using k by simp
qed

text \<open>
  C26. A pause between the length prefix and the body of a packet loses the connection: a read
  timeout there is not retried but ends the packet loop with an error, although the peer has sent
  the packet correctly; the thread then reconnects and clears the store.
\<close>

theorem pause_after_prefix_disconnects:
  assumes "0 < length p" and "length p < 2 ^ 32"
  shows "packet_loop chk m now (Suc k) [Data (word_le 4 (of_nat (length p) :: u32)), Fail TimedOut, Data p] st
    = (Err (IE_Io TimedOut), st, k)"
proof -
  obtain g cap where st: "st = (g, cap)" by force
  have "unat (of_nat (length p) :: u32) = length p" using assms by (simp add: unat_of_nat)
  moreover have "word_le 4 (of_nat (length p) :: u32) \<noteq> []"
    by (metis length_word_le list.size(3) zero_neq_numeral)
  ultimately show ?thesis
    using assms(1) st by (simp add: tcp_read_u32_def read_exact_or_eof_def read_fill.simps stream_read_def)
qed

section \<open>Every connection ends\<close>

fun stream_size :: "stream \<Rightarrow> nat" where
  "stream_size [] = 0"
| "stream_size (Data c # s) = Suc (length c) + stream_size s"
| "stream_size (Fail k # s) = Suc (stream_size s)"

lemma stream_read_size:
  assumes "stream_read n s = (r, s')"
  shows "stream_size s' \<le> stream_size s" and "0 < n \<Longrightarrow> r \<noteq> Inl [] \<Longrightarrow> stream_size s' < stream_size s"
  using assms by (cases s rule: stream_size.cases; auto simp: stream_read_def split: if_splits)+

lemma read_fill_size:
  assumes "read_fill n acc s = (r, s')"
  shows "stream_size s' \<le> stream_size s
    \<and> (length acc < n \<and> r \<noteq> Err IE_Closed \<longrightarrow> stream_size s' < stream_size s)"
  using assms
proof (induction n acc s rule: read_fill.induct)
  case (1 n acc s)
  show ?case
  proof (cases "n \<le> length acc")
    case False
    then have n: "0 < n - length acc" by simp
    obtain x s1 where x: "stream_read (n - length acc) s = (x, s1)" by force
    note sz = stream_read_size(1)[OF x] stream_read_size(2)[OF x n]
    show ?thesis
    proof (cases x)
      case (Inl c)
      show ?thesis
      proof (cases "c = []")
        case True
        then show ?thesis using 1(3) x Inl False sz by (simp add: read_fill.simps[of n acc s])
      next
        case c: False
        then have "read_fill n (acc @ c) s1 = (r, s')" using 1(3) x Inl False by (simp add: read_fill.simps[of n acc s])
        then have "stream_size s' \<le> stream_size s1" using 1(1)[OF False x[symmetric] Inl c] by simp
        then show ?thesis using sz c Inl by simp
      qed
    next
      case (Inr k)
      show ?thesis
      proof (cases "(k = Interrupted \<or> k = WouldBlock \<or> k = TimedOut) \<and> acc \<noteq> []")
        case True
        then have "read_fill n acc s1 = (r, s')" using 1(3) x Inr False by (simp add: read_fill.simps[of n acc s])
        then have "stream_size s' \<le> stream_size s1" using 1(2)[OF False x[symmetric] Inr] True by simp
        then show ?thesis using sz Inr by simp
      next
        case stop: False
        then have "s' = s1" using 1(3) x Inr False by (auto simp: read_fill.simps[of n acc s] split: if_splits)
        then show ?thesis using sz Inr by simp
      qed
    qed
  qed (use 1(3) in \<open>simp add: read_fill.simps[of n acc s]\<close>)
qed

lemma tcp_read_u32_size:
  assumes "tcp_read_u32 s = (r, s')" and "r \<noteq> Err IE_Closed"
  shows "stream_size s' < stream_size s"
  using assms read_fill_size[of 4 "[]" s]
  by (auto simp: tcp_read_u32_def read_exact_or_eof_def split: prod.splits outcome.splits)

text \<open>A turn of the loop either ends it or leaves a smaller stream.\<close>

lemma packet_loop_turn:
  "(\<exists>r st'. r \<noteq> Ok () \<and> (\<forall>k. packet_loop chk m now (Suc k) s st = (r, st', k))) \<or>
   (\<exists>s1 st1. stream_size s1 < stream_size s \<and>
      (\<forall>k. packet_loop chk m now (Suc k) s st = packet_loop chk m now k s1 st1))" (is ?thesis)
proof -
  obtain g cap where st: "st = (g, cap)" by force
  have stop: ?thesis if "\<And>k. packet_loop chk m now (Suc k) s st = (r, st', k)" "r \<noteq> Ok ()" for r st'
    using that by blast
  have more: ?thesis if "\<And>k. packet_loop chk m now (Suc k) s st = packet_loop chk m now k s1 st1"
    "stream_size s1 < stream_size s" for s1 st1
    using that by blast
  obtain x s1 where x: "tcp_read_u32 s = (x, s1)" by force
  show ?thesis
  proof (cases x)
    case (Ok len)
    note l = tcp_read_u32_size[OF x]
    obtain y s2 where y: "read_exact_or_eof (unat len) s1 = (y, s2)" by force
    have s2: "stream_size s2 < stream_size s"
      using read_fill_size[OF y[unfolded read_exact_or_eof_def]] l Ok by simp
    show ?thesis
    proof (cases y)
      case pk: (Ok pkt)
      show ?thesis
      proof (cases "decode_packet pkt")
        case p: (Ok p)
        show ?thesis
        proof (cases "dispatch_entries chk m (pk_entries p) g")
          case d: (Ok g')
          show ?thesis
            by (rule more[of s2 "(g', capture_packet now pkt cap)"]) (simp_all add: st x Ok y pk p d s2)
        qed (rule stop[of Panic "(g, cap)"]; simp add: st x Ok y pk p)+
      next
        case (Err w)
        then show ?thesis by (intro stop[of "Err (IE_Wire w)" "(g, cap)"]) (simp_all add: st x Ok y pk)
      next
        case Panic
        then show ?thesis by (intro stop[of Panic "(g, cap)"]) (simp_all add: st x Ok y pk)
      qed
    next
      case (Err e)
      then show ?thesis by (intro stop[of "Err e" "(g, cap)"]) (simp_all add: st x Ok y)
    next
      case Panic
      then show ?thesis by (intro stop[of Panic "(g, cap)"]) (simp_all add: st x Ok y)
    qed
  next
    case (Err e)
    show ?thesis
    proof (cases "e = IE_Io WouldBlock \<or> e = IE_Io TimedOut")
      case True
      then have "stream_size s1 < stream_size s" using tcp_read_u32_size[OF x] Err by auto
      then show ?thesis using True by (intro more[of s1 st]) (auto simp: st x Err)
    next
      case False
      then show ?thesis by (intro stop[of "Err e" "(g, cap)"]) (auto simp: st x Err)
    qed
  next
    case Panic
    then show ?thesis by (intro stop[of Panic "(g, cap)"]) (simp_all add: st x)
  qed
qed

text \<open>
  C22. No connection keeps the thread busy forever: for every finite stream, whatever it holds, the packet
  loop stops by itself after at most one turn more than the stream has bytes and events, with an error
  (or a panic of the decoder), and the turns it takes do not depend on when the user would have
  stopped it.
\<close>

theorem packet_loop_ends:
  "\<exists>turns r st'. turns \<le> stream_size s + 1 \<and> r \<noteq> Ok () \<and>
     (\<forall>k. packet_loop chk m now (turns + k) s st = (r, st', k))"
proof (induction "stream_size s" arbitrary: s st rule: less_induct)
  case less
  from packet_loop_turn[of chk m now s st] show ?case
  proof (elim disjE exE conjE)
    fix r st' assume "r \<noteq> Ok ()" "\<forall>k. packet_loop chk m now (Suc k) s st = (r, st', k)"
    then show ?case by (intro exI[of _ 1] exI[of _ r] exI[of _ st']) simp
  next
    fix s1 st1
    assume s1: "stream_size s1 < stream_size s" "\<forall>k. packet_loop chk m now (Suc k) s st = packet_loop chk m now k s1 st1"
    from less[OF s1(1), of st1] obtain t r st' where "t \<le> stream_size s1 + 1" "r \<noteq> Ok ()"
      "\<forall>k. packet_loop chk m now (t + k) s1 st1 = (r, st', k)" by blast
    then show ?case using s1 by (intro exI[of _ "Suc t"] exI[of _ r] exI[of _ st']) simp
  qed
qed

section \<open>Nothing the network does breaks the store or the ring\<close>

definition state_reaches :: "ingest_state \<Rightarrow> ingest_state \<Rightarrow> bool" where
  "state_reaches st st' \<longleftrightarrow> (\<exists>ops. fst st' = fold store_step ops (fst st)) \<and>
     (\<exists>cops. snd st' = map_option (fold capture_step cops) (snd st))"

lemma state_reaches_refl [simp]: "state_reaches st st"
  unfolding state_reaches_def by (rule conjI; rule exI[of _ "[]"]) (simp_all add: option.map_id)

lemma state_reaches_trans: "state_reaches a b \<Longrightarrow> state_reaches b c \<Longrightarrow> state_reaches a c"
proof -
  assume "state_reaches a b" "state_reaches b c"
  then obtain o1 o2 c1 c2 where "fst b = fold store_step o1 (fst a)" "fst c = fold store_step o2 (fst b)"
    "snd b = map_option (fold capture_step c1) (snd a)" "snd c = map_option (fold capture_step c2) (snd b)"
    by (auto simp: state_reaches_def)
  then have "fst c = fold store_step (o1 @ o2) (fst a)" "snd c = map_option (fold capture_step (c1 @ c2)) (snd a)"
    by (simp_all add: option.map_comp comp_def)
  then show ?thesis unfolding state_reaches_def by blast
qed

lemma state_reachesI:
  "g' = fold store_step ops g \<Longrightarrow> cap' = map_option (fold capture_step cops) cap \<Longrightarrow> state_reaches (g, cap) (g', cap')"
  by (auto simp: state_reaches_def)

lemma dispatch_entries_reaches: "dispatch_entries chk m es g = Ok g' \<Longrightarrow> \<exists>ops. g' = fold store_step ops g"
proof (induction es arbitrary: g)
  case Nil
  then show ?case by (auto simp: dispatch_entries_def intro: exI[of _ "[]"])
next
  case (Cons e es)
  then obtain h where h: "dispatch chk m (de_id e) (de_timestamp e) (de_payload e) g = Ok h"
    "dispatch_entries chk m es h = Ok g'"
    by (auto simp: dispatch_entries_def outcome_simps)
  obtain ops where "h = fold store_step ops g" using h(1) by (auto simp: dispatch_ops outcome_simps)
  moreover obtain ops' where "g' = fold store_step ops' h" using Cons.IH[OF h(2)] by auto
  ultimately have "g' = fold store_step (ops @ ops') g" by simp
  then show ?case by blast
qed

lemma capture_packet_step: "capture_packet now p cap = map_option (fold capture_step [Push_packet now p]) cap"
  by (cases cap) (simp_all add: capture_packet_def)

lemma set_capture_schema_step: "set_capture_schema now b cap = map_option (fold capture_step [Set_schema now b]) cap"
  by (cases cap) (simp_all add: set_capture_schema_def)

lemma packet_loop_reaches:
  "packet_loop chk m now k s st = (r, st', k') \<Longrightarrow> state_reaches st st'"
proof (induction k arbitrary: s st)
  case (Suc k)
  obtain g cap where st: "st = (g, cap)" by force
  have step: "state_reaches (g, cap) (g', capture_packet now p cap)" if "dispatch_entries chk m es g = Ok g'" for es g' p
    using dispatch_entries_reaches[OF that] state_reachesI capture_packet_step by metis
  show ?case
    using Suc.prems unfolding st
    by (auto split: prod.splits outcome.splits if_splits dest!: Suc.IH intro: state_reaches_trans step)
qed simp

lemma build_reaches: "channel_map_build schema g = (r, g') \<Longrightarrow> registers g g'"
proof -
  have "build_loop es schema m g = (r, g') \<Longrightarrow> registers g g'" for es m g r
  proof (induction es arbitrary: m g)
    case (Cons e es)
    obtain ks h where b: "build_entry e schema g = (ks, h)" by force
    have "registers g h"
      using grows_build_fields[of "se_id e" 0 "se_fields e" schema g ks h] b by (simp add: build_entry_def grows_def)
    then show ?case
      using Cons b registers_trans[of g h g'] by (auto split: if_splits)
  qed simp
  then show "channel_map_build schema g = (r, g') \<Longrightarrow> registers g g'" by (simp add: channel_map_build_def)
qed

lemma connect_once_reaches: "connect_once addrs e g = (r, g') \<Longrightarrow> registers g g'"
proof (induction addrs e g rule: connect_once.induct)
  case (2 s rest e g)
  then show ?case
    by (auto simp: open_stream_def split: prod.splits outcome.splits dest: build_reaches)
qed auto

lemma registers_state: "registers g g' \<Longrightarrow> state_reaches (g, cap) (g', cap)"
proof -
  assume "registers g g'"
  then obtain ops where "g' = fold store_step ops g" by (auto simp: registers_def)
  then show ?thesis by (rule state_reachesI[where cops = "[]"]) (simp add: option.map_id)
qed

lemma clear_state: "state_reaches (g, cap) (store_clear g, map_option capture_clear cap)"
proof (rule state_reachesI)
  show "store_clear g = fold store_step [Clear] g" by simp
  show "map_option capture_clear cap = map_option (fold capture_step [Clear_capture]) cap"
    by (cases cap) simp_all
qed

lemma schema_state: "state_reaches (g, cap) (g, set_capture_schema now b cap)"
  by (rule state_reachesI[of _ "[]", OF _ set_capture_schema_step]) simp

lemma reconnect_loop_reaches:
  "reconnect_loop chk now k d attempts st = (r, st') \<Longrightarrow> state_reaches st st' \<and> (\<forall>e. r \<noteq> Err e)"
proof (induction k arbitrary: d attempts st rule: less_induct)
  case (less k)
  obtain g cap where st: "st = (g, cap)" by force
  let ?k = "backoff_sleep (k - 1) d 0"
  show ?case
  proof (cases "k = 0 \<or> ?k = 0")
    case True
    then show ?thesis
      using less.prems st by (auto simp: reconnect_loop.simps[of _ _ k] Let_def split: if_splits)
  next
    case False
    then have lt: "?k - 1 < k" using backoff_sleep_less by simp
    let ?g = "store_clear g" and ?cap = "map_option capture_clear cap"
    obtain addrs att where att: "(case attempts of [] \<Rightarrow> ([], []) | a # as \<Rightarrow> (a, as)) = (addrs, att)" by force
    obtain cr g1 where co: "connect_once addrs None ?g = (cr, g1)" by force
    have s1: "state_reaches (g, cap) (g1, ?cap)"
      using clear_state registers_state[OF connect_once_reaches[OF co]] state_reaches_trans by blast
    note eq = less.prems[unfolded st reconnect_loop.simps[of _ _ k] Let_def att prod.case co]
    show ?thesis
    proof (cases cr)
      case (Ok x)
      obtain s b m where x: "x = (s, b, m)" by (cases x)
      obtain pr st1 k1 where pl: "packet_loop chk m now (?k - 1) s (g1, set_capture_schema now b ?cap) = (pr, st1, k1)"
        by (metis prod_cases3)
      have k1: "k1 < k" "k1 - 1 < k" using packet_loop_le[OF pl] lt by linarith+
      have s2: "state_reaches (g, cap) st1"
        using s1 schema_state packet_loop_reaches[OF pl] state_reaches_trans by blast
      have res: "(case pr of Panic \<Rightarrow> (Panic, st1) | Ok _ \<Rightarrow> reconnect_loop chk now k1 250 att st1
          | Err _ \<Rightarrow> if k1 = 0 then (Ok (), st1) else reconnect_loop chk now (k1 - 1) 250 att st1) = (r, st')"
        using eq False unfolding Ok x outcome.case prod.case pl by (cases pr) simp_all
      have "state_reaches st1 st' \<and> (\<forall>e. r \<noteq> Err e)"
        using res less.IH[OF k1(1)] less.IH[OF k1(2)] by (cases pr) (auto split: if_splits)
      then show ?thesis using s2 state_reaches_trans st by blast
    next
      case (Err e)
      then show ?thesis using eq False less.IH[OF lt] s1 state_reaches_trans st by (auto split: if_splits)
    next
      case Panic
      then show ?thesis using eq False s1 st by (auto split: if_splits)
    qed
  qed
qed

lemma run_with_reconnect_reaches:
  assumes "run_with_reconnect chk now k s m attempts st = (r, st')"
  shows "state_reaches st st' \<and> (\<forall>e. r \<noteq> Err e)"
proof -
  obtain pr st1 k1 where pl: "packet_loop chk m now k s st = (pr, st1, k1)" by (metis prod_cases3)
  have "(case pr of Panic \<Rightarrow> (Panic, st1) | Ok _ \<Rightarrow> reconnect_loop chk now k1 250 attempts st1
      | Err _ \<Rightarrow> if k1 = 0 then (Ok (), st1) else reconnect_loop chk now (k1 - 1) 250 attempts st1) = (r, st')"
    using assms unfolding run_with_reconnect_def pl by (cases pr) simp_all
  then have "state_reaches st1 st' \<and> (\<forall>e. r \<noteq> Err e)"
    using reconnect_loop_reaches[of chk now k1 250 attempts st1 r st']
      reconnect_loop_reaches[of chk now "k1 - 1" 250 attempts st1 r st']
    by (cases pr) (auto split: if_splits)
  then show ?thesis using packet_loop_reaches[OF pl] state_reaches_trans by blast
qed

text \<open>What is reachable from a run is a run.\<close>

lemma state_reaches_runs:
  assumes "state_reaches (store_run ops, Some (capture_run cap cops)) st"
  shows "(\<exists>ops'. fst st = store_run ops') \<and> (\<exists>cops'. snd st = Some (capture_run cap cops'))"
proof -
  have "store_run (ops @ o') = fold store_step o' (store_run ops)" for o' by (simp add: store_run_def)
  moreover have "capture_run cap (cops @ o') = fold capture_step o' (capture_run cap cops)" for o'
    by (simp add: capture_run_def)
  ultimately show ?thesis
    using assms unfolding state_reaches_def fst_conv snd_conv option.map by metis
qed


section \<open>Examples\<close>

lemma le_bytes_4:
  "le_bytes 4 k = [of_nat (k mod 256), of_nat (k div 256 mod 256), of_nat (k div 256 div 256 mod 256),
     of_nat (k div 256 div 256 div 256 mod 256)]"
proof -
  have "(4 :: nat) = Suc (Suc (Suc (Suc 0)))" by simp
  then show ?thesis by (simp only: le_bytes.simps)
qed

lemma word_le_zero: "word_le n (0 :: 'a::len word) = replicate n 0"
proof -
  have "le_bytes n 0 = replicate n 0" by (induction n) simp_all
  then show ?thesis by (simp add: word_le_def)
qed

lemma framed_ex: "framed [Data [16, 0], Data [0, 0, 0, 0, 0], Data (replicate 13 0), Fail TimedOut] [replicate 16 0] 2"
proof -
  have f: "frame (replicate 16 0) = [16, 0, 0, 0] @ replicate 16 0"
    by (simp add: frame_def word_le_def le_bytes_4)
  have "framed ([Data [16, 0], Data [0, 0, 0, 0, 0], Data (replicate 13 0)] @ Fail TimedOut # []) ([replicate 16 0] @ []) (length [replicate 16 (0::u8)] + 1 + length ([] :: bytes list))"
  proof (rule framed_idle)
    show "clean [Data [16, 0], Data [0, 0, 0, 0, 0], Data (replicate 13 0)]" by (simp add: clean_def)
    show "content [Data [16, 0], Data [0, 0, 0, 0, 0], Data (replicate 13 0)] = concat (map frame [replicate 16 0])"
    proof -
      have "replicate 16 (0 :: u8) = [0, 0, 0] @ replicate 13 0"
        using replicate_add[of 3 13 "0 :: u8"] by (simp add: numeral_3_eq_3)
      with f have "frame (replicate 16 0) = [16, 0, 0, 0, 0, 0, 0] @ replicate 13 0" by simp
      then show ?thesis by simp
    qed
    show "framed [] [] (length ([] :: bytes list))" by (rule framed_end) (simp_all add: clean_def)
  qed simp
  then show ?thesis by (simp add: numeral_2_eq_2)
qed

theorem packet_loop_delivers_witness:
  "packet_loop True Map.empty 0 5 [Data [16, 0], Data [0, 0, 0, 0, 0], Data (replicate 13 0), Fail TimedOut] (store_new, None)
    = (Err IE_Closed, (store_new, None), 2)"
proof -
  have w: "wire_packet 0 0 [] = replicate 16 0"
    by (simp add: wire_packet_def wire_payload_def word_le_zero flip: replicate_add)
  have "decode_packet (replicate 16 0) = Ok \<lparr>pk_header = \<lparr>ph_entry_count = 0, ph_flags = 0, ph_payload_size = 0, ph_dropped = 0\<rparr>, pk_entries = []\<rparr>"
    using decode_wire_packet_raw[of "[]" 0 0] unfolding w by (simp add: packable_def wire_payload_def)
  then have "ingest_all True Map.empty 0 [replicate 16 0] (store_new, None) = Ok (store_new, None)"
    by (simp add: dispatch_entries_def capture_packet_def)
  from packet_loop_delivers[OF framed_ex _ this, of 5] show ?thesis by simp
qed

theorem pause_after_prefix_disconnects_witness:
  "packet_loop True Map.empty 0 1 [Data (word_le 4 (of_nat (length [7 :: u8]) :: u32)), Fail TimedOut, Data [7]] (store_new, None)
    = (Err (IE_Io TimedOut), (store_new, None), 0)"
  using pause_after_prefix_disconnects[of "[7]" True Map.empty 0 0 "(store_new, None)"] by simp

end
