(* ===== verification/Ids.thy ===== *)
theory Ids
  imports Strings
begin

text \<open>
  The contract of a counter that hands out identifiers. The plot registry and the two counters of a
  marker set (markers and links) all work this way: a step issues the current value of a 64-bit
  counter and increments it, or issues nothing and leaves the counter alone; the live identifiers
  after the step are among the ones before it and the one issued. The increment wraps around, so
  the facts hold for fewer than \<open>2 ^ 64\<close> identifiers issued.
\<close>

section \<open>Running a list of operations\<close>

text \<open>The identifiers issued along a run, in order, and the final state.\<close>

fun issue_run :: "('op \<Rightarrow> 's \<Rightarrow> u64 option \<times> 's) \<Rightarrow> 'op list \<Rightarrow> 's \<Rightarrow> u64 list \<times> 's" where
  "issue_run step [] s = ([], s)"
| "issue_run step (op # ops) s =
     (let (i, s1) = step op s; (is, s2) = issue_run step ops s1 in
      ((case i of None \<Rightarrow> [] | Some x \<Rightarrow> [x]) @ is, s2))"

lemma issue_run_append:
  "issue_run step (xs @ ys) s =
     (let (is, s1) = issue_run step xs s; (js, s2) = issue_run step ys s1 in (is @ js, s2))"
  by (induction xs arbitrary: s) (simp_all add: split_beta Let_def)

section \<open>The contract\<close>

locale id_source =
  fixes step :: "'op \<Rightarrow> 's \<Rightarrow> u64 option \<times> 's"
    and counter :: "'s \<Rightarrow> u64"
    and live :: "'s \<Rightarrow> u64 set"
  assumes issues: "fst (step op s) = Some i \<Longrightarrow>
      i = counter s \<and> counter (snd (step op s)) = counter s + 1
      \<and> live (snd (step op s)) \<subseteq> insert i (live s)"
    and keeps: "fst (step op s) = None \<Longrightarrow>
      counter (snd (step op s)) = counter s \<and> live (snd (step op s)) \<subseteq> live s"
begin

definition below :: "'s \<Rightarrow> bool" where
  "below s \<longleftrightarrow> (\<forall>i\<in>live s. unat i < unat (counter s))"

lemma counter_not_live: "below s \<Longrightarrow> counter s \<notin> live s"
  by (auto simp: below_def)

lemma unat_succ: "unat (w :: u64) + 1 < 2 ^ 64 \<Longrightarrow> unat (w + 1) = unat w + 1"
  by (subst unat_add_lem[THEN iffD1]) (simp_all add: unat_1)

lemma step_below:
  assumes "below s" and "unat (counter s) + 1 < 2 ^ 64"
  shows "below (snd (step op s))"
proof (cases "fst (step op s)")
  case None
  then show ?thesis using keeps[OF None] assms(1) by (auto simp: below_def)
next
  case (Some i)
  have i: "i = counter s" "counter (snd (step op s)) = counter s + 1"
    and l: "live (snd (step op s)) \<subseteq> insert i (live s)"
    using issues[OF Some] by blast+
  show ?thesis unfolding below_def
  proof
    fix j assume "j \<in> live (snd (step op s))"
    then have "j = counter s \<or> j \<in> live s" using i l by blast
    then have "unat j \<le> unat (counter s)" using assms(1) by (auto simp: below_def)
    then show "unat j < unat (counter (snd (step op s)))"
      using i(2) unat_succ[OF assms(2)] by simp
  qed
qed

lemma step_counter:
  assumes "unat (counter s) + 1 < 2 ^ 64"
  shows "unat (counter (snd (step op s))) =
    unat (counter s) + (case fst (step op s) of None \<Rightarrow> 0 | Some _ \<Rightarrow> 1)"
  using issues[of op s] keeps[of op s] unat_succ[OF assms] by (cases "fst (step op s)") simp_all

text \<open>Along a run the identifiers issued are the consecutive values of the counter.\<close>

lemma run_ids:
  assumes "below s" and "unat (counter s) + length ops < 2 ^ 64"
    and "issue_run step ops s = (is, s')"
  shows "below s'" and "map unat is = [unat (counter s) ..< unat (counter s) + length is]"
    and "unat (counter s') = unat (counter s) + length is" and "live s' \<subseteq> live s \<union> set is"
proof -
  have "below s' \<and> map unat is = [unat (counter s) ..< unat (counter s) + length is]
      \<and> unat (counter s') = unat (counter s) + length is \<and> live s' \<subseteq> live s \<union> set is"
    using assms
  proof (induction ops arbitrary: s "is")
    case (Cons op ops)
    obtain i s1 where st: "step op s = (i, s1)" by (cases "step op s")
    obtain js t where r0: "issue_run step ops s1 = (js, t)" by (cases "issue_run step ops s1")
    have is_eq: "is = (case i of None \<Rightarrow> [] | Some x \<Rightarrow> [x]) @ js" and "t = s'"
      using Cons.prems(3) st r0 by simp_all
    then have r: "issue_run step ops s1 = (js, s')" using r0 by simp
    have b: "unat (counter s) + 1 < 2 ^ 64" using Cons.prems(2) by simp
    have b1: "below s1" using step_below[OF Cons.prems(1) b, of op] st by simp
    have c1: "unat (counter s1) = unat (counter s) + (case i of None \<Rightarrow> 0 | Some _ \<Rightarrow> 1)"
      using step_counter[OF b, of op] st by simp
    then have "unat (counter s1) + length ops < 2 ^ 64"
      using Cons.prems(2) by (auto split: option.splits)
    note IH = Cons.IH[OF b1 this r]
    show ?case
    proof (cases i)
      case None
      then show ?thesis using IH c1 is_eq keeps[of op s] st by auto
    next
      case (Some x)
      have x: "x = counter s" "live s1 \<subseteq> insert x (live s)" using issues[of op s x] st Some by auto
      have "[unat (counter s) ..< unat (counter s) + length is] =
          unat (counter s) # [unat (counter s) + 1 ..< unat (counter s) + 1 + length js]"
        using Some is_eq by (simp add: upt_rec)
      then show ?thesis using IH c1 is_eq Some x by auto
    qed
  qed simp
  then show "below s'" and "map unat is = [unat (counter s) ..< unat (counter s) + length is]"
    and "unat (counter s') = unat (counter s) + length is" and "live s' \<subseteq> live s \<union> set is" by blast+
qed

lemma run_fresh:
  assumes "below s" and "unat (counter s) + length ops < 2 ^ 64"
    and "issue_run step ops s = (is, s')"
  shows "distinct is" and "set is \<inter> live s = {}" and "counter s' \<notin> live s'"
proof -
  note r = run_ids[OF assms]
  have "distinct (map unat is)" by (subst r(2)) simp
  then show "distinct is" by (simp add: distinct_map)
  show "set is \<inter> live s = {}"
  proof (rule ccontr)
    assume "set is \<inter> live s \<noteq> {}"
    then obtain i where i: "i \<in> set is" "i \<in> live s" by blast
    then have "unat i \<in> set (map unat is)" by simp
    then have "unat (counter s) \<le> unat i" by (subst (asm) r(2)) simp
    then show False using i(2) assms(1) by (auto simp: below_def)
  qed
  show "counter s' \<notin> live s'" using counter_not_live[OF r(1)] .
qed

end

end
