(* ===== verification/Panels.thy ===== *)
theory Panels
  imports Ids Store
begin

text \<open>
  The plot panes of the viewer (first half of \<open>viewer/crates/btelem-viewer/src/view_state.rs\<close>): the
  four kinds of panel with their edits, the column filters of a log view, the registry that owns the
  panels under stable ids, the drop hints and \<open>try_move_channel\<close>.
\<close>

named_theorems panel_defs \<open>definitions of the panel operations\<close>

section \<open>Panels\<close>

type_synonym plot_id = u64

datatype label_radix = Dec | Hex | Bin
datatype lane_mode = Named | Numeric
datatype line_style = Line | Step | Points | PointsLine
datatype line_width = Thin | Medium | Thick

record signal_style =
  ss_line :: line_style
  ss_width :: line_width
  ss_envelope :: bool

definition signal_style_default :: signal_style where
  "signal_style_default = \<lparr>ss_line = Step, ss_width = Medium, ss_envelope = False\<rparr>"

record scalar_panel =
  sp_title :: string
  sp_channels :: "channel_id list"
  sp_styles :: "(channel_id, signal_style) hashmap"
  sp_selected_signals :: "channel_id set"

record logic_lane =
  ll_ch :: channel_id
  ll_mode :: lane_mode
  ll_radix :: label_radix

record logic_analyser_panel =
  lp_title :: string
  lp_lanes :: "logic_lane list"

datatype filter_value = FV_Text string | FV_Num f64

datatype column_filter =
    CF_Text string bool
  | CF_Range "f64 option" "f64 option"
  | CF_EnumSet "u32 set"

record log_view_panel =
  lv_title :: string
  lv_group :: string
  lv_columns :: "channel_id list"
  lv_visible :: "usize list"
  lv_filters :: "(channel_id, column_filter) hashmap"
  lv_color_by :: "channel_id option"
  lv_priority_by :: "channel_id option"
  lv_max_rows :: usize

record xy_plot =
  xy_title :: string
  xy_x :: channel_id
  xy_y :: channel_id
  xy_trail_ns :: "u64 option"

datatype plot_kind =
    PK_Scalar scalar_panel
  | PK_LogicAnalyser logic_analyser_panel
  | PK_LogView log_view_panel
  | PK_XY xy_plot

definition LOG_VIEW_DEFAULT_MAX_ROWS :: usize where
  "LOG_VIEW_DEFAULT_MAX_ROWS = 1000"

fun requires_labels :: "lane_mode \<Rightarrow> bool" where
  "requires_labels Named = True"
| "requires_labels Numeric = False"

fun is_scalar_kind :: "channel_kind \<Rightarrow> bool" where
  "is_scalar_kind CK_Scalar = True"
| "is_scalar_kind _ = False"

fun is_state_kind :: "channel_kind \<Rightarrow> bool" where
  "is_state_kind (CK_State _) = True"
| "is_state_kind _ = False"

definition channel_has_labels :: "channel_info \<Rightarrow> bool" where
  "channel_has_labels ch = is_state_kind (ci_kind ch)"

section \<open>Column filters\<close>

fun accepts_filter :: "column_filter \<Rightarrow> filter_value option \<Rightarrow> bool" where
  "accepts_filter (CF_Text needle case_sensitive) value =
     (if str_trim needle = [] then True
      else case value of
             Some (FV_Text s) \<Rightarrow>
               if case_sensitive then str_contains s needle
               else str_contains (to_ascii_lowercase s) (to_ascii_lowercase needle)
           | _ \<Rightarrow> False)"
| "accepts_filter (CF_Range mn mx) value =
     (case value of
        Some (FV_Num n) \<Rightarrow>
          (case mn of Some lo \<Rightarrow> \<not> f64_lt n lo | None \<Rightarrow> True) \<and>
          (case mx of Some hi \<Rightarrow> \<not> f64_lt hi n | None \<Rightarrow> True)
      | _ \<Rightarrow> False)"
| "accepts_filter (CF_EnumSet allowed) value =
     (case value of Some (FV_Num n) \<Rightarrow> f64_to_u32 n \<in> allowed | _ \<Rightarrow> False)"

fun filter_is_active :: "column_filter \<Rightarrow> bool" where
  "filter_is_active (CF_Text needle _) = (str_trim needle \<noteq> [])"
| "filter_is_active (CF_Range mn mx) = (mn \<noteq> None \<or> mx \<noteq> None)"
| "filter_is_active (CF_EnumSet _) = True"

section \<open>Editing panels\<close>

definition scalar_panel_new :: "string \<Rightarrow> scalar_panel" where
  "scalar_panel_new title =
     \<lparr>sp_title = title, sp_channels = [], sp_styles = [], sp_selected_signals = {}\<rparr>"

definition scalar_panel_add :: "channel_info \<Rightarrow> scalar_panel \<Rightarrow> bool \<times> scalar_panel" where
  [panel_defs]: "scalar_panel_add ch p =
     (if \<not> is_scalar_kind (ci_kind ch) then (False, p)
      else if ci_id ch \<in> set (sp_channels p) then (False, p)
      else let styles =
             (case sp_channels p of
                [] \<Rightarrow> sp_styles p
              | first # _ \<Rightarrow>
                  (case hm_get (sp_styles p) first of
                     None \<Rightarrow> sp_styles p
                   | Some style \<Rightarrow> hm_insert (ci_id ch) style (sp_styles p)))
           in (True, p\<lparr>sp_styles := styles, sp_channels := sp_channels p @ [ci_id ch]\<rparr>))"

definition scalar_panel_remove :: "channel_id \<Rightarrow> scalar_panel \<Rightarrow> scalar_panel" where
  [panel_defs]: "scalar_panel_remove cid p =
     p\<lparr>sp_channels := filter (\<lambda>x. x \<noteq> cid) (sp_channels p), sp_styles := hm_remove cid (sp_styles p)\<rparr>"

definition style_for :: "scalar_panel \<Rightarrow> channel_id \<Rightarrow> signal_style" where
  "style_for p ch = unwrap_or signal_style_default (hm_get (sp_styles p) ch)"

text \<open>\<open>*p.style_for_mut(ch) = style\<close>.\<close>

definition set_style :: "channel_id \<Rightarrow> signal_style \<Rightarrow> scalar_panel \<Rightarrow> scalar_panel" where
  "set_style ch style p = p\<lparr>sp_styles := hm_insert ch style (sp_styles p)\<rparr>"

definition styles_iter :: "scalar_panel \<Rightarrow> (channel_id \<times> signal_style) list" where
  "styles_iter p = sp_styles p"

definition scalar_panel_is_empty :: "scalar_panel \<Rightarrow> bool" where
  "scalar_panel_is_empty p \<longleftrightarrow> sp_channels p = []"

definition accepts_logic :: "channel_info \<Rightarrow> bool" where
  "accepts_logic ch \<longleftrightarrow>
     is_state_kind (ci_kind ch) \<or> is_scalar_kind (ci_kind ch) \<and> ci_integer_storage ch"

fun default_lane_mode :: "channel_kind \<Rightarrow> bool \<Rightarrow> lane_mode" where
  "default_lane_mode (CK_State _) _ = Named"
| "default_lane_mode CK_Scalar _ = Numeric"
| "default_lane_mode CK_Text _ = Numeric"

definition logic_panel_new :: "string \<Rightarrow> logic_analyser_panel" where
  "logic_panel_new title = \<lparr>lp_title = title, lp_lanes = []\<rparr>"

definition logic_panel_add :: "channel_info \<Rightarrow> logic_analyser_panel \<Rightarrow> bool \<times> logic_analyser_panel" where
  [panel_defs]: "logic_panel_add ch p =
     (if \<not> accepts_logic ch then (False, p)
      else if list_ex (\<lambda>l. ll_ch l = ci_id ch) (lp_lanes p) then (False, p)
      else (True, p\<lparr>lp_lanes := lp_lanes p @
              [\<lparr>ll_ch = ci_id ch, ll_mode = default_lane_mode (ci_kind ch) (ci_integer_storage ch),
                ll_radix = Hex\<rparr>]\<rparr>))"

definition logic_panel_remove :: "channel_id \<Rightarrow> logic_analyser_panel \<Rightarrow> logic_analyser_panel" where
  [panel_defs]: "logic_panel_remove cid p = p\<lparr>lp_lanes := filter (\<lambda>l. ll_ch l \<noteq> cid) (lp_lanes p)\<rparr>"

text \<open>The first lane of a channel, as \<open>iter_mut().find\<close> reaches it, changed in place.\<close>

fun lane_update :: "channel_id \<Rightarrow> (logic_lane \<Rightarrow> logic_lane) \<Rightarrow> logic_lane list \<Rightarrow> logic_lane list" where
  "lane_update cid f [] = []"
| "lane_update cid f (l # ls) = (if ll_ch l = cid then f l # ls else l # lane_update cid f ls)"

text \<open>\<open>if let Some(slot) = p.radix_for_mut(id) { *slot = r }\<close>, and the same for the mode.\<close>

definition set_radix :: "channel_id \<Rightarrow> label_radix \<Rightarrow> logic_analyser_panel \<Rightarrow> logic_analyser_panel" where
  [panel_defs]: "set_radix cid r p = p\<lparr>lp_lanes := lane_update cid (ll_radix_update (\<lambda>_. r)) (lp_lanes p)\<rparr>"

definition set_mode :: "channel_id \<Rightarrow> lane_mode \<Rightarrow> logic_analyser_panel \<Rightarrow> logic_analyser_panel" where
  [panel_defs]: "set_mode cid m p = p\<lparr>lp_lanes := lane_update cid (ll_mode_update (\<lambda>_. m)) (lp_lanes p)\<rparr>"

definition logic_panel_is_empty :: "logic_analyser_panel \<Rightarrow> bool" where
  "logic_panel_is_empty p \<longleftrightarrow> lp_lanes p = []"

definition log_view_new :: "string \<Rightarrow> string \<Rightarrow> log_view_panel" where
  "log_view_new title grp =
     \<lparr>lv_title = title, lv_group = grp, lv_columns = [], lv_visible = [], lv_filters = [],
      lv_color_by = None, lv_priority_by = None, lv_max_rows = LOG_VIEW_DEFAULT_MAX_ROWS\<rparr>"

section \<open>Plots of every kind\<close>

fun plot_title :: "plot_kind \<Rightarrow> string" where
  "plot_title (PK_Scalar p) = sp_title p"
| "plot_title (PK_LogicAnalyser p) = lp_title p"
| "plot_title (PK_LogView p) = lv_title p"
| "plot_title (PK_XY p) = xy_title p"

text \<open>\<open>*plot.title_mut() = title\<close>.\<close>

fun set_title :: "string \<Rightarrow> plot_kind \<Rightarrow> plot_kind" where
  "set_title t (PK_Scalar p) = PK_Scalar (p\<lparr>sp_title := t\<rparr>)"
| "set_title t (PK_LogicAnalyser p) = PK_LogicAnalyser (p\<lparr>lp_title := t\<rparr>)"
| "set_title t (PK_LogView p) = PK_LogView (p\<lparr>lv_title := t\<rparr>)"
| "set_title t (PK_XY p) = PK_XY (p\<lparr>xy_title := t\<rparr>)"

fun plot_accepts :: "plot_kind \<Rightarrow> channel_info \<Rightarrow> bool" where
  "plot_accepts (PK_Scalar _) ch = is_scalar_kind (ci_kind ch)"
| "plot_accepts (PK_LogicAnalyser _) ch = accepts_logic ch"
| "plot_accepts (PK_LogView _) ch = False"
| "plot_accepts (PK_XY _) ch = is_scalar_kind (ci_kind ch)"

section \<open>The registry\<close>

record plot_registry =
  pr_plots :: "(plot_id, plot_kind) hashmap"
  pr_next_id :: u64

definition registry_new :: plot_registry where
  "registry_new = \<lparr>pr_plots = [], pr_next_id = 0\<rparr>"

definition registry_insert :: "plot_kind \<Rightarrow> plot_registry \<Rightarrow> plot_id \<times> plot_registry" where
  "registry_insert kind r =
     (pr_next_id r, r\<lparr>pr_next_id := pr_next_id r + 1, pr_plots := hm_insert (pr_next_id r) kind (pr_plots r)\<rparr>)"

definition registry_get :: "plot_registry \<Rightarrow> plot_id \<Rightarrow> plot_kind option" where
  "registry_get r pid = hm_get (pr_plots r) pid"

definition registry_remove :: "plot_id \<Rightarrow> plot_registry \<Rightarrow> plot_kind option \<times> plot_registry" where
  "registry_remove pid r = (registry_get r pid, r\<lparr>pr_plots := hm_remove pid (pr_plots r)\<rparr>)"

text \<open>\<open>if let Some(plot) = plots.get_mut(id) { ... }\<close>: the plot of an id changed in place.\<close>

definition registry_modify :: "plot_id \<Rightarrow> (plot_kind \<Rightarrow> plot_kind) \<Rightarrow> plot_registry \<Rightarrow> plot_registry" where
  "registry_modify pid f r =
     r\<lparr>pr_plots := map (\<lambda>(k, v). (k, if k = pid then f v else v)) (pr_plots r)\<rparr>"

definition registry_len :: "plot_registry \<Rightarrow> usize" where
  "registry_len r = length (pr_plots r)"

definition registry_is_empty :: "plot_registry \<Rightarrow> bool" where
  "registry_is_empty r \<longleftrightarrow> pr_plots r = []"

definition registry_iter_ids :: "plot_registry \<Rightarrow> plot_id list" where
  "registry_iter_ids r = map fst (pr_plots r)"

definition registry_iter :: "plot_registry \<Rightarrow> (plot_id \<times> plot_kind) list" where
  "registry_iter r = pr_plots r"

section \<open>Drag and drop\<close>

datatype drag_payload =
    DP_Channel channel_id
  | DP_Channels "channel_id list"
  | DP_Group string "channel_id list"
  | DP_XYSeed channel_id

datatype drop_tint = Accept | Reject

fun tint_for_drop :: "drag_payload \<Rightarrow> plot_kind \<Rightarrow> (channel_id \<rightharpoonup> channel_info) \<Rightarrow> drop_tint option" where
  "tint_for_drop (DP_Channel ch) plot by_id =
     (case by_id ch of
        None \<Rightarrow> None
      | Some info \<Rightarrow> Some (if plot_accepts plot info then Accept else Reject))"
| "tint_for_drop (DP_Channels chs) plot by_id =
     Some (if list_ex (\<lambda>c. case by_id c of None \<Rightarrow> False | Some i \<Rightarrow> plot_accepts plot i) chs
           then Accept else Reject)"
| "tint_for_drop (DP_Group _ _) plot by_id = None"
| "tint_for_drop (DP_XYSeed _) plot by_id = None"

text \<open>What \<open>try_move_channel\<close> does to the destination and to the source.\<close>

fun move_in :: "channel_id \<Rightarrow> channel_info \<Rightarrow> label_radix option \<Rightarrow> plot_kind \<Rightarrow> plot_kind" where
  "move_in ch info radix (PK_Scalar p) = PK_Scalar (snd (scalar_panel_add info p))"
| "move_in ch info radix (PK_LogicAnalyser p) =
     (let p' = snd (logic_panel_add info p) in
      PK_LogicAnalyser (case radix of None \<Rightarrow> p' | Some r \<Rightarrow> set_radix ch r p'))"
| "move_in ch info radix (PK_LogView p) = PK_LogView p"
| "move_in ch info radix (PK_XY p) = PK_XY p"

fun move_out :: "channel_id \<Rightarrow> plot_kind \<Rightarrow> plot_kind" where
  "move_out ch (PK_Scalar p) = PK_Scalar (scalar_panel_remove ch p)"
| "move_out ch (PK_LogicAnalyser p) = PK_LogicAnalyser (logic_panel_remove ch p)"
| "move_out ch (PK_LogView p) = PK_LogView p"
| "move_out ch (PK_XY p) = PK_XY p"

definition try_move_channel :: "plot_id \<Rightarrow> plot_id \<Rightarrow> channel_id \<Rightarrow> channel_info \<Rightarrow> label_radix option
    \<Rightarrow> plot_registry \<Rightarrow> bool \<times> plot_registry" where
  "try_move_channel src dst ch info radix plots =
     (if src = dst then (False, plots)
      else if \<not> (case registry_get plots dst of None \<Rightarrow> False | Some k \<Rightarrow> plot_accepts k info)
      then (False, plots)
      else (True, registry_modify src (move_out ch) (registry_modify dst (move_in ch info radix) plots)))"

section \<open>State lanes\<close>

definition STATE_LABEL_TEXT_LIMIT :: usize where
  "STATE_LABEL_TEXT_LIMIT = 16"

datatype state_lane_mode = Labels | Heatmap

definition state_lane_mode :: "usize \<Rightarrow> state_lane_mode" where
  "state_lane_mode d = (if STATE_LABEL_TEXT_LIMIT < d then Heatmap else Labels)"

section \<open>Invariants of panels\<close>

text \<open>The channels a panel shows, in order.\<close>

fun panel_channels :: "plot_kind \<Rightarrow> channel_id list" where
  "panel_channels (PK_Scalar p) = sp_channels p"
| "panel_channels (PK_LogicAnalyser p) = map ll_ch (lp_lanes p)"
| "panel_channels (PK_LogView p) = lv_columns p"
| "panel_channels (PK_XY p) = [xy_x p, xy_y p]"

text \<open>
  No channel twice in a scalar or logic panel; a scalar panel holds scalars only, a logic panel only
  states and integer-backed scalars, and a lane drawn with names has names to draw; the axes of an
  XY plot are scalars. The kinds are those of the channels of the store (\<open>by_id\<close>).
\<close>

fun panel_ok :: "(channel_id \<rightharpoonup> channel_info) \<Rightarrow> plot_kind \<Rightarrow> bool" where
  "panel_ok by_id (PK_Scalar p) \<longleftrightarrow>
     distinct (sp_channels p) \<and> hm_ok (sp_styles p) \<and>
     (\<forall>c\<in>set (sp_channels p). \<exists>i. by_id c = Some i \<and> is_scalar_kind (ci_kind i))"
| "panel_ok by_id (PK_LogicAnalyser p) \<longleftrightarrow>
     distinct (map ll_ch (lp_lanes p)) \<and>
     (\<forall>l\<in>set (lp_lanes p). \<exists>i. by_id (ll_ch l) = Some i \<and> accepts_logic i
        \<and> (requires_labels (ll_mode l) \<longrightarrow> channel_has_labels i))"
| "panel_ok by_id (PK_LogView p) \<longleftrightarrow> hm_ok (lv_filters p)"
| "panel_ok by_id (PK_XY p) \<longleftrightarrow>
     (\<forall>c\<in>{xy_x p, xy_y p}. \<exists>i. by_id c = Some i \<and> is_scalar_kind (ci_kind i))"

definition registry_ok :: "(channel_id \<rightharpoonup> channel_info) \<Rightarrow> plot_registry \<Rightarrow> bool" where
  "registry_ok by_id r \<longleftrightarrow> hm_ok (pr_plots r) \<and> (\<forall>k\<in>snd ` set (pr_plots r). panel_ok by_id k)"

lemma lane_update_ch:
  "(\<And>l. ll_ch (f l) = ll_ch l) \<Longrightarrow> map ll_ch (lane_update cid f ls) = map ll_ch ls"
  by (induction ls) auto

lemma lane_update_set:
  "l \<in> set (lane_update cid f ls) \<Longrightarrow> l \<in> set ls \<or> (\<exists>l0\<in>set ls. ll_ch l0 = cid \<and> l = f l0)"
  by (induction ls) (auto split: if_splits)

lemma default_lane_mode_labels:
  "accepts_logic i \<Longrightarrow> requires_labels (default_lane_mode (ci_kind i) b) \<Longrightarrow> channel_has_labels i"
  by (cases "ci_kind i") (simp_all add: channel_has_labels_def)

lemma scalar_panel_add_ok:
  assumes "panel_ok by_id (PK_Scalar p)" and "by_id (ci_id info) = Some info"
  shows "panel_ok by_id (PK_Scalar (snd (scalar_panel_add info p)))"
  using assms by (auto simp: scalar_panel_add_def Let_def split: list.splits option.splits)

lemma logic_panel_add_ok:
  assumes "panel_ok by_id (PK_LogicAnalyser p)" and "by_id (ci_id info) = Some info"
  shows "panel_ok by_id (PK_LogicAnalyser (snd (logic_panel_add info p)))"
  using assms default_lane_mode_labels
  by (auto simp: logic_panel_add_def list_ex_iff)

lemma scalar_panel_remove_ok:
  "panel_ok by_id (PK_Scalar p) \<Longrightarrow> panel_ok by_id (PK_Scalar (scalar_panel_remove ch p))"
  by (auto simp: scalar_panel_remove_def)

lemma logic_panel_remove_ok:
  "panel_ok by_id (PK_LogicAnalyser p) \<Longrightarrow> panel_ok by_id (PK_LogicAnalyser (logic_panel_remove ch p))"
  by (auto simp: logic_panel_remove_def distinct_map_filter)

lemma set_radix_ok:
  "panel_ok by_id (PK_LogicAnalyser p) \<Longrightarrow> panel_ok by_id (PK_LogicAnalyser (set_radix ch r p))"
  by (auto simp: set_radix_def lane_update_ch dest!: lane_update_set)

lemma set_mode_ok:
  assumes "panel_ok by_id (PK_LogicAnalyser p)"
    and "requires_labels m \<Longrightarrow> \<exists>i. by_id ch = Some i \<and> channel_has_labels i"
  shows "panel_ok by_id (PK_LogicAnalyser (set_mode ch m p))"
proof -
  have "\<exists>i. by_id (ll_ch l) = Some i \<and> accepts_logic i
      \<and> (requires_labels (ll_mode l) \<longrightarrow> channel_has_labels i)"
    if "l \<in> set (lane_update ch (ll_mode_update (\<lambda>_. m)) (lp_lanes p))" for l
    using lane_update_set[OF that] assms by fastforce
  then show ?thesis using assms(1) by (simp add: set_mode_def lane_update_ch)
qed

lemma move_in_ok:
  assumes "panel_ok by_id k" and "by_id (ci_id info) = Some info"
  shows "panel_ok by_id (move_in ch info radix k)"
proof (cases k)
  case (PK_LogicAnalyser p)
  then show ?thesis
    using logic_panel_add_ok[of by_id p info] set_radix_ok assms
    by (cases radix) (auto simp: Let_def simp del: panel_ok.simps)
qed (use assms scalar_panel_add_ok in \<open>auto simp del: panel_ok.simps(1)\<close>)

lemma move_out_ok: "panel_ok by_id k \<Longrightarrow> panel_ok by_id (move_out ch k)"
  by (cases k) (auto simp del: panel_ok.simps(1,2) intro: scalar_panel_remove_ok logic_panel_remove_ok)

section \<open>The registry as a map\<close>

lemma registry_get_modify:
  "registry_get (registry_modify pid f r) j =
     (if j = pid then map_option f (registry_get r j) else registry_get r j)"
proof -
  have "map_of (map (\<lambda>(k, v). (k, if k = pid then f v else v)) m) j =
      (if j = pid then map_option f (map_of m j) else map_of m j)" for m
    by (induction m) auto
  then show ?thesis by (simp add: registry_get_def registry_modify_def)
qed

lemma registry_get_insert:
  "registry_get (snd (registry_insert k r)) j = (if j = fst (registry_insert k r) then Some k else registry_get r j)"
  by (simp add: registry_get_def registry_insert_def)

lemma registry_get_remove:
  "registry_get (snd (registry_remove pid r)) j = (if j = pid then None else registry_get r j)"
  by (simp add: registry_get_def registry_remove_def)

lemma registry_ok_get: "registry_ok by_id r \<Longrightarrow> registry_get r pid = Some k \<Longrightarrow> panel_ok by_id k"
  by (auto simp: registry_ok_def registry_get_def dest: map_of_SomeD)

lemma registry_ok_insert: "registry_ok by_id r \<Longrightarrow> panel_ok by_id k \<Longrightarrow> registry_ok by_id (snd (registry_insert k r))"
proof -
  assume a: "registry_ok by_id r" "panel_ok by_id k"
  have "panel_ok by_id v" if "v \<in> snd ` set (AList.update i k m)" "\<forall>v\<in>snd ` set m. panel_ok by_id v"
    for v i and m :: "(plot_id, plot_kind) hashmap"
    using that a(2) by (induction m) (auto split: if_splits)
  then show ?thesis using a by (auto simp: registry_ok_def registry_insert_def)
qed

lemma registry_ok_remove: "registry_ok by_id r \<Longrightarrow> registry_ok by_id (snd (registry_remove pid r))"
  by (auto simp: registry_ok_def registry_remove_def AList.delete_eq distinct_map_filter)

lemma registry_ok_modify:
  assumes "registry_ok by_id r" and "\<And>k. panel_ok by_id k \<Longrightarrow> panel_ok by_id (f k)"
  shows "registry_ok by_id (registry_modify pid f r)"
proof -
  have "map (fst \<circ> (\<lambda>(k, v). (k, if k = pid then f v else v))) m = map fst m" for m
    by (induction m) auto
  with assms show ?thesis by (auto simp: registry_ok_def registry_modify_def simp del: map_eq_conv)
qed

section \<open>Sequences of edits\<close>

text \<open>The edits of the user interface, each by the function the code calls for it.\<close>

datatype panel_op =
    PO_Insert plot_kind
  | PO_Remove plot_id
  | PO_Title plot_id string
  | PO_Drop plot_id channel_info
  | PO_RemoveChannel plot_id channel_id
  | PO_Style plot_id channel_id signal_style
  | PO_Radix plot_id channel_id label_radix
  | PO_Mode plot_id channel_id lane_mode
  | PO_Move plot_id plot_id channel_id channel_info "label_radix option"

fun on_scalar :: "(scalar_panel \<Rightarrow> scalar_panel) \<Rightarrow> plot_kind \<Rightarrow> plot_kind" where
  "on_scalar f (PK_Scalar p) = PK_Scalar (f p)"
| "on_scalar f k = k"

fun on_logic :: "(logic_analyser_panel \<Rightarrow> logic_analyser_panel) \<Rightarrow> plot_kind \<Rightarrow> plot_kind" where
  "on_logic f (PK_LogicAnalyser p) = PK_LogicAnalyser (f p)"
| "on_logic f k = k"

fun panel_step :: "panel_op \<Rightarrow> plot_registry \<Rightarrow> u64 option \<times> plot_registry" where
  "panel_step (PO_Insert k) r = (let (pid, r') = registry_insert k r in (Some pid, r'))"
| "panel_step (PO_Remove pid) r = (None, snd (registry_remove pid r))"
| "panel_step (PO_Title pid t) r = (None, registry_modify pid (set_title t) r)"
| "panel_step (PO_Drop pid info) r = (None, registry_modify pid (move_in (ci_id info) info None) r)"
| "panel_step (PO_RemoveChannel pid ch) r = (None, registry_modify pid (move_out ch) r)"
| "panel_step (PO_Style pid ch st) r = (None, registry_modify pid (on_scalar (set_style ch st)) r)"
| "panel_step (PO_Radix pid ch x) r = (None, registry_modify pid (on_logic (set_radix ch x)) r)"
| "panel_step (PO_Mode pid ch m) r = (None, registry_modify pid (on_logic (set_mode ch m)) r)"
| "panel_step (PO_Move src dst ch info radix) r = (None, snd (try_move_channel src dst ch info radix r))"

text \<open>What the callers guarantee: channel descriptions come from the store, a plot is created in order,
  and the mode menu offers names only for channels that have them.\<close>

fun panel_op_ok :: "(channel_id \<rightharpoonup> channel_info) \<Rightarrow> panel_op \<Rightarrow> bool" where
  "panel_op_ok by_id (PO_Insert k) = panel_ok by_id k"
| "panel_op_ok by_id (PO_Drop pid info) = (by_id (ci_id info) = Some info)"
| "panel_op_ok by_id (PO_Mode pid ch m) =
     (requires_labels m \<longrightarrow> (case by_id ch of None \<Rightarrow> False | Some i \<Rightarrow> channel_has_labels i))"
| "panel_op_ok by_id (PO_Move src dst ch info radix) = (by_id (ci_id info) = Some info)"
| "panel_op_ok by_id op = True"

lemma set_title_ok: "panel_ok by_id k \<Longrightarrow> panel_ok by_id (set_title t k)"
  by (cases k) simp_all

lemma set_style_ok: "panel_ok by_id k \<Longrightarrow> panel_ok by_id (on_scalar (set_style ch st) k)"
  by (cases k) (simp_all add: set_style_def)

lemma try_move_ok:
  assumes "registry_ok by_id r" and "by_id (ci_id info) = Some info"
  shows "registry_ok by_id (snd (try_move_channel src dst ch info radix r))"
proof -
  have "registry_ok by_id (registry_modify src (move_out ch) (registry_modify dst (move_in ch info radix) r))"
    by (intro registry_ok_modify assms(1) move_out_ok move_in_ok assms(2))
  then show ?thesis using assms(1) by (simp add: try_move_channel_def)
qed

lemma panel_step_ok:
  assumes "registry_ok by_id r" and "panel_op_ok by_id op"
  shows "registry_ok by_id (snd (panel_step op r))"
proof (cases op)
  case (PO_Insert k)
  then show ?thesis using assms registry_ok_insert[of by_id r k] by (simp add: split_beta)
next
  case (PO_Mode pid ch m)
  have "panel_ok by_id (on_logic (set_mode ch m) k)" if "panel_ok by_id k" for k
  proof (cases k)
    case (PK_LogicAnalyser p)
    then show ?thesis
      using that assms(2) PO_Mode set_mode_ok[of by_id p m ch]
      by (auto simp del: panel_ok.simps split: option.splits)
  qed (use that in simp_all)
  then show ?thesis using PO_Mode registry_ok_modify[OF assms(1)] by simp
next
  case (PO_Radix pid ch x)
  have "panel_ok by_id (on_logic (set_radix ch x) k)" if "panel_ok by_id k" for k
    using that set_radix_ok by (cases k) (auto simp del: panel_ok.simps(2))
  then show ?thesis using PO_Radix registry_ok_modify[OF assms(1)] by simp
next
  case (PO_Move src dst ch info radix)
  then show ?thesis using try_move_ok assms by simp
qed (use assms in \<open>auto intro!: registry_ok_modify registry_ok_remove set_title_ok set_style_ok move_in_ok move_out_ok\<close>)

lemma panel_run_ok:
  assumes "registry_ok by_id r" and "\<forall>op\<in>set ops. panel_op_ok by_id op"
  shows "registry_ok by_id (snd (issue_run panel_step ops r))"
  using assms
proof (induction ops arbitrary: r)
  case (Cons op ops)
  then show ?case using panel_step_ok[of by_id r op] by (simp add: split_beta Let_def)
qed simp

lemma registry_new_ok: "registry_ok by_id registry_new"
  by (simp add: registry_ok_def registry_new_def)

lemma registry_modify_keys: "fst ` set (pr_plots (registry_modify pid f r)) = fst ` set (pr_plots r)"
proof -
  have "fst ` set (map (\<lambda>(k, v). (k, if k = pid then f v else v)) m) = fst ` set m" for m
    by (induction m) auto
  then show ?thesis by (simp add: registry_modify_def)
qed

lemma registry_modify_next [simp]: "pr_next_id (registry_modify pid f r) = pr_next_id r"
  by (simp add: registry_modify_def)

lemma try_move_next_keys:
  "pr_next_id (snd (try_move_channel src dst ch info radix r)) = pr_next_id r"
  "fst ` set (pr_plots (snd (try_move_channel src dst ch info radix r))) = fst ` set (pr_plots r)"
  by (simp_all add: try_move_channel_def registry_modify_keys)

interpretation plots: id_source panel_step pr_next_id "\<lambda>r. fst ` set (pr_plots r)"
proof
  fix op r i
  show "fst (panel_step op r) = Some i \<Longrightarrow> i = pr_next_id r
      \<and> pr_next_id (snd (panel_step op r)) = pr_next_id r + 1
      \<and> fst ` set (pr_plots (snd (panel_step op r))) \<subseteq> insert i (fst ` set (pr_plots r))"
    by (cases op) (auto simp: registry_insert_def split_beta hm_keys_insert)
  show "fst (panel_step op r) = None \<Longrightarrow> pr_next_id (snd (panel_step op r)) = pr_next_id r
      \<and> fst ` set (pr_plots (snd (panel_step op r))) \<subseteq> fst ` set (pr_plots r)"
    by (cases op)
      (auto simp: registry_insert_def registry_remove_def AList.delete_eq split_beta
        registry_modify_keys try_move_next_keys)
qed

section \<open>Properties\<close>

text \<open>
  C28. Whatever sequence of edits the interface makes from an empty registry, every panel keeps its
  type: no channel twice, scalar panels and XY axes hold scalars, logic panels hold states and
  integer-backed scalars, lanes drawn with names have names.
\<close>

theorem panels_stay_typed:
  assumes "\<forall>op\<in>set ops. panel_op_ok by_id op"
  shows "registry_ok by_id (snd (issue_run panel_step ops registry_new))"
  using panel_run_ok[OF registry_new_ok assms] .

definition speed_info :: channel_info where
  "speed_info = \<lparr>ci_id = 7, ci_path = ''imu.speed'', ci_kind = CK_Scalar, ci_integer_storage = True\<rparr>"

definition edits_ex :: "panel_op list" where
  "edits_ex = [PO_Insert (PK_Scalar (scalar_panel_new ''a'')), PO_Insert (PK_LogicAnalyser (logic_panel_new ''b'')),
     PO_Drop 0 speed_info, PO_Move 0 1 7 speed_info (Some Dec), PO_Mode 1 7 Numeric]"

theorem panels_stay_typed_witness:
  "registry_ok [7 \<mapsto> speed_info] (snd (issue_run panel_step edits_ex registry_new))"
  by (rule panels_stay_typed)
    (simp add: edits_ex_def scalar_panel_new_def logic_panel_new_def speed_info_def)

text \<open>
  Plot ids are never reused: along any sequence of fewer than \<open>2 ^ 64\<close> edits the ids handed out
  are pairwise different, count up from 0, and the next one is not in use, so a tab of the dock
  never comes to show another plot.
\<close>

theorem plot_ids_fresh:
  assumes "issue_run panel_step ops registry_new = (ids, r)" and "length ops < 2 ^ 64"
  shows "map unat ids = [0 ..< length ids] \<and> distinct ids \<and> registry_get r (pr_next_id r) = None"
proof -
  have b: "plots.below registry_new" "pr_next_id registry_new = 0"
    by (simp_all add: plots.below_def registry_new_def)
  have l: "unat (pr_next_id registry_new) + length ops < 2 ^ 64" using assms(2) b(2) by simp
  note f = plots.run_fresh[OF b(1) l assms(1)] and i = plots.run_ids(2)[OF b(1) l assms(1)]
  show ?thesis using f(1,3) i b(2) by (simp add: registry_get_def map_of_eq_None_iff)
qed

theorem plot_ids_fresh_witness:
  "registry_get (snd (issue_run panel_step edits_ex registry_new)) 2 = None \<and>
   fst (issue_run panel_step edits_ex registry_new) = [0, 1]"
proof -
  have e: "fst (issue_run panel_step edits_ex registry_new) = [0, 1]"
    "pr_next_id (snd (issue_run panel_step edits_ex registry_new)) = 2" by code_simp+
  have "length edits_ex < 2 ^ 64" by (simp add: edits_ex_def)
  with plot_ids_fresh[OF prod.collapse[symmetric]] e show ?thesis by metis
qed

lemma move_in_channels:
  assumes "plot_accepts k info" and "ci_id info = ch" and "\<nexists>p. k = PK_XY p"
  shows "panel_channels (move_in ch info radix k) =
    panel_channels k @ (if ch \<in> set (panel_channels k) then [] else [ch])"
proof (cases k)
  case (PK_Scalar p)
  then show ?thesis using assms by (auto simp: scalar_panel_add_def Let_def)
next
  case (PK_LogicAnalyser p)
  have "map ll_ch (lp_lanes (snd (logic_panel_add info p))) =
      map ll_ch (lp_lanes p) @ (if ch \<in> ll_ch ` set (lp_lanes p) then [] else [ch])"
    using assms PK_LogicAnalyser by (auto simp: logic_panel_add_def list_ex_iff intro: rev_image_eqI)
  then show ?thesis
    using PK_LogicAnalyser by (cases radix) (simp_all add: Let_def set_radix_def lane_update_ch)
qed (use assms in simp_all)

lemma move_out_channels:
  "panel_channels (move_out ch k) =
    (case k of PK_Scalar _ \<Rightarrow> filter (\<lambda>c. c \<noteq> ch) (panel_channels k)
             | PK_LogicAnalyser _ \<Rightarrow> filter (\<lambda>c. c \<noteq> ch) (panel_channels k)
             | _ \<Rightarrow> panel_channels k)"
  by (cases k) (simp_all add: scalar_panel_remove_def logic_panel_remove_def filter_map comp_def)


definition move_ex :: plot_registry where
  "move_ex = snd (issue_run panel_step (take 3 edits_ex) registry_new)"


end
