(* ===== verification/Markers.thy ===== *)
theory Markers
  imports Ids Store
begin

text \<open>
  Markers and the links between them: \<open>MarkerSet\<close> of
  \<open>viewer/crates/btelem-viewer/src/view_state.rs\<close>. The set owns a list of markers, a list of links
  that name markers by id, a selection and two id counters. Under every sequence of its operations
  ids stay unique and no link or selection dangles.
\<close>

section \<open>State\<close>

record marker =
  mk_id :: u64
  mk_t_ns :: u64
  mk_label :: string
  mk_color :: "u8 \<times> u8 \<times> u8"

text \<open>The vertical position of a link is an \<open>f32\<close>; the development keeps its exact value.\<close>

record link =
  lk_id :: u64
  lk_a :: u64
  lk_b :: u64
  lk_y_frac :: f64
  lk_signals :: "channel_id list"

record marker_set =
  ms_markers :: "marker list"
  ms_links :: "link list"
  ms_selected :: "u64 option"
  ms_next_id :: u64
  ms_next_link_id :: u64

definition MARKER_PALETTE :: "(u8 \<times> u8 \<times> u8) list" where
  "MARKER_PALETTE =
     [(220, 80, 80), (80, 200, 120), (80, 130, 220), (220, 180, 60), (180, 100, 200), (60, 200, 200)]"

definition markers_new :: marker_set where
  "markers_new = \<lparr>ms_markers = [], ms_links = [], ms_selected = None, ms_next_id = 1, ms_next_link_id = 1\<rparr>"

definition alloc_id :: "marker_set \<Rightarrow> u64 \<times> marker_set" where
  "alloc_id s = (ms_next_id s, s\<lparr>ms_next_id := ms_next_id s + 1\<rparr>)"

definition alloc_link_id :: "marker_set \<Rightarrow> u64 \<times> marker_set" where
  "alloc_link_id s = (ms_next_link_id s, s\<lparr>ms_next_link_id := ms_next_link_id s + 1\<rparr>)"

section \<open>Operations\<close>

text \<open>The two loops of \<open>restore\<close>: the first also returns the ids given, in order.\<close>

fun restore_markers :: "(u64 \<times> string \<times> (u8 \<times> u8 \<times> u8)) list \<Rightarrow> u64 list \<Rightarrow> marker_set
    \<Rightarrow> u64 list \<times> marker_set" where
  "restore_markers [] id_map s = (id_map, s)"
| "restore_markers ((t_ns, label, color) # ms) id_map s =
     (let (i, s1) = alloc_id s in
      restore_markers ms (id_map @ [i])
        (s1\<lparr>ms_markers := ms_markers s1 @
            [\<lparr>mk_id = i, mk_t_ns = t_ns, mk_label = label, mk_color = color\<rparr>]\<rparr>))"

fun restore_links :: "u64 list \<Rightarrow> (usize \<times> usize \<times> f64 \<times> channel_id list) list \<Rightarrow> marker_set \<Rightarrow> marker_set" where
  "restore_links id_map [] s = s"
| "restore_links id_map ((a_idx, b_idx, y_frac, signals) # ls) s =
     (case (get_at id_map a_idx, get_at id_map b_idx) of
        (Some a, Some b) \<Rightarrow>
          (let (lid, s1) = alloc_link_id s in
           restore_links id_map ls
             (s1\<lparr>ms_links := ms_links s1 @
                 [\<lparr>lk_id = lid, lk_a = a, lk_b = b, lk_y_frac = y_frac, lk_signals = signals\<rparr>]\<rparr>))
      | _ \<Rightarrow> restore_links id_map ls s)"

definition restore :: "(u64 \<times> string \<times> (u8 \<times> u8 \<times> u8)) list
    \<Rightarrow> (usize \<times> usize \<times> f64 \<times> channel_id list) list \<Rightarrow> marker_set \<Rightarrow> marker_set" where
  "restore markers links s =
     (let s0 = \<lparr>ms_markers = [], ms_links = [], ms_selected = None, ms_next_id = 1, ms_next_link_id = 1\<rparr>;
          (id_map, s1) = restore_markers markers [] s0 in
      restore_links id_map links s1)"

definition marker_add :: "u64 \<Rightarrow> u8 \<times> u8 \<times> u8 \<Rightarrow> marker_set \<Rightarrow> u64 \<times> marker_set" where
  "marker_add t_ns color s =
     (let (i, s1) = alloc_id s in
      (i, s1\<lparr>ms_markers := ms_markers s1 @
            [\<lparr>mk_id = i, mk_t_ns = t_ns, mk_label = ''M'' @ show_nat (unat i), mk_color = color\<rparr>]\<rparr>))"

definition marker_get :: "marker_set \<Rightarrow> u64 \<Rightarrow> marker option" where
  "marker_get s i = find_first (\<lambda>m. mk_id m = i) (ms_markers s)"

text \<open>\<open>debug_assert!(a != b)\<close> is compiled in with the overflow checks.\<close>

definition marker_link :: "bool \<Rightarrow> u64 \<Rightarrow> u64 \<Rightarrow> channel_id list \<Rightarrow> marker_set \<Rightarrow> (u64 \<times> marker_set) run" where
  "marker_link chk a b signals s =
     (if chk \<and> a = b then Panic
      else let (lid, s1) = alloc_link_id s in
        Ok (lid, s1\<lparr>ms_links := ms_links s1 @
              [\<lparr>lk_id = lid, lk_a = a, lk_b = b, lk_y_frac = Fin (1 / 2), lk_signals = signals\<rparr>]\<rparr>))"

definition add_linked_to :: "bool \<Rightarrow> u64 \<Rightarrow> u64 \<Rightarrow> u8 \<times> u8 \<times> u8 \<Rightarrow> channel_id list \<Rightarrow> marker_set
    \<Rightarrow> ((u64 \<times> u64) option \<times> marker_set) run" where
  "add_linked_to chk anchor_id t_ns color signals s =
     (if marker_get s anchor_id = None then Ok (None, s)
      else let (marker_id, s1) = marker_add t_ns color s in
        obind (marker_link chk anchor_id marker_id signals s1) (\<lambda>(link_id, s2).
        Ok (Some (marker_id, link_id), s2)))"

definition marker_remove :: "u64 \<Rightarrow> marker_set \<Rightarrow> marker_set" where
  "marker_remove i s =
     s\<lparr>ms_markers := filter (\<lambda>m. mk_id m \<noteq> i) (ms_markers s),
       ms_links := filter (\<lambda>l. lk_a l \<noteq> i \<and> lk_b l \<noteq> i) (ms_links s),
       ms_selected := (if ms_selected s = Some i then None else ms_selected s)\<rparr>"

definition marker_select :: "u64 option \<Rightarrow> marker_set \<Rightarrow> marker_set" where
  "marker_select i s =
     s\<lparr>ms_selected :=
         (case i of
            None \<Rightarrow> None
          | Some j \<Rightarrow> if list_ex (\<lambda>m. mk_id m = j) (ms_markers s) then Some j else None)\<rparr>"

definition unlink :: "u64 \<Rightarrow> marker_set \<Rightarrow> marker_set" where
  "unlink link_id s = s\<lparr>ms_links := filter (\<lambda>l. lk_id l \<noteq> link_id) (ms_links s)\<rparr>"

text \<open>A write through \<open>get_mut\<close> or \<open>get_link_mut\<close> reaches the first element with the id; the fields
  written are the time, label and colour of a marker, the height and signals of a link.\<close>

fun update_first :: "('a \<Rightarrow> bool) \<Rightarrow> ('a \<Rightarrow> 'a) \<Rightarrow> 'a list \<Rightarrow> 'a list" where
  "update_first p f [] = []"
| "update_first p f (x # xs) = (if p x then f x # xs else x # update_first p f xs)"

definition marker_edit :: "u64 \<Rightarrow> u64 \<Rightarrow> string \<Rightarrow> u8 \<times> u8 \<times> u8 \<Rightarrow> marker_set \<Rightarrow> marker_set" where
  "marker_edit i t label color s =
     s\<lparr>ms_markers := update_first (\<lambda>m. mk_id m = i)
         (\<lambda>m. m\<lparr>mk_t_ns := t, mk_label := label, mk_color := color\<rparr>) (ms_markers s)\<rparr>"

definition get_link :: "marker_set \<Rightarrow> u64 \<Rightarrow> link option" where
  "get_link s i = find_first (\<lambda>l. lk_id l = i) (ms_links s)"

definition link_edit :: "u64 \<Rightarrow> f64 \<Rightarrow> channel_id list \<Rightarrow> marker_set \<Rightarrow> marker_set" where
  "link_edit i y signals s =
     s\<lparr>ms_links := update_first (\<lambda>l. lk_id l = i) (\<lambda>l. l\<lparr>lk_y_frac := y, lk_signals := signals\<rparr>) (ms_links s)\<rparr>"

definition links_for :: "marker_set \<Rightarrow> u64 \<Rightarrow> link list" where
  "links_for s i = filter (\<lambda>l. lk_a l = i \<or> lk_b l = i) (ms_links s)"

definition link_pairs :: "marker_set \<Rightarrow> (marker \<times> marker \<times> link) list" where
  "link_pairs s =
     List.map_filter (\<lambda>l. case marker_get s (lk_a l) of
         None \<Rightarrow> None
       | Some a \<Rightarrow> (case marker_get s (lk_b l) of None \<Rightarrow> None | Some b \<Rightarrow> Some (a, b, l))) (ms_links s)"

definition time_ordered_pairs :: "marker_set \<Rightarrow> (marker \<times> marker \<times> link) list" where
  "time_ordered_pairs s =
     map (\<lambda>(a, b, l). if mk_t_ns a \<le> mk_t_ns b then (a, b, l) else (b, a, l)) (link_pairs s)"

definition markers_is_empty :: "marker_set \<Rightarrow> bool" where
  "markers_is_empty s \<longleftrightarrow> ms_markers s = []"

definition markers_len :: "marker_set \<Rightarrow> usize" where
  "markers_len s = length (ms_markers s)"

section \<open>Invariant\<close>

definition marker_ids :: "marker_set \<Rightarrow> u64 set" where
  "marker_ids s = mk_id ` set (ms_markers s)"

definition link_ids :: "marker_set \<Rightarrow> u64 set" where
  "link_ids s = lk_id ` set (ms_links s)"

definition markers_ok :: "marker_set \<Rightarrow> bool" where
  "markers_ok s \<longleftrightarrow>
     distinct (map mk_id (ms_markers s)) \<and> distinct (map lk_id (ms_links s)) \<and>
     (\<forall>l\<in>set (ms_links s). lk_a l \<in> marker_ids s \<and> lk_b l \<in> marker_ids s) \<and>
     (\<forall>i. ms_selected s = Some i \<longrightarrow> i \<in> marker_ids s)"

lemma marker_get_None: "marker_get s i = None \<longleftrightarrow> i \<notin> marker_ids s"
  by (auto simp: marker_get_def find_first_def find_None_iff marker_ids_def)

lemma marker_get_Some: "marker_get s i = Some m \<Longrightarrow> m \<in> set (ms_markers s) \<and> mk_id m = i"
  by (auto simp: marker_get_def find_first_def find_Some_iff)

lemma update_first_map: "(\<And>x. g (f x) = g x) \<Longrightarrow> map g (update_first p f xs) = map g xs"
  by (induction xs) auto

lemma link_pairs_total:
  assumes "markers_ok s"
  shows "map (\<lambda>(a, b, l). (mk_id a, mk_id b, l)) (link_pairs s) = map (\<lambda>l. (lk_a l, lk_b l, l)) (ms_links s)"
proof -
  let ?f = "\<lambda>l. case marker_get s (lk_a l) of None \<Rightarrow> None
    | Some a \<Rightarrow> (case marker_get s (lk_b l) of None \<Rightarrow> None | Some b \<Rightarrow> Some (a, b, l))"
  have "map (\<lambda>(a, b, l). (mk_id a, mk_id b, l)) (List.map_filter ?f ls) = map (\<lambda>l. (lk_a l, lk_b l, l)) ls"
    if "\<forall>l\<in>set ls. lk_a l \<in> marker_ids s \<and> lk_b l \<in> marker_ids s" for ls
    using that
  proof (induction ls)
    case (Cons l ls)
    then obtain a b where "marker_get s (lk_a l) = Some a" "marker_get s (lk_b l) = Some b"
      using marker_get_None[of s "lk_a l"] marker_get_None[of s "lk_b l"] by fastforce
    then show ?case
      using Cons marker_get_Some[of s "lk_a l" a] marker_get_Some[of s "lk_b l" b] by simp
  qed simp
  from this[of "ms_links s"] show ?thesis
    using assms unfolding link_pairs_def markers_ok_def by blast
qed

section \<open>Every operation keeps the invariant\<close>

text \<open>What \<open>add\<close>, \<open>add_linked_to\<close>, \<open>link\<close> and \<open>restore\<close> share: allocate an id and push the element under it.\<close>

definition push_marker :: "marker \<Rightarrow> marker_set \<Rightarrow> marker_set" where
  "push_marker m s =
     s\<lparr>ms_next_id := ms_next_id s + 1, ms_markers := ms_markers s @ [m\<lparr>mk_id := ms_next_id s\<rparr>]\<rparr>"

definition push_link :: "link \<Rightarrow> marker_set \<Rightarrow> marker_set" where
  "push_link l s =
     s\<lparr>ms_next_link_id := ms_next_link_id s + 1, ms_links := ms_links s @ [l\<lparr>lk_id := ms_next_link_id s\<rparr>]\<rparr>"

text \<open>Both are id sources; ids stay below their counters, which is what makes them fresh.\<close>

interpretation marker_counter: id_source "\<lambda>m s. (Some (ms_next_id s), push_marker m s)" ms_next_id marker_ids
  by unfold_locales (auto simp: push_marker_def marker_ids_def)

interpretation link_counter: id_source "\<lambda>l s. (Some (ms_next_link_id s), push_link l s)" ms_next_link_id link_ids
  by unfold_locales (auto simp: push_link_def link_ids_def)

definition counters_ok :: "marker_set \<Rightarrow> bool" where
  "counters_ok s \<longleftrightarrow> marker_counter.below s \<and> link_counter.below s"

lemmas marker_simps = markers_ok_def counters_ok_def marker_ids_def link_ids_def
  marker_counter.below_def link_counter.below_def

lemmas unat_next = marker_counter.unat_succ

lemma add_marker_ok:
  assumes "markers_ok s" "counters_ok s" "unat (ms_next_id s) + 1 < 2 ^ 64"
  shows "markers_ok (push_marker m s) \<and> counters_ok (push_marker m s)
    \<and> marker_ids (push_marker m s) = insert (ms_next_id s) (marker_ids s)"
proof -
  have b: "marker_counter.below s" using assms(2) by (simp add: counters_ok_def)
  have i: "marker_ids (push_marker m s) = insert (ms_next_id s) (marker_ids s)"
    "link_ids (push_marker m s) = link_ids s"
    by (auto simp: push_marker_def marker_ids_def link_ids_def)
  have "markers_ok (push_marker m s)"
    using assms(1) marker_counter.counter_not_live[OF b] unfolding markers_ok_def i
    by (auto simp: push_marker_def marker_ids_def)
  moreover have "counters_ok (push_marker m s)"
    using marker_counter.step_below[OF b assms(3), of m] assms(2) i
    by (simp add: counters_ok_def link_counter.below_def push_marker_def)
  ultimately show ?thesis using i by simp
qed

lemma add_link_ok:
  assumes "markers_ok s" "counters_ok s" "unat (ms_next_link_id s) + 1 < 2 ^ 64"
    and "lk_a l \<in> marker_ids s" "lk_b l \<in> marker_ids s"
  shows "markers_ok (push_link l s) \<and> counters_ok (push_link l s) \<and> marker_ids (push_link l s) = marker_ids s"
proof -
  have b: "link_counter.below s" using assms(2) by (simp add: counters_ok_def)
  have i: "link_ids (push_link l s) = insert (ms_next_link_id s) (link_ids s)"
    "marker_ids (push_link l s) = marker_ids s"
    by (auto simp: push_link_def marker_ids_def link_ids_def)
  have "markers_ok (push_link l s)"
    using assms(1,4,5) link_counter.counter_not_live[OF b] unfolding markers_ok_def i
    by (auto simp: push_link_def link_ids_def)
  moreover have "counters_ok (push_link l s)"
    using link_counter.step_below[OF b assms(3), of l] assms(2) i
    by (simp add: counters_ok_def marker_counter.below_def push_link_def)
  ultimately show ?thesis using i by simp
qed

lemma marker_add_ok:
  assumes "markers_ok s" "counters_ok s" "unat (ms_next_id s) + 1 < 2 ^ 64"
    and "marker_add t c s = (i, s')"
  shows "markers_ok s' \<and> counters_ok s' \<and> marker_ids s' = insert i (marker_ids s) \<and> i \<notin> marker_ids s
    \<and> i = ms_next_id s \<and> ms_next_id s' = i + 1 \<and> ms_next_link_id s' = ms_next_link_id s"
proof -
  have "ms_next_id s \<notin> marker_ids s"
    using assms(2) marker_counter.counter_not_live by (simp add: counters_ok_def)
  then show ?thesis
    using assms(4) add_marker_ok[OF assms(1-3), of "\<lparr>mk_id = ms_next_id s, mk_t_ns = t,
        mk_label = ''M'' @ show_nat (unat (ms_next_id s)), mk_color = c\<rparr>"]
    by (auto simp: marker_add_def alloc_id_def push_marker_def)
qed

lemma marker_link_ok:
  assumes "markers_ok s" "counters_ok s" "unat (ms_next_link_id s) + 1 < 2 ^ 64"
    and "a \<in> marker_ids s" "b \<in> marker_ids s" and "marker_link chk a b sg s = Ok (i, s')"
  shows "markers_ok s' \<and> counters_ok s' \<and> marker_ids s' = marker_ids s \<and> i = ms_next_link_id s
    \<and> ms_next_link_id s' = i + 1 \<and> ms_next_id s' = ms_next_id s"
  using assms(6) add_link_ok[OF assms(1-3), of "\<lparr>lk_id = ms_next_link_id s, lk_a = a, lk_b = b,
      lk_y_frac = Fin (1 / 2), lk_signals = sg\<rparr>"] assms(4,5)
  by (auto simp: marker_link_def alloc_link_id_def push_link_def split: if_splits)

lemma add_linked_to_ok:
  assumes "markers_ok s" "counters_ok s"
    and "unat (ms_next_id s) + 1 < 2 ^ 64" "unat (ms_next_link_id s) + 1 < 2 ^ 64"
  obtains r s' where "add_linked_to chk anchor t c sg s = Ok (r, s')" and "markers_ok s'" "counters_ok s'"
    and "r = None \<longleftrightarrow> anchor \<notin> marker_ids s" and "r = None \<Longrightarrow> s' = s"
    and "\<And>m l. r = Some (m, l) \<Longrightarrow> m = ms_next_id s \<and> l = ms_next_link_id s
      \<and> ms_next_id s' = m + 1 \<and> ms_next_link_id s' = l + 1 \<and> marker_ids s' = insert m (marker_ids s)"
proof (cases "marker_get s anchor")
  case None
  then show thesis
    using that[of None s] assms marker_get_None[of s anchor] by (simp add: add_linked_to_def)
next
  case (Some m0)
  then have a: "anchor \<in> marker_ids s" using marker_get_None[of s anchor] by simp
  obtain i s1 where add: "marker_add t c s = (i, s1)" by (cases "marker_add t c s")
  note k1 = marker_add_ok[OF assms(1-3) add]
  then have "anchor \<noteq> i" using a by blast
  then obtain l s2 where l: "marker_link chk anchor i sg s1 = Ok (l, s2)"
    by (auto simp: marker_link_def alloc_link_id_def)
  have "unat (ms_next_link_id s1) + 1 < 2 ^ 64" "anchor \<in> marker_ids s1" "i \<in> marker_ids s1"
    using k1 assms(4) a by auto
  note k2 = marker_link_ok[OF _ _ this l]
  show thesis
  proof (rule that[of "Some (i, l)" s2])
    show "add_linked_to chk anchor t c sg s = Ok (Some (i, l), s2)"
      using Some add l by (simp add: add_linked_to_def)
  qed (use k1 k2 a in auto)
qed

lemma marker_remove_ok:
  "markers_ok s \<Longrightarrow> counters_ok s \<Longrightarrow> markers_ok (marker_remove i s) \<and> counters_ok (marker_remove i s)"
  by (auto simp: marker_simps marker_remove_def distinct_map_filter split: if_splits)

lemma marker_select_ok:
  "markers_ok s \<Longrightarrow> counters_ok s \<Longrightarrow> markers_ok (marker_select i s) \<and> counters_ok (marker_select i s)"
  by (auto simp: marker_simps marker_select_def list_ex_iff split: option.splits if_splits)

lemma unlink_ok: "markers_ok s \<Longrightarrow> counters_ok s \<Longrightarrow> markers_ok (unlink i s) \<and> counters_ok (unlink i s)"
  by (auto simp: marker_simps unlink_def distinct_map_filter)

lemma set_update_first: "g ` set (update_first p f xs) = g ` set xs" if "\<And>x. g (f x) = g x"
  using update_first_map[of g f p xs, OF that] by (metis list.set_map)

lemma marker_edit_ok:
  "markers_ok s \<Longrightarrow> counters_ok s \<Longrightarrow> markers_ok (marker_edit i t n c s) \<and> counters_ok (marker_edit i t n c s)"
  by (simp add: marker_simps marker_edit_def update_first_map set_update_first)

lemma update_first_mem: "x \<in> set (update_first p f xs) \<Longrightarrow> x \<in> set xs \<or> (\<exists>y\<in>set xs. x = f y)"
  by (induction xs) (auto split: if_splits)

lemma link_edit_ok:
  "markers_ok s \<Longrightarrow> counters_ok s \<Longrightarrow> markers_ok (link_edit i y sg s) \<and> counters_ok (link_edit i y sg s)"
proof -
  assume a: "markers_ok s" "counters_ok s"
  let ?u = "update_first (\<lambda>l. lk_id l = i) (\<lambda>l. l\<lparr>lk_y_frac := y, lk_signals := sg\<rparr>) (ms_links s)"
  have "lk_a l \<in> marker_ids s \<and> lk_b l \<in> marker_ids s" if "l \<in> set ?u" for l
    using update_first_mem[OF that] a(1) by (auto simp: markers_ok_def)
  then show ?thesis
    using a by (simp add: marker_simps link_edit_def update_first_map set_update_first)
qed

section \<open>Restoring\<close>

lemma restore_markers_ok:
  assumes "markers_ok s" "counters_ok s" "set id_map \<subseteq> marker_ids s"
    and "unat (ms_next_id s) + length ms < 2 ^ 64"
    and "restore_markers ms id_map s = (ids, s')"
  shows "markers_ok s' \<and> counters_ok s' \<and> set ids \<subseteq> marker_ids s'
    \<and> ms_next_link_id s' = ms_next_link_id s \<and> ms_links s' = ms_links s
    \<and> unat (ms_next_id s') = unat (ms_next_id s) + length ms
    \<and> length ids = length id_map + length ms"
  using assms
proof (induction ms arbitrary: id_map s)
  case (Cons m ms)
  obtain t n c where m: "m = (t, n, c)" by (cases m)
  let ?s1 = "push_marker \<lparr>mk_id = ms_next_id s, mk_t_ns = t, mk_label = n, mk_color = c\<rparr> s"
  have b: "unat (ms_next_id s) + 1 < 2 ^ 64" using Cons.prems(4) by simp
  have k: "markers_ok ?s1 \<and> counters_ok ?s1 \<and> marker_ids ?s1 = insert (ms_next_id s) (marker_ids s)"
    by (rule add_marker_ok[OF Cons.prems(1,2) b])
  have r: "restore_markers ms (id_map @ [ms_next_id s]) ?s1 = (ids, s')"
    using Cons.prems(5) m by (simp add: alloc_id_def push_marker_def)
  have "set (id_map @ [ms_next_id s]) \<subseteq> marker_ids ?s1" using k Cons.prems(3) by auto
  moreover have n: "unat (ms_next_id ?s1) = unat (ms_next_id s) + 1"
    using unat_next[OF b] by (simp add: push_marker_def)
  ultimately have "markers_ok s' \<and> counters_ok s' \<and> set ids \<subseteq> marker_ids s'
    \<and> ms_next_link_id s' = ms_next_link_id ?s1 \<and> ms_links s' = ms_links ?s1
    \<and> unat (ms_next_id s') = unat (ms_next_id ?s1) + length ms
    \<and> length ids = length (id_map @ [ms_next_id s]) + length ms"
    using k Cons.prems(4) by (intro Cons.IH[OF _ _ _ _ r]) simp_all
  then show ?case using n by (simp add: push_marker_def)
qed simp

lemma restore_links_ok:
  assumes "markers_ok s" "counters_ok s" "set id_map \<subseteq> marker_ids s"
    and "unat (ms_next_link_id s) + length ls < 2 ^ 64"
  shows "markers_ok (restore_links id_map ls s) \<and> counters_ok (restore_links id_map ls s)
    \<and> ms_next_id (restore_links id_map ls s) = ms_next_id s
    \<and> unat (ms_next_link_id (restore_links id_map ls s)) \<le> unat (ms_next_link_id s) + length ls"
  using assms
proof (induction ls arbitrary: s)
  case (Cons l ls)
  obtain ai bi y sg where l: "l = (ai, bi, y, sg)" by (cases l)
  have b: "unat (ms_next_link_id s) + 1 < 2 ^ 64" using Cons.prems(4) by simp
  show ?case
  proof (cases "\<exists>a b. get_at id_map ai = Some a \<and> get_at id_map bi = Some b")
    case True
    then obtain x z where g: "get_at id_map ai = Some x" "get_at id_map bi = Some z" by blast
    let ?s1 = "push_link \<lparr>lk_id = ms_next_link_id s, lk_a = x, lk_b = z, lk_y_frac = y, lk_signals = sg\<rparr> s"
    have "x \<in> marker_ids s" "z \<in> marker_ids s"
      using g Cons.prems(3) by (auto simp: get_at_Some_iff)
    then have k: "markers_ok ?s1 \<and> counters_ok ?s1 \<and> marker_ids ?s1 = marker_ids s"
      by (intro add_link_ok[OF Cons.prems(1,2) b]) simp_all
    have n: "unat (ms_next_link_id ?s1) = unat (ms_next_link_id s) + 1"
      using unat_next[OF b] by (simp add: push_link_def)
    have r: "restore_links id_map (l # ls) s = restore_links id_map ls ?s1"
      using g l by (simp add: alloc_link_id_def push_link_def)
    have "markers_ok (restore_links id_map ls ?s1) \<and> counters_ok (restore_links id_map ls ?s1)
        \<and> ms_next_id (restore_links id_map ls ?s1) = ms_next_id ?s1
        \<and> unat (ms_next_link_id (restore_links id_map ls ?s1)) \<le> unat (ms_next_link_id ?s1) + length ls"
      using k Cons.prems(3,4) n by (intro Cons.IH) simp_all
    then show ?thesis unfolding r using n by (simp add: push_link_def)
  next
    case False
    then have r: "restore_links id_map (l # ls) s = restore_links id_map ls s"
      using l by (auto split: option.splits)
    have "unat (ms_next_link_id s) + length ls < 2 ^ 64" using Cons.prems(4) by simp
    from Cons.IH[OF Cons.prems(1-3) this] show ?thesis unfolding r by simp
  qed
qed simp

lemma restore_ok:
  assumes "length ms + 1 < 2 ^ 64" "length ls + 1 < 2 ^ 64"
  shows "markers_ok (restore ms ls s) \<and> counters_ok (restore ms ls s)
    \<and> unat (ms_next_id (restore ms ls s)) = length ms + 1
    \<and> unat (ms_next_link_id (restore ms ls s)) \<le> length ls + 1"
proof -
  obtain ids s1 where r: "restore_markers ms [] markers_new = (ids, s1)"
    by (cases "restore_markers ms [] markers_new")
  have new: "markers_ok markers_new" "counters_ok markers_new" by (simp_all add: marker_simps markers_new_def)
  have p: "set ([] :: u64 list) \<subseteq> marker_ids markers_new" "unat (ms_next_id markers_new) + length ms < 2 ^ 64"
    using assms(1) by (simp_all add: markers_new_def)
  note m = restore_markers_ok[OF new p r]
  have "unat (ms_next_link_id s1) + length ls < 2 ^ 64" using m assms(2) by (simp add: markers_new_def)
  with m have "markers_ok (restore_links ids ls s1) \<and> counters_ok (restore_links ids ls s1)
      \<and> ms_next_id (restore_links ids ls s1) = ms_next_id s1
      \<and> unat (ms_next_link_id (restore_links ids ls s1)) \<le> unat (ms_next_link_id s1) + length ls"
    by (intro restore_links_ok) simp_all
  moreover have "restore ms ls s = restore_links ids ls s1"
    using r by (simp add: restore_def markers_new_def)
  ultimately show ?thesis using m by (simp add: markers_new_def)
qed

section \<open>Reachable marker sets\<close>

datatype marker_op =
    MO_Add u64 "u8 \<times> u8 \<times> u8"
  | MO_AddLinked u64 u64 "u8 \<times> u8 \<times> u8" "channel_id list"
  | MO_Remove u64
  | MO_Select "u64 option"
  | MO_Link u64 u64 "channel_id list"
  | MO_Unlink u64
  | MO_Edit u64 u64 string "u8 \<times> u8 \<times> u8"
  | MO_LinkEdit u64 f64 "channel_id list"
  | MO_Restore "(u64 \<times> string \<times> (u8 \<times> u8 \<times> u8)) list" "(usize \<times> usize \<times> f64 \<times> channel_id list) list"

fun marker_step :: "bool \<Rightarrow> marker_op \<Rightarrow> marker_set \<Rightarrow> marker_set run" where
  "marker_step chk (MO_Add t c) s = Ok (snd (marker_add t c s))"
| "marker_step chk (MO_AddLinked a t c sg) s = obind (add_linked_to chk a t c sg s) (\<lambda>(_, s'). Ok s')"
| "marker_step chk (MO_Remove i) s = Ok (marker_remove i s)"
| "marker_step chk (MO_Select i) s = Ok (marker_select i s)"
| "marker_step chk (MO_Link a b sg) s = obind (marker_link chk a b sg s) (\<lambda>(_, s'). Ok s')"
| "marker_step chk (MO_Unlink i) s = Ok (unlink i s)"
| "marker_step chk (MO_Edit i t n c) s = Ok (marker_edit i t n c s)"
| "marker_step chk (MO_LinkEdit i y sg) s = Ok (link_edit i y sg s)"
| "marker_step chk (MO_Restore ms ls) s = Ok (restore ms ls s)"

text \<open>The one obligation of a caller, as the comment on \<open>link\<close> puts it, and the ids an operation may use up.\<close>

fun marker_op_ok :: "marker_set \<Rightarrow> marker_op \<Rightarrow> bool" where
  "marker_op_ok s (MO_Link a b sg) = (a \<in> marker_ids s \<and> b \<in> marker_ids s \<and> a \<noteq> b)"
| "marker_op_ok s op = True"

fun op_size :: "marker_op \<Rightarrow> nat" where
  "op_size (MO_Restore ms ls) = length ms + length ls"
| "op_size op = 1"

inductive markers_reach :: "bool \<Rightarrow> nat \<Rightarrow> marker_set \<Rightarrow> bool" for chk where
  start: "markers_reach chk 0 markers_new"
| step: "markers_reach chk n s \<Longrightarrow> marker_op_ok s op \<Longrightarrow> marker_step chk op s = Ok s'
    \<Longrightarrow> markers_reach chk (n + op_size op) s'"

lemma marker_step_ok:
  assumes "markers_ok s" "counters_ok s" "marker_op_ok s op"
    and "unat (ms_next_id s) \<le> n + 1" "unat (ms_next_link_id s) \<le> n + 1" "n + op_size op + 1 < 2 ^ 64"
  shows "\<exists>s'. marker_step chk op s = Ok s' \<and> markers_ok s' \<and> counters_ok s'
    \<and> unat (ms_next_id s') \<le> n + op_size op + 1 \<and> unat (ms_next_link_id s') \<le> n + op_size op + 1"
proof (cases op)
  case (MO_Add t c)
  obtain i s' where a: "marker_add t c s = (i, s')" by (cases "marker_add t c s")
  have b: "unat (ms_next_id s) + 1 < 2 ^ 64" using assms(4,6) MO_Add by simp
  show ?thesis using marker_add_ok[OF assms(1,2) b a] unat_next[OF b] a MO_Add assms(4,5) by simp
next
  case (MO_AddLinked x t c sg)
  have b: "unat (ms_next_id s) + 1 < 2 ^ 64" "unat (ms_next_link_id s) + 1 < 2 ^ 64"
    using assms(4,5,6) MO_AddLinked by simp_all
  obtain r s' where a: "add_linked_to chk x t c sg s = Ok (r, s')" "markers_ok s'" "counters_ok s'"
    "r = None \<Longrightarrow> s' = s" "\<And>m l. r = Some (m, l) \<Longrightarrow> m = ms_next_id s \<and> l = ms_next_link_id s
      \<and> ms_next_id s' = m + 1 \<and> ms_next_link_id s' = l + 1 \<and> marker_ids s' = insert m (marker_ids s)"
    using add_linked_to_ok[OF assms(1,2) b, of chk x t c sg] by metis
  have "unat (ms_next_id s') \<le> n + 2 \<and> unat (ms_next_link_id s') \<le> n + 2"
  proof (cases r)
    case None
    then show ?thesis using a(4) assms(4,5) by simp
  next
    case (Some ml)
    then show ?thesis
      using a(5)[of "fst ml" "snd ml"] unat_next[OF b(1)] unat_next[OF b(2)] assms(4,5) by simp
  qed
  then show ?thesis using a MO_AddLinked by simp
next
  case (MO_Link x y sg)
  have b: "unat (ms_next_link_id s) + 1 < 2 ^ 64" using assms(5,6) MO_Link by simp
  obtain i s' where l: "marker_link chk x y sg s = Ok (i, s')"
    using assms(3) MO_Link by (auto simp: marker_link_def alloc_link_id_def)
  have "x \<in> marker_ids s" "y \<in> marker_ids s" using assms(3) MO_Link by simp_all
  from marker_link_ok[OF assms(1,2) b this l] show ?thesis
    using l MO_Link unat_next[OF b] assms(4,5) by simp
next
  case (MO_Restore ms ls)
  then show ?thesis using restore_ok[of ms ls s] assms(6) by simp
next
  case (MO_Remove i)
  then show ?thesis using marker_remove_ok[OF assms(1,2), of i] assms(4,5) by (simp add: marker_remove_def)
next
  case (MO_Select i)
  then show ?thesis using marker_select_ok[OF assms(1,2), of i] assms(4,5) by (simp add: marker_select_def)
next
  case (MO_Unlink i)
  then show ?thesis using unlink_ok[OF assms(1,2), of i] assms(4,5) by (simp add: unlink_def)
next
  case (MO_Edit i t l c)
  then show ?thesis using marker_edit_ok[OF assms(1,2), of i t l c] assms(4,5) by (simp add: marker_edit_def)
next
  case (MO_LinkEdit i y sg)
  then show ?thesis using link_edit_ok[OF assms(1,2), of i y sg] assms(4,5) by (simp add: link_edit_def)
qed

lemma markers_reach_ok:
  assumes "markers_reach chk n s" "n + 1 < 2 ^ 64"
  shows "markers_ok s \<and> counters_ok s \<and> unat (ms_next_id s) \<le> n + 1 \<and> unat (ms_next_link_id s) \<le> n + 1"
  using assms
proof (induction rule: markers_reach.induct)
  case start
  then show ?case by (simp add: marker_simps markers_new_def)
next
  case (step n s op s')
  then show ?case using marker_step_ok[of s op n chk] by auto
qed

text \<open>
  C29. Marker sets stay consistent: along every run of fewer than \<open>2 ^ 64 - 1\<close> allocations, layouts
  restored from disk included, no operation panics, marker ids and link ids are unique, every link
  joins two existing markers (so drawing resolves all of them, in order, and the time-ordered pairs
  are ordered), and the selected marker exists.
\<close>

theorem markers_stay_consistent:
  assumes "markers_reach chk n s" and "n + 1 < 2 ^ 64"
  shows "markers_ok s
    \<and> map (\<lambda>(a, b, l). (mk_id a, mk_id b, l)) (link_pairs s) = map (\<lambda>l. (lk_a l, lk_b l, l)) (ms_links s)
    \<and> (\<forall>(a, b, l)\<in>set (time_ordered_pairs s). mk_t_ns a \<le> mk_t_ns b)
    \<and> (\<forall>op. marker_op_ok s op \<and> n + op_size op + 1 < 2 ^ 64 \<longrightarrow> marker_step chk op s \<noteq> Panic)"
proof -
  note ok = markers_reach_ok[OF assms]
  have "marker_step chk op s \<noteq> Panic" if "marker_op_ok s op" "n + op_size op + 1 < 2 ^ 64" for op
    using marker_step_ok[of s op n chk] ok that by auto
  moreover have "\<forall>(a, b, l)\<in>set (time_ordered_pairs s). mk_t_ns a \<le> mk_t_ns b"
    by (auto simp: time_ordered_pairs_def split: if_splits)
  ultimately show ?thesis using ok link_pairs_total by blast
qed

definition markers_ex :: marker_set where
  "markers_ex = restore [(10, ''a'', 1, 2, 3), (5, ''b'', 1, 2, 3)] [(0, 1, Fin 0, [4]), (0, 7, Fin 0, [])] markers_new"

theorem markers_stay_consistent_witness:
  "length (ms_links markers_ex) = 1 \<and> markers_ok markers_ex"
proof -
  let ?op = "MO_Restore [(10, ''a'', 1, 2, 3), (5, ''b'', 1, 2, 3)] [(0, 1, Fin 0, [4]), (0, 7, Fin 0, [])]"
  have "markers_reach True (0 + op_size ?op) markers_ex"
    by (rule markers_reach.step[OF markers_reach.start]) (simp_all add: markers_ex_def)
  then have "markers_reach True 4 markers_ex" by (simp add: eval_nat_numeral)
  then have "markers_ok markers_ex" using markers_stay_consistent[of True 4 markers_ex] by simp
  moreover have "length (ms_links markers_ex) = 1" by code_simp
  ultimately show ?thesis by simp
qed

end
