(* ===== verification/Layout.thy ===== *)
theory Layout
  imports Panels Markers
begin

text \<open>
  Saved layouts: \<open>viewer/crates/btelem-viewer/src/layout.rs\<close>. The file types, slugs and the layout
  directory, loading with the migration of old versions, \<open>capture\<close> (live state to layout) and \<open>apply\<close>
  (layout to live state).

  Two libraries are parameters. \<open>serde_json\<close> is a pair of functions between values and bytes. The dock
  of \<open>egui_dock\<close> is a record \<open>dock_lib\<close> of the functions the code calls, over abstract types of docks;
  what the code relies on is the predicate \<open>dock_laws\<close> of \<open>Layout_Roundtrip\<close>. The iteration order of the hash map in the
  migration is a parameter too.
\<close>

section \<open>File types\<close>

definition SCHEMA_VERSION :: u32 where "SCHEMA_VERSION = 6"
definition MIN_VERSION :: u32 where "MIN_VERSION = 1"

definition version_supported :: "u32 \<Rightarrow> bool" where
  "version_supported v \<longleftrightarrow> MIN_VERSION \<le> v \<and> v \<le> SCHEMA_VERSION"

record marker_spec =
  mks_t_ns :: u64
  mks_label :: string
  mks_color :: "u8 \<times> u8 \<times> u8"
  mks_chain :: "u64 option"

record link_spec =
  lks_a_index :: usize
  lks_b_index :: usize
  lks_y_frac :: f64
  lks_signal_paths :: "string list"

definition default_y_frac :: f64 where
  "default_y_frac = Fin (1 / 2)"

datatype typed_filter_spec =
    TFS_Text string bool
  | TFS_Range "f64 option" "f64 option"
  | TFS_Enum "u32 list"

datatype filter_spec = FS_Legacy string | FS_Typed typed_filter_spec

record logic_lane_spec =
  lls_ch_path :: string
  lls_radix :: label_radix
  lls_mode :: lane_mode

definition lane_mode_numeric_default :: lane_mode where
  "lane_mode_numeric_default = Numeric"

datatype plot_spec =
    PS_TimeSeries string "string list" "string list" "(string, signal_style) hashmap"
  | PS_Scalar string "string list" "(string, signal_style) hashmap"
  | PS_StateChart string "string list"
  | PS_LogicAnalyser string "logic_lane_spec list"
  | PS_LogView string string "string list" "(string, filter_spec) hashmap" "string option" "string option"
      "usize option"
  | PS_Xy string string string "u64 option"

record 'v layout =
  ly_version :: u32
  ly_name :: string
  ly_dock :: 'v
  ly_plots :: "plot_spec list"
  ly_markers :: "marker_spec list"
  ly_links :: "link_spec list"

text \<open>\<open>channels.iter().find(|c| c.path == *path).map(|c| c.id)\<close> over the saved paths.\<close>

definition signals_resolved :: "channel_info list \<Rightarrow> link_spec \<Rightarrow> channel_id list" where
  "signals_resolved channels l =
     List.map_filter (\<lambda>path. map_option ci_id (find_first (\<lambda>c. ci_path c = path) channels))
       (lks_signal_paths l)"

fun from_filter :: "column_filter \<Rightarrow> filter_spec" where
  "from_filter (CF_Text needle cs) = FS_Typed (TFS_Text needle cs)"
| "from_filter (CF_Range mn mx) = FS_Typed (TFS_Range mn mx)"
| "from_filter (CF_EnumSet allowed) = FS_Typed (TFS_Enum (sorted_list_of_set allowed))"

fun to_filter :: "filter_spec \<Rightarrow> column_filter" where
  "to_filter (FS_Legacy s) = CF_Text s False"
| "to_filter (FS_Typed (TFS_Text needle cs)) = CF_Text needle cs"
| "to_filter (FS_Typed (TFS_Range mn mx)) = CF_Range mn mx"
| "to_filter (FS_Typed (TFS_Enum allowed)) = CF_EnumSet (set allowed)"

record apply_report =
  ar_missing_paths :: "string list"
  ar_dropped_plots :: usize

definition report_default :: apply_report where
  "report_default = \<lparr>ar_missing_paths = [], ar_dropped_plots = 0\<rparr>"

definition missing_count :: "apply_report \<Rightarrow> usize" where
  "missing_count r = length (ar_missing_paths r)"

definition add_missing :: "string \<Rightarrow> apply_report \<Rightarrow> apply_report" where
  "add_missing path r =
     (if path \<in> set (ar_missing_paths r) then r
      else r\<lparr>ar_missing_paths := ar_missing_paths r @ [path]\<rparr>)"

section \<open>Slugs and the layout directory\<close>

definition slug_ok :: "string \<Rightarrow> bool" where
  "slug_ok c \<longleftrightarrow> (case c of [b] \<Rightarrow> is_ascii_alphanumeric b \<or> b = CHR ''_'' \<or> b = CHR ''-'' | _ \<Rightarrow> False)"

fun slug_loop :: "string list \<Rightarrow> bool \<Rightarrow> string" where
  "slug_loop [] last_dash = []"
| "slug_loop (c # cs) last_dash =
     (if slug_ok c then to_ascii_lowercase c @ slug_loop cs False
      else if \<not> last_dash then CHR ''-'' # slug_loop cs True
      else slug_loop cs last_dash)"

definition slug :: "string \<Rightarrow> string" where
  "slug name =
     (let trimmed = trim_matches CHR ''-'' (slug_loop (str_chars name) False) in
      if trimmed = [] then ''untitled'' else trimmed)"

text \<open>Paths are strings; \<open>config_dir\<close> is what the \<open>dirs\<close> crate returns.\<close>

definition layouts_dir :: "string option \<Rightarrow> string" where
  "layouts_dir config_dir = unwrap_or ''.'' config_dir @ ''/btelem-viewer/layouts''"

definition path_for :: "string option \<Rightarrow> string \<Rightarrow> string" where
  "path_for config_dir name = layouts_dir config_dir @ ''/'' @ slug name @ ''.json''"

datatype io_error = NotFound | InvalidData | OtherIo

type_synonym files = "string \<rightharpoonup> bytes"

text \<open>\<open>Path::extension\<close> of a file name.\<close>

definition file_extension :: "string \<Rightarrow> string option" where
  "file_extension name =
     (case rsplit_once CHR ''.'' name of
        Some (stem, ext) \<Rightarrow> if stem = [] \<or> name = ''..'' then None else Some ext
      | None \<Rightarrow> None)"

text \<open>The entries of the directory are an argument: \<open>None\<close> when it does not exist, otherwise the names
  with their contents (\<open>None\<close> for one that cannot be read).\<close>

definition list_layouts :: "(bytes \<Rightarrow> 'v layout option) \<Rightarrow> (string \<times> bytes option) list option
    \<Rightarrow> (string list, io_error) outcome" where
  "list_layouts from_slice entries =
     (case entries of
        None \<Rightarrow> Ok []
      | Some es \<Rightarrow>
          Ok (sort (List.map_filter (\<lambda>(name, content).
            if file_extension name \<noteq> Some ''json'' then None
            else case content of
                   None \<Rightarrow> None
                 | Some bytes \<Rightarrow>
                     (case from_slice bytes of
                        None \<Rightarrow> None
                      | Some l \<Rightarrow> if version_supported (ly_version l) then Some (ly_name l) else None)) es)))"

text \<open>\<open>slice::windows(2)\<close>.\<close>

definition windows2 :: "'a list \<Rightarrow> ('a \<times> 'a) list" where
  "windows2 xs = zip xs (tl xs)"

definition chains_of :: "marker_spec list \<Rightarrow> (u64, usize list) hashmap" where
  "chains_of markers =
     fold (\<lambda>(i, m) chains.
         case mks_chain m of
           None \<Rightarrow> chains
         | Some cid \<Rightarrow> hm_insert cid (unwrap_or [] (hm_get chains cid) @ [i]) chains)
       (zip [0 ..< length markers] markers) []"

definition migrate_chains_to_links :: "((u64, usize list) hashmap \<Rightarrow> (u64 \<times> usize list) list)
    \<Rightarrow> marker_spec list \<Rightarrow> link_spec list" where
  "migrate_chains_to_links hash_order markers =
     concat (map (\<lambda>(cid, indices).
         map (\<lambda>(a, b). \<lparr>lks_a_index = a, lks_b_index = b, lks_y_frac = Fin (1 / 2), lks_signal_paths = []\<rparr>)
           (windows2 (sort indices)))
       (hash_order (chains_of markers)))"

definition load_layout :: "((u64, usize list) hashmap \<Rightarrow> (u64 \<times> usize list) list)
    \<Rightarrow> (bytes \<Rightarrow> 'v layout option) \<Rightarrow> string option \<Rightarrow> files \<Rightarrow> string \<Rightarrow> ('v layout, io_error) outcome" where
  "load_layout hash_order from_slice config_dir fs name =
     (case fs (path_for config_dir name) of
        None \<Rightarrow> Err NotFound
      | Some bytes \<Rightarrow>
          (case from_slice bytes of
             None \<Rightarrow> Err InvalidData
           | Some layout \<Rightarrow>
               if \<not> version_supported (ly_version layout) then Err InvalidData
               else if ly_version layout = 4 \<and> ly_links layout = []
               then Ok (layout\<lparr>ly_links := migrate_chains_to_links hash_order (ly_markers layout),
                               ly_version := SCHEMA_VERSION\<rparr>)
               else Ok layout))"

text \<open>\<open>writable\<close>: the paths that the operating system lets the program write or remove.\<close>

definition save_layout :: "(string \<Rightarrow> bool) \<Rightarrow> ('v layout \<Rightarrow> bytes option) \<Rightarrow> string option \<Rightarrow> 'v layout \<Rightarrow> files
    \<Rightarrow> (files, io_error) outcome" where
  "save_layout writable to_vec config_dir layout fs =
     (case to_vec layout of
        None \<Rightarrow> Err InvalidData
      | Some bytes \<Rightarrow>
          if writable (path_for config_dir (ly_name layout))
          then Ok (fs(path_for config_dir (ly_name layout) \<mapsto> bytes)) else Err OtherIo)"

definition delete_layout :: "(string \<Rightarrow> bool) \<Rightarrow> string option \<Rightarrow> string \<Rightarrow> files \<Rightarrow> (files, io_error) outcome" where
  "delete_layout writable config_dir name fs =
     (if fs (path_for config_dir name) = None then Ok fs
      else if writable (path_for config_dir name) then Ok (fs(path_for config_dir name := None))
      else Err OtherIo)"

section \<open>Docks\<close>

record ('d, 'u, 'v) dock_lib =
  dl_new :: "plot_id list \<Rightarrow> 'd"
  dl_tabs :: "'d \<Rightarrow> plot_id list"
  dl_map_tabs :: "(plot_id \<Rightarrow> usize) \<Rightarrow> 'd \<Rightarrow> 'u"
  dl_filter_tabs :: "(usize \<Rightarrow> bool) \<Rightarrow> 'u \<Rightarrow> 'u"
  dl_filter_map_tabs :: "(usize \<Rightarrow> plot_id option) \<Rightarrow> 'u \<Rightarrow> 'd"
  dl_leaves :: "'d \<Rightarrow> plot_id list list"
  dl_push_leaf :: "nat \<Rightarrow> plot_id \<Rightarrow> 'd \<Rightarrow> 'd"
  dl_push_focused :: "plot_id \<Rightarrow> 'd \<Rightarrow> 'd"
  dl_to_value :: "'u \<Rightarrow> 'v option"
  dl_from_value :: "'v \<Rightarrow> 'u option"
  dl_null :: 'v

section \<open>Capture\<close>

fun push_unseen :: "plot_id list \<Rightarrow> plot_id list \<Rightarrow> plot_id list" where
  "push_unseen order [] = order"
| "push_unseen order (p # ps) = push_unseen (if p \<in> set order then order else order @ [p]) ps"

definition path_of :: "(channel_id \<rightharpoonup> channel_info) \<Rightarrow> channel_id \<Rightarrow> string option" where
  "path_of by_id c = map_option ci_path (by_id c)"

fun spec_from_kind :: "(channel_id \<rightharpoonup> channel_info) \<Rightarrow> plot_kind \<Rightarrow> plot_spec" where
  "spec_from_kind by_id (PK_Scalar p) =
     PS_Scalar (sp_title p) (List.map_filter (path_of by_id) (sp_channels p))
       (fold (\<lambda>(c, st) styles. case by_id c of None \<Rightarrow> styles | Some info \<Rightarrow> hm_insert (ci_path info) st styles)
         (styles_iter p) [])"
| "spec_from_kind by_id (PK_LogicAnalyser p) =
     PS_LogicAnalyser (lp_title p)
       (List.map_filter (\<lambda>l. map_option (\<lambda>c. \<lparr>lls_ch_path = ci_path c, lls_radix = ll_radix l, lls_mode = ll_mode l\<rparr>)
           (by_id (ll_ch l))) (lp_lanes p))"
| "spec_from_kind by_id (PK_LogView p) =
     PS_LogView (lv_title p) (lv_group p)
       (List.map_filter (path_of by_id) (List.map_filter (get_at (lv_columns p)) (lv_visible p)))
       (hm_collect (List.map_filter (\<lambda>(c, f). map_option (\<lambda>i. (ci_path i, from_filter f)) (by_id c)) (lv_filters p)))
       (Option.bind (lv_color_by p) (path_of by_id))
       (Option.bind (lv_priority_by p) (path_of by_id))
       (Some (lv_max_rows p))"
| "spec_from_kind by_id (PK_XY xy) =
     PS_Xy (xy_title xy) (unwrap_or [] (path_of by_id (xy_x xy))) (unwrap_or [] (path_of by_id (xy_y xy)))
       (xy_trail_ns xy)"

definition capture_markers :: "marker_set \<Rightarrow> marker_spec list" where
  "capture_markers markers =
     map (\<lambda>m. \<lparr>mks_t_ns = mk_t_ns m, mks_label = mk_label m, mks_color = mk_color m, mks_chain = None\<rparr>)
       (ms_markers markers)"

definition capture_links :: "(channel_id \<rightharpoonup> channel_info) \<Rightarrow> marker_set \<Rightarrow> link_spec list" where
  "capture_links by_id markers =
     (let marker_idx = hm_collect (map (\<lambda>(i, m). (mk_id m, i)) (zip [0 ..< length (ms_markers markers)] (ms_markers markers)))
      in List.map_filter (\<lambda>l.
           case hm_get marker_idx (lk_a l) of
             None \<Rightarrow> None
           | Some a_idx \<Rightarrow>
               (case hm_get marker_idx (lk_b l) of
                  None \<Rightarrow> None
                | Some b_idx \<Rightarrow>
                    Some \<lparr>lks_a_index = a_idx, lks_b_index = b_idx, lks_y_frac = lk_y_frac l,
                          lks_signal_paths = List.map_filter (path_of by_id) (lk_signals l)\<rparr>))
         (ms_links markers))"

definition capture_layout :: "('d, 'u, 'v) dock_lib \<Rightarrow> string \<Rightarrow> plot_registry \<Rightarrow> 'd
    \<Rightarrow> (channel_id \<rightharpoonup> channel_info) \<Rightarrow> marker_set \<Rightarrow> 'v layout" where
  "capture_layout lib name plots dock by_id markers =
     (let order = push_unseen (push_unseen [] (dl_tabs lib dock)) (registry_iter_ids plots);
          numbered = zip [0 ..< length order] order;
          present = filter (\<lambda>(i, pid). registry_get plots pid \<noteq> None) numbered;
          idx_of = hm_collect (map (\<lambda>(i, pid). (pid, i)) present);
          specs = List.map_filter (\<lambda>(i, pid). map_option (spec_from_kind by_id) (registry_get plots pid)) numbered;
          dock_usize = dl_filter_tabs lib (\<lambda>i. i \<noteq> USIZE_MAX)
            (dl_map_tabs lib (\<lambda>pid. unwrap_or USIZE_MAX (hm_get idx_of pid)) dock)
      in \<lparr>ly_version = SCHEMA_VERSION, ly_name = name,
          ly_dock = unwrap_or (dl_null lib) (dl_to_value lib dock_usize),
          ly_plots = specs,
          ly_markers = capture_markers markers,
          ly_links = capture_links by_id markers\<rparr>)"

section \<open>Apply\<close>

text \<open>One path of a list, as the loops of \<open>apply\<close> treat it: added when the live channel fits, reported as
  missing otherwise.\<close>

definition add_scalar_path :: "(string \<rightharpoonup> channel_info) \<Rightarrow> string \<Rightarrow> scalar_panel \<times> apply_report
    \<Rightarrow> scalar_panel \<times> apply_report" where
  "add_scalar_path by_path path = (\<lambda>(p, report).
     case by_path path of
       Some info \<Rightarrow>
         if is_scalar_kind (ci_kind info) then (snd (scalar_panel_add info p), report)
         else (p, add_missing path report)
     | None \<Rightarrow> (p, add_missing path report))"

definition add_state_path :: "(string \<rightharpoonup> channel_info) \<Rightarrow> string
    \<Rightarrow> logic_analyser_panel \<times> bool \<times> apply_report \<Rightarrow> logic_analyser_panel \<times> bool \<times> apply_report" where
  "add_state_path by_path path = (\<lambda>(p, had_any, report).
     case by_path path of
       Some info \<Rightarrow>
         if is_state_kind (ci_kind info) then (snd (logic_panel_add info p), True, report)
         else (p, had_any, add_missing path report)
     | None \<Rightarrow> (p, had_any, add_missing path report))"

definition add_lane_spec :: "(string \<rightharpoonup> channel_info) \<Rightarrow> logic_lane_spec
    \<Rightarrow> logic_analyser_panel \<times> apply_report \<Rightarrow> logic_analyser_panel \<times> apply_report" where
  "add_lane_spec by_path ls = (\<lambda>(p, report).
     case by_path (lls_ch_path ls) of
       Some info \<Rightarrow>
         let acceptable = is_state_kind (ci_kind info) \<or> ci_integer_storage info;
             (added, p1) = logic_panel_add info p in
         if acceptable \<and> added
         then let mode = (if lls_mode ls = Named \<and> \<not> is_state_kind (ci_kind info)
                          then default_lane_mode (ci_kind info) (ci_integer_storage info) else lls_mode ls)
              in (set_mode (ci_id info) mode (set_radix (ci_id info) (lls_radix ls) p1), report)
         else if \<not> acceptable then (p, add_missing (lls_ch_path ls) report)
         else (p, report)
     | None \<Rightarrow> (p, add_missing (lls_ch_path ls) report))"

definition apply_style :: "(string \<rightharpoonup> channel_info) \<Rightarrow> (channel_kind \<Rightarrow> bool) \<Rightarrow> string \<times> signal_style
    \<Rightarrow> scalar_panel \<Rightarrow> scalar_panel" where
  "apply_style by_path guard = (\<lambda>(path, style) p.
     case by_path path of
       None \<Rightarrow> p
     | Some info \<Rightarrow> if guard (ci_kind info) then set_style (ci_id info) style p else p)"

definition in_group :: "string \<Rightarrow> channel_info \<Rightarrow> bool" where
  "in_group grp c \<longleftrightarrow> ci_path c = grp \<or> prefix (grp @ ''.'') (ci_path c)"

definition apply_log_view :: "(string \<rightharpoonup> channel_info) \<Rightarrow> channel_info list \<Rightarrow> string \<Rightarrow> string \<Rightarrow> string list
    \<Rightarrow> (string, filter_spec) hashmap \<Rightarrow> string option \<Rightarrow> string option \<Rightarrow> usize option \<Rightarrow> log_view_panel" where
  "apply_log_view by_path channels title grp visible_columns filters color_by priority_by max_rows =
     (let columns = map ci_id (filter (in_group grp) channels);
          resolve = (\<lambda>path. Option.bind (Option.bind path (\<lambda>p. map_option ci_id (by_path p)))
                       (\<lambda>c. if c \<in> set columns then Some c else None))
      in (log_view_new title grp)\<lparr>
        lv_columns := columns,
        lv_visible :=
          (if visible_columns = [] then [0 ..< length columns]
           else List.map_filter (\<lambda>path. Option.bind (by_path path)
                  (\<lambda>info. position (\<lambda>c. c = ci_id info) columns)) visible_columns),
        lv_filters := hm_collect (List.map_filter (\<lambda>(path, spec). Option.bind (by_path path)
             (\<lambda>info. if ci_id info \<in> set columns then Some (ci_id info, to_filter spec) else None)) filters),
        lv_color_by := resolve color_by,
        lv_priority_by := resolve priority_by,
        lv_max_rows := (case max_rows of None \<Rightarrow> LOG_VIEW_DEFAULT_MAX_ROWS | Some m \<Rightarrow> max m 1)\<rparr>)"

record apply_state =
  as_registry :: plot_registry
  as_report :: apply_report
  as_new_ids :: "plot_id option list"
  as_companions :: "(plot_id \<times> plot_id) list"

text \<open>\<open>let id = registry.insert(kind); new_ids.push(Some(id))\<close>.\<close>

definition insert_plot :: "plot_kind \<Rightarrow> apply_report \<Rightarrow> apply_state \<Rightarrow> apply_state" where
  "insert_plot kind report s =
     (let (pid, r) = registry_insert kind (as_registry s) in
      s\<lparr>as_registry := r, as_report := report, as_new_ids := as_new_ids s @ [Some pid]\<rparr>)"

definition apply_time_series :: "(string \<rightharpoonup> channel_info) \<Rightarrow> string \<Rightarrow> string list \<Rightarrow> string list
    \<Rightarrow> (string, signal_style) hashmap \<Rightarrow> apply_state \<Rightarrow> apply_state" where
  "apply_time_series by_path title scalars states styles s =
     (let (sp, report) = fold (add_scalar_path by_path) scalars (scalar_panel_new title, as_report s);
          sp = fold (apply_style by_path is_scalar_kind) styles sp;
          (scalar_id, r) = registry_insert (PK_Scalar sp) (as_registry s);
          s = s\<lparr>as_registry := r, as_report := report, as_new_ids := as_new_ids s @ [Some scalar_id]\<rparr> in
      if states = [] then s
      else let (chart, had_any, report) =
                 fold (add_state_path by_path) states (logic_panel_new (title @ '' (states)''), False, report);
               s = s\<lparr>as_report := report\<rparr> in
           if had_any
           then let (state_id, r) = registry_insert (PK_LogicAnalyser chart) (as_registry s) in
             s\<lparr>as_registry := r, as_companions := as_companions s @ [(scalar_id, state_id)]\<rparr>
           else s)"

fun apply_spec :: "(string \<rightharpoonup> channel_info) \<Rightarrow> channel_info list \<Rightarrow> plot_spec \<Rightarrow> apply_state \<Rightarrow> apply_state" where
  "apply_spec by_path channels (PS_TimeSeries title scalars states styles) s =
     apply_time_series by_path title scalars states styles s"
| "apply_spec by_path channels (PS_Scalar title paths styles) s =
     (let (p, report) = fold (add_scalar_path by_path) paths (scalar_panel_new title, as_report s) in
      insert_plot (PK_Scalar (fold (apply_style by_path (\<lambda>_. True)) styles p)) report s)"
| "apply_spec by_path channels (PS_StateChart title lanes) s =
     (let (p, _, report) = fold (add_state_path by_path) lanes (logic_panel_new title, False, as_report s) in
      insert_plot (PK_LogicAnalyser p) report s)"
| "apply_spec by_path channels (PS_LogicAnalyser title lanes) s =
     (let (p, report) = fold (add_lane_spec by_path) lanes (logic_panel_new title, as_report s) in
      insert_plot (PK_LogicAnalyser p) report s)"
| "apply_spec by_path channels (PS_LogView title grp visible_columns filters color_by priority_by max_rows) s =
     insert_plot (PK_LogView (apply_log_view by_path channels title grp visible_columns filters color_by
       priority_by max_rows)) (as_report s) s"
| "apply_spec by_path channels (PS_Xy title x y trail_ns) s =
     (let dropped =
        (let report = (if by_path x = None then add_missing x (as_report s) else as_report s);
             report = (if by_path y = None then add_missing y report else report) in
         s\<lparr>as_report := report\<lparr>ar_dropped_plots := ar_dropped_plots report + 1\<rparr>,
           as_new_ids := as_new_ids s @ [None]\<rparr>) in
      case (by_path x, by_path y) of
        (Some xinfo, Some yinfo) \<Rightarrow>
          if is_scalar_kind (ci_kind xinfo) \<and> is_scalar_kind (ci_kind yinfo)
          then insert_plot (PK_XY \<lparr>xy_title = title, xy_x = ci_id xinfo, xy_y = ci_id yinfo, xy_trail_ns = trail_ns\<rparr>)
                 (as_report s) s
          else dropped
      | _ \<Rightarrow> dropped)"

definition build_dock :: "('d, 'u, 'v) dock_lib \<Rightarrow> 'v \<Rightarrow> plot_id option list \<Rightarrow> 'd" where
  "build_dock lib dock_value new_ids =
     (let ids = List.map_filter (\<lambda>x. x) new_ids;
          fallback = (if ids = [] then dl_new lib [0] else dl_new lib ids) in
      case dl_from_value lib dock_value of
        None \<Rightarrow> fallback
      | Some dock_usize \<Rightarrow>
          let mapped = dl_filter_map_tabs lib (\<lambda>i. Option.bind (get_at new_ids i) (\<lambda>x. x)) dock_usize in
          if dl_tabs lib mapped = [] then fallback else mapped)"

definition insert_next_to :: "('d, 'u, 'v) dock_lib \<Rightarrow> plot_id \<Rightarrow> plot_id \<Rightarrow> 'd \<Rightarrow> bool \<times> 'd" where
  "insert_next_to lib anchor extra dock =
     (case position (\<lambda>tabs. anchor \<in> set tabs) (dl_leaves lib dock) of
        None \<Rightarrow> (False, dock)
      | Some i \<Rightarrow> (True, dl_push_leaf lib i extra dock))"

definition place_companion :: "('d, 'u, 'v) dock_lib \<Rightarrow> plot_id \<times> plot_id \<Rightarrow> 'd \<Rightarrow> 'd" where
  "place_companion lib = (\<lambda>(primary, companion) dock.
     let (placed, dock') = insert_next_to lib primary companion dock in
     if placed then dock' else dl_push_focused lib companion dock')"

definition paths_of :: "channel_info list \<Rightarrow> string \<rightharpoonup> channel_info" where
  "paths_of channels path = hm_get (hm_collect (map (\<lambda>c. (ci_path c, c)) channels)) path"

definition apply_layout :: "('d, 'u, 'v) dock_lib \<Rightarrow> 'v layout \<Rightarrow> channel_info list
    \<Rightarrow> plot_registry \<times> 'd \<times> apply_report" where
  "apply_layout lib layout channels =
     (let s = fold (apply_spec (paths_of channels) channels) (ly_plots layout)
            \<lparr>as_registry = registry_new, as_report = report_default, as_new_ids = [], as_companions = []\<rparr>;
          dock = build_dock lib (ly_dock layout) (as_new_ids s) in
      (as_registry s, fold (place_companion lib) (as_companions s) dock, as_report s))"

end
