(* ===== verification/Camera.thy ===== *)
theory Camera
  imports Strings Store
begin

text \<open>
  The time base of the viewer (\<open>viewer/crates/btelem-viewer/src/view_state.rs\<close>): the camera with its
  pan and zoom actions, the visible window computed from it, and the rolling rate estimator of the
  status bar. Bounds are \<open>f64\<close> seconds and are computed with the rounding of \<open>Float64\<close>; timestamps are
  64-bit nanoseconds, with additions that panic or wrap as the build has it (\<open>chk\<close>).
\<close>

section \<open>Camera\<close>

datatype time_base = Follow | Pan

fun time_base_label :: "time_base \<Rightarrow> string" where
  "time_base_label Follow = ''follow''"
| "time_base_label Pan = ''pan''"

fun time_base_toggle :: "time_base \<Rightarrow> time_base" where
  "time_base_toggle Follow = Pan"
| "time_base_toggle Pan = Follow"

record camera =
  cam_mode :: time_base
  cam_window_ns :: u64
  cam_free_bounds_s :: "(f64 \<times> f64) option"

definition camera_default :: camera where
  "camera_default = \<lparr>cam_mode = Follow, cam_window_ns = 10000000000, cam_free_bounds_s = None\<rparr>"

definition camera_follow :: "camera \<Rightarrow> bool" where
  "camera_follow cam \<longleftrightarrow> cam_mode cam = Follow"

definition pan_x :: "f64 \<Rightarrow> f64 \<times> f64 \<Rightarrow> camera \<Rightarrow> camera" where
  "pan_x delta_s fallback cam =
     (let (lo, hi) = unwrap_or fallback (cam_free_bounds_s cam) in
      cam\<lparr>cam_mode := Pan, cam_free_bounds_s := Some (f64_add lo delta_s, f64_add hi delta_s)\<rparr>)"

definition MIN_SPAN_S :: f64 where
  "MIN_SPAN_S = f64_round (1 / 10 ^ 6)"

definition zoom_x :: "f64 \<Rightarrow> f64 \<Rightarrow> f64 \<times> f64 \<Rightarrow> camera \<Rightarrow> camera" where
  "zoom_x factor pivot fallback cam =
     (let (lo, hi) = unwrap_or fallback (cam_free_bounds_s cam);
          new_lo = f64_add pivot (f64_mul (f64_sub lo pivot) factor);
          new_hi = f64_add pivot (f64_mul (f64_sub hi pivot) factor);
          half = Fin (1 / 2) in
      if f64_lt (f64_sub new_hi new_lo) MIN_SPAN_S
      then let mid = f64_mul (f64_add new_lo new_hi) half in
        cam\<lparr>cam_mode := Pan, cam_free_bounds_s :=
          Some (f64_sub mid (f64_mul MIN_SPAN_S half), f64_add mid (f64_mul MIN_SPAN_S half))\<rparr>
      else cam\<lparr>cam_mode := Pan, cam_free_bounds_s := Some (new_lo, new_hi)\<rparr>)"

definition camera_reset :: "camera \<Rightarrow> camera" where
  "camera_reset cam = cam\<lparr>cam_mode := Follow, cam_free_bounds_s := None\<rparr>"

text \<open>\<open>(t as f64) / 1e9\<close>.\<close>

definition ns_to_s :: "u64 \<Rightarrow> f64" where
  "ns_to_s t = f64_div (f64_of_int (uint t)) (Fin (10 ^ 9))"

definition view_all :: "(u64 \<times> u64) option \<Rightarrow> camera \<Rightarrow> camera" where
  "view_all data cam =
     (case data of
        None \<Rightarrow> cam
      | Some (lo, hi) \<Rightarrow>
          let s_lo = ns_to_s lo;
              s_hi = f64_max (ns_to_s hi) (f64_add s_lo (f64_round (1 / 10 ^ 9))) in
          cam\<lparr>cam_mode := Pan, cam_free_bounds_s := Some (s_lo, s_hi)\<rparr>)"

definition zoom_in_at :: "f64 \<Rightarrow> f64 \<Rightarrow> f64 \<times> f64 \<Rightarrow> camera \<Rightarrow> camera" where
  "zoom_in_at factor pivot fallback cam = zoom_x factor pivot fallback cam"

definition jump_to :: "u64 \<Rightarrow> f64 \<times> f64 \<Rightarrow> camera \<Rightarrow> camera" where
  "jump_to t_ns fallback cam =
     (let (lo, hi) = unwrap_or fallback (cam_free_bounds_s cam);
          half = f64_max (f64_mul (f64_sub hi lo) (Fin (1 / 2))) (f64_round (1 / 1000));
          centre = ns_to_s t_ns in
      cam\<lparr>cam_mode := Pan, cam_free_bounds_s := Some (f64_sub centre half, f64_add centre half)\<rparr>)"

text \<open>\<open>f64::clamp\<close>: panics unless \<open>lo <= hi\<close>; a NaN stays a NaN.\<close>

definition f64_clamp :: "f64 \<Rightarrow> f64 \<Rightarrow> f64 \<Rightarrow> f64 run" where
  "f64_clamp x lo hi =
     (if \<not> f64_le lo hi then Panic
      else Ok (if f64_lt x lo then lo else if f64_lt hi x then hi else x))"

definition ABS_MAX_NS :: f64 where
  "ABS_MAX_NS = Fin (36 * 10 ^ 11)"

definition zoom_window :: "f64 \<Rightarrow> u64 option \<Rightarrow> camera \<Rightarrow> camera run" where
  "zoom_window factor max_ns cam =
     obind (case max_ns of
              None \<Rightarrow> Ok ABS_MAX_NS
            | Some m \<Rightarrow> f64_clamp (f64_of_int (uint m)) (Fin (10 ^ 6)) ABS_MAX_NS) (\<lambda>upper.
     obind (f64_clamp (f64_mul (f64_of_int (uint (cam_window_ns cam))) factor) (Fin (10 ^ 6)) upper) (\<lambda>x.
     Ok (cam\<lparr>cam_window_ns := max (f64_to_u64 x) 1\<rparr>)))"

section \<open>The visible window\<close>

text \<open>\<open>saturating_sub\<close>.\<close>

definition sat_sub :: "u64 \<Rightarrow> u64 \<Rightarrow> u64" where
  "sat_sub a b = (if a < b then 0 else a - b)"

text \<open>\<open>(x.max(0.0) * 1e9) as u64\<close>.\<close>

definition s_to_ns :: "f64 \<Rightarrow> u64" where
  "s_to_ns x = f64_to_u64 (f64_mul (f64_max x (Fin 0)) (Fin (10 ^ 9)))"

definition compute_view :: "bool \<Rightarrow> camera \<Rightarrow> (u64 \<times> u64) option \<Rightarrow> (u64 \<times> u64) option run" where
  "compute_view chk cam data =
     (case data of
        None \<Rightarrow> Ok None
      | Some (earliest, latest) \<Rightarrow>
          (case cam_mode cam of
             Follow \<Rightarrow>
               let left = sat_sub latest (cam_window_ns cam) in
               obind (add_chk chk left 1) (\<lambda>l1. Ok (Some (left, max latest l1)))
           | Pan \<Rightarrow>
               (case cam_free_bounds_s cam of
                  Some (a, b) \<Rightarrow>
                    let lo = s_to_ns a; hi = s_to_ns b in
                    obind (add_chk chk lo 1) (\<lambda>l1. Ok (Some (min lo hi, max hi l1)))
                | None \<Rightarrow>
                    obind (add_chk chk earliest 1) (\<lambda>e1. Ok (Some (earliest, max latest e1))))))"

section \<open>Rate estimator\<close>

text \<open>An \<open>Instant\<close> is a number of nanoseconds; \<open>duration_since\<close> of a later instant is zero.\<close>

record rate_estimator =
  re_window :: "(nat \<times> u64) list"
  re_window_secs :: f64

definition rate_new :: "f64 \<Rightarrow> rate_estimator" where
  "rate_new secs = \<lparr>re_window = [], re_window_secs = secs\<rparr>"

definition rate_default :: rate_estimator where
  "rate_default = rate_new (Fin 2)"

definition duration_secs :: "nat \<Rightarrow> f64" where
  "duration_secs n = f64_add (f64_of_int (int (n div 10 ^ 9)))
     (f64_div (f64_of_int (int (n mod 10 ^ 9))) (Fin (10 ^ 9)))"

fun expire :: "nat \<Rightarrow> f64 \<Rightarrow> (nat \<times> u64) list \<Rightarrow> (nat \<times> u64) list" where
  "expire now secs [] = []"
| "expire now secs ((t, c) # w) =
     (if f64_lt secs (duration_secs (now - t)) then expire now secs w else (t, c) # w)"

definition rate_push :: "nat \<Rightarrow> u64 \<Rightarrow> rate_estimator \<Rightarrow> rate_estimator" where
  "rate_push now count e =
     e\<lparr>re_window := expire now (re_window_secs e) (re_window e @ [(now, count)])\<rparr>"

definition rate_of :: "rate_estimator \<Rightarrow> f64" where
  "rate_of e =
     (if length (re_window e) < 2 then Fin 0
      else let (t0, c0) = hd (re_window e); (t1, c1) = last (re_window e);
               dt = duration_secs (t1 - t0) in
        if f64_lt dt (f64_round (1 / 10 ^ 6)) then Fin 0
        else f64_div (f64_of_int (uint (sat_sub c1 c0))) dt)"

section \<open>Conversions between seconds and nanoseconds\<close>

lemma f64_to_u64_Fin:
  assumes "0 \<le> r" and "r < 2 ^ 64"
  shows "unat (f64_to_u64 (Fin r)) = nat \<lfloor>r\<rfloor>"
proof -
  have f: "0 \<le> \<lfloor>r\<rfloor>" "\<lfloor>r\<rfloor> < 2 ^ 64" using assms by (simp_all add: floor_less_iff)
  have "max 0 (min (2 ^ 64 - 1) \<lfloor>r\<rfloor>) = \<lfloor>r\<rfloor>" using f by linarith
  then have "f64_to_u64 (Fin r) = of_int \<lfloor>r\<rfloor>"
    unfolding f64_to_u64_def f64_to_int_def f64.case trunc_rat_def if_P[OF assms(1)] by (rule arg_cong)
  then show ?thesis using f by (simp add: unat_eq_nat_uint uint_word_of_int)
qed

lemma uint_eq_unat: "uint (t :: u64) = int (unat t)"
  by simp

lemma ns_to_s_eq: "ns_to_s t = Fin (rnd (u64_real (unat t) / 10 ^ 9))"
proof -
  have u: "0 \<le> u64_real (unat t)" "u64_real (unat t) \<le> 2 powi 64"
    using u64_real_le[OF unat_le_pow64] by simp_all
  have "u64_real (unat t) / 10 ^ 9 \<le> 2 powi 64" using u by (simp add: divide_le_eq)
  also have "\<dots> \<le> 2 powi 1000" by (rule powi2_mono) simp
  finally have "f64_round (u64_real (unat t) / 10 ^ 9) = Fin (rnd (u64_real (unat t) / 10 ^ 9))"
    using u(1) by (intro f64_round_rnd) simp_all
  then show ?thesis
    unfolding ns_to_s_def uint_eq_unat f64_of_nat_eq[OF unat_le_pow64] by simp
qed

lemma s_to_ns_eq:
  assumes "0 \<le> x" and "x \<le> 9 * 10 ^ 9"
  shows "unat (s_to_ns (Fin x)) = nat \<lfloor>rnd (x * 10 ^ 9)\<rfloor>" and "rnd (x * 10 ^ 9) \<le> 2 ^ 63"
proof -
  have b: "x * 10 ^ 9 \<le> 2 powi 63" using assms(2) by simp
  have r: "rnd (x * 10 ^ 9) \<le> 2 powi 63" using assms(1) b by (intro rnd_le_powi) simp_all
  have "(2::rat) powi 63 \<le> 2 powi 1000" by (rule powi2_mono) simp
  then have f: "f64_round (x * 10 ^ 9) = Fin (rnd (x * 10 ^ 9))"
    using assms(1) b by (intro f64_round_rnd) (simp, linarith)
  have m: "f64_max (Fin x) (Fin 0) = Fin x" using assms(1) by (auto simp: f64_max_def)
  show "rnd (x * 10 ^ 9) \<le> 2 ^ 63" using r by simp
  then show "unat (s_to_ns (Fin x)) = nat \<lfloor>rnd (x * 10 ^ 9)\<rfloor>"
    unfolding s_to_ns_def m using f rnd_nonneg[of "x * 10 ^ 9"] assms(1) by (simp add: f64_to_u64_Fin)
qed

lemma unat_minus1: "unat (- 1 :: u64) = 2 ^ 64 - 1"
  by (simp add: unsigned_minus_1_eq_mask mask_eq_exp_minus_1)

lemma unat_plus1: "(w :: u64) \<noteq> - 1 \<Longrightarrow> unat (w + 1) = unat w + 1"
proof -
  assume "w \<noteq> - 1"
  then have "unat w \<noteq> 2 ^ 64 - 1" by (simp add: word_unat_eq_iff unat_minus1)
  then have "unat w + unat (1 :: u64) < 2 ^ LENGTH(64)" using unat_lt2p[of w] by simp
  then show ?thesis by (subst unat_add_lem[THEN iffD1]) simp_all
qed

lemma add_chk_1: "w \<noteq> - 1 \<Longrightarrow> add_chk chk w (1 :: u64) = Ok (w + 1)"
proof (rule add_chk_Ok)
  assume "w \<noteq> - 1"
  then have "unat (w + 1) = unat w + unat (1 :: u64)" using unat_plus1 by simp
  then show "unat w + unat (1 :: u64) < 2 ^ LENGTH(64)" using unat_lt2p[of "w + 1"] by simp
qed

lemma less_plus1: "w \<noteq> - 1 \<Longrightarrow> w < w + (1 :: u64)"
  using unat_plus1[of w] by (simp add: word_less_nat_alt)

lemma max_plus1: "w < v \<Longrightarrow> max v (w + (1 :: u64)) = v"
proof -
  assume lt: "w < v"
  then have n: "w \<noteq> - 1" by (metis word_order.extremum_strict)
  have "w + 1 \<le> v" using lt unat_plus1[OF n] by (simp add: word_le_nat_alt word_less_nat_alt)
  then show ?thesis by (simp add: max_absorb1)
qed

lemma window_nonempty: "lo \<noteq> - 1 \<Longrightarrow> min lo hi < max hi (lo + (1 :: u64))"
  using less_plus1[of lo] by (auto simp: min_def max_def)

lemma s_to_ns_below:
  assumes "\<not> f64_lt (Fin (9 * 10 ^ 9)) a"
  shows "s_to_ns a \<noteq> - 1"
proof -
  have "unat (s_to_ns a) \<le> 2 ^ 63"
  proof (cases "f64_max a (Fin 0)")
    case (Fin x)
    have x: "0 \<le> x" "x \<le> 9 * 10 ^ 9" "f64_max (Fin x) (Fin 0) = Fin x"
      using assms Fin by (cases a; auto simp: f64_max_def split: if_splits)+
    have "s_to_ns a = s_to_ns (Fin x)" unfolding s_to_ns_def Fin x(3) ..
    moreover have "nat \<lfloor>rnd (x * 10 ^ 9)\<rfloor> \<le> nat (2 ^ 63)"
      by (rule nat_mono) (use s_to_ns_eq(2)[OF x(1,2)] in \<open>simp add: floor_le_iff\<close>)
    ultimately show ?thesis using s_to_ns_eq(1)[OF x(1,2)] by simp
  qed (use assms in \<open>cases a; auto simp: f64_max_def split: if_splits\<close>)+
  then show ?thesis using unat_minus1 by auto
qed

section \<open>Properties\<close>



lemma f64_clamp_Fin:
  assumes "l \<le> h"
  obtains y where "f64_clamp x (Fin l) (Fin h) = Ok y" and "y = FNaN \<longleftrightarrow> x = FNaN"
    and "x \<noteq> FNaN \<Longrightarrow> \<exists>r. y = Fin r \<and> l \<le> r \<and> r \<le> h"
  using assms by (cases x) (auto simp: f64_clamp_def f64_le_def)

lemma f64_of_u64: "f64_of_int (uint (m :: u64)) = Fin (u64_real (unat m))"
  unfolding uint_eq_unat by (rule f64_of_nat_eq[OF unat_le_pow64])

lemma max1_bounds:
  assumes "y = FNaN \<or> (\<exists>r. y = Fin r \<and> 10 ^ 6 \<le> r \<and> r \<le> of_nat h)" and "10 ^ 6 \<le> h" "h < 2 ^ 64"
  shows "1 \<le> unat (max (f64_to_u64 y) 1) \<and> unat (max (f64_to_u64 y) 1) \<le> h
    \<and> (y \<noteq> FNaN \<longrightarrow> 10 ^ 6 \<le> unat (max (f64_to_u64 y) 1))"
proof (cases "y = FNaN")
  case True
  then show ?thesis using assms(2) by (simp add: f64_to_u64_def f64_to_int_def)
next
  case False
  then obtain r where r: "y = Fin r" "10 ^ 6 \<le> r" "r \<le> of_nat h" using assms(1) by blast
  have "(of_nat h :: rat) < 2 ^ 64" using assms(3) of_nat_less_iff[of h "2 ^ 64", where ?'a = rat] by simp
  then have u: "unat (f64_to_u64 y) = nat \<lfloor>r\<rfloor>" using r f64_to_u64_Fin[of r] by simp
  have "10 ^ 6 \<le> \<lfloor>r\<rfloor>" using r(2) by (simp add: le_floor_iff)
  moreover have "\<lfloor>r\<rfloor> \<le> int h" using r(3) floor_mono[OF r(3)] by simp
  ultimately have b: "10 ^ 6 \<le> unat (f64_to_u64 y)" "unat (f64_to_u64 y) \<le> h"
    using u by (simp_all add: nat_le_iff le_nat_iff)
  then have "max (f64_to_u64 y) 1 = f64_to_u64 y" by (simp add: max_def word_le_nat_alt)
  then show ?thesis using b by simp
qed

lemma clamp_span:
  "f64_clamp (Fin (u64_real n)) (Fin (10 ^ 6)) (Fin (36 * 10 ^ 11)) =
     Ok (Fin (of_nat (max (10 ^ 6) (min (36 * 10 ^ 11) n))))"
proof (cases "n \<le> 36 * 10 ^ 11")
  case True
  then have e: "u64_real n = of_nat n" by (intro u64_real_exact) simp
  have c: "rat_of_nat n < 10 ^ 6 \<longleftrightarrow> n < 10 ^ 6" "\<not> 36 * 10 ^ 11 < rat_of_nat n"
    using True of_nat_less_iff[of n "10 ^ 6", where ?'a = rat]
      of_nat_less_iff[of "36 * 10 ^ 11" n, where ?'a = rat] by simp_all
  show ?thesis using True c unfolding e by (auto simp: f64_clamp_def f64_le_def max_def)
next
  case False
  then have "u64_real (36 * 10 ^ 11 + 1) \<le> u64_real n" by (intro u64_real_mono) simp
  then have "36 * 10 ^ 11 < u64_real n" using u64_real_exact[of "36 * 10 ^ 11 + 1"] by simp
  then show ?thesis using False by (simp add: f64_clamp_def f64_le_def)
qed

text \<open>
  Zooming the follow window never panics, whatever the factor (NaN and infinities included): the
  window stays between 1 ms and one hour, does not grow past the span of the data, and falls to
  1 ns only if the product of window and factor is NaN.
\<close>

theorem zoom_window_bounds:
  "\<exists>cam'. zoom_window factor max_ns cam = Ok cam'
    \<and> cam_mode cam' = cam_mode cam \<and> cam_free_bounds_s cam' = cam_free_bounds_s cam
    \<and> 1 \<le> unat (cam_window_ns cam') \<and> unat (cam_window_ns cam') \<le> 36 * 10 ^ 11
    \<and> (f64_mul (f64_of_int (uint (cam_window_ns cam))) factor \<noteq> FNaN \<longrightarrow> 10 ^ 6 \<le> unat (cam_window_ns cam'))
    \<and> (\<forall>m. max_ns = Some m \<and> 10 ^ 6 \<le> unat m \<and> unat m \<le> 36 * 10 ^ 11 \<longrightarrow> unat (cam_window_ns cam') \<le> unat m)"
proof -
  let ?x = "f64_mul (f64_of_int (uint (cam_window_ns cam))) factor"
  define h where "h = (case max_ns of None \<Rightarrow> 36 * 10 ^ 11 | Some m \<Rightarrow> max (10 ^ 6) (min (36 * 10 ^ 11) (unat m)))"
  have h: "10 ^ 6 \<le> h" "h \<le> 36 * 10 ^ 11" by (auto simp: h_def split: option.splits)
  have up: "(case max_ns of None \<Rightarrow> Ok ABS_MAX_NS
      | Some m \<Rightarrow> f64_clamp (f64_of_int (uint m)) (Fin (10 ^ 6)) ABS_MAX_NS) = (Ok (Fin (of_nat h)) :: f64 run)"
  proof (cases max_ns)
    case (Some m)
    then show ?thesis unfolding f64_of_u64 h_def ABS_MAX_NS_def by (simp only: option.case clamp_span)
  qed (simp add: h_def ABS_MAX_NS_def)
  have "(10 ^ 6 :: rat) \<le> of_nat h" using h(1) of_nat_le_iff[of "10 ^ 6" h, where ?'a = rat] by simp
  then obtain y where y: "f64_clamp ?x (Fin (10 ^ 6)) (Fin (of_nat h)) = Ok y" "y = FNaN \<longleftrightarrow> ?x = FNaN"
    "?x \<noteq> FNaN \<Longrightarrow> \<exists>r. y = Fin r \<and> 10 ^ 6 \<le> r \<and> r \<le> of_nat h"
    by (rule f64_clamp_Fin) blast
  have z: "zoom_window factor max_ns cam = Ok (cam\<lparr>cam_window_ns := max (f64_to_u64 y) 1\<rparr>)"
    unfolding zoom_window_def up by (simp only: obind.simps y(1))
  have b: "1 \<le> unat (max (f64_to_u64 y) 1) \<and> unat (max (f64_to_u64 y) 1) \<le> h
      \<and> (y \<noteq> FNaN \<longrightarrow> 10 ^ 6 \<le> unat (max (f64_to_u64 y) 1))"
    using y h by (intro max1_bounds) auto
  have "h \<le> unat m" if "max_ns = Some m" "10 ^ 6 \<le> unat m" for m
    using that by (simp add: h_def)
  then show ?thesis using z b h(2) y(2) by (auto intro: order_trans)
qed

theorem zoom_window_bounds_witness:
  "\<exists>cam'. zoom_window (Fin (1 / 2)) (Some 5000000) camera_default = Ok cam' \<and> unat (cam_window_ns cam') \<le> 5000000"
  using zoom_window_bounds[of "Fin (1 / 2)" "Some 5000000" camera_default] by auto

section \<open>Viewing all data\<close>

lemma ns_roundtrip:
  assumes "n \<le> 2 ^ 51"
  shows "rnd (rnd (of_nat n / 10 ^ 9) * 10 ^ 9) < of_nat n + 1"
    and "of_nat n - 1 \<le> rnd (rnd (of_nat n / 10 ^ 9) * 10 ^ 9)"
proof -
  define e :: rat where "e = 2 powi (- 53)"
  have e: "0 \<le> e" "e \<le> 1" "(2 ^ 51 :: rat) * (2 * e + e * e) < 1" unfolding e_def by (simp_all add: power_int_minus_divide)
  define q :: rat where "q = of_nat n / 10 ^ 9"
  have n: "(of_nat n :: rat) \<le> 2 ^ 51" using assms of_nat_le_iff[of n "2 ^ 51", where ?'a = rat] by simp
  have tiny: "(2::rat) powi (- 1022) \<le> 1 / 10 ^ 10"
  proof -
    have "(2::rat) powi (- 1022) \<le> 2 powi (- 34)" by (rule powi2_mono) simp
    also have "\<dots> \<le> 1 / 10 ^ 10" by (simp add: power_int_minus_divide)
    finally show ?thesis .
  qed
  have q1: "2 powi (- 1022) \<le> q \<or> q = 0"
  proof (cases "n = 0")
    case False
    then have "(1::rat) \<le> of_nat n" by simp
    then have "1 / 10 ^ 10 \<le> q" by (simp add: q_def)
    then show ?thesis using tiny by linarith
  qed (simp add: q_def)
  note r1 = rnd_rel_error[OF q1, folded e_def]
  have "2 powi (- 1022) \<le> rnd q * 10 ^ 9 \<or> rnd q * 10 ^ 9 = 0"
  proof (cases "n = 0")
    case False
    then have "(1::rat) \<le> of_nat n" by simp
    then have "1 / 10 ^ 9 \<le> q" by (simp add: q_def)
    moreover have "(1 / 2 :: rat) \<le> 1 - e" using e(3) by (simp add: e_def power_int_minus_divide)
    ultimately have "1 / 10 ^ 9 * (1 / 2) \<le> q * (1 - e)" by (intro mult_mono) simp_all
    then have "1 / 10 ^ 10 \<le> rnd q * 10 ^ 9" using r1(2) by simp
    then show ?thesis using tiny by linarith
  qed (simp add: q_def rnd_def)
  note r2 = rnd_rel_error[OF this, folded e_def]
  have pos: "0 \<le> q" by (simp add: q_def)
  have "rnd q * 10 ^ 9 * (1 + e) \<le> of_nat n * (1 + e) * (1 + e)"
    using r1(1) e by (intro mult_right_mono) (simp_all add: q_def)
  also have "\<dots> = of_nat n + of_nat n * (2 * e + e * e)" by (simp add: algebra_simps)
  also have "\<dots> \<le> of_nat n + 2 ^ 51 * (2 * e + e * e)"
    using n e by (intro add_left_mono mult_right_mono) simp_all
  finally show "rnd (rnd (of_nat n / 10 ^ 9) * 10 ^ 9) < of_nat n + 1"
    using r2(1) e(3) unfolding q_def by linarith
  have "of_nat n - 2 ^ 51 * (2 * e) \<le> of_nat n - of_nat n * (2 * e)"
    using n e by (intro diff_left_mono mult_right_mono) simp_all
  also have "\<dots> \<le> of_nat n * (1 - e) * (1 - e)" using e(1) by (simp add: algebra_simps)
  also have "\<dots> \<le> rnd q * 10 ^ 9 * (1 - e)"
    using r1(2) e by (intro mult_right_mono) (simp_all add: q_def)
  finally show "of_nat n - 1 \<le> rnd (rnd (of_nat n / 10 ^ 9) * 10 ^ 9)"
  proof -
    assume a: "of_nat n - 2 ^ 51 * (2 * e) \<le> rnd q * 10 ^ 9 * (1 - e)"
    have "(2 ^ 51 :: rat) * (2 * e) \<le> 1" by (simp add: e_def power_int_minus_divide)
    then show ?thesis using a r2(2) unfolding q_def by linarith
  qed
qed

lemma ns_to_s_small:
  assumes "unat t \<le> 2 ^ 51"
  shows "ns_to_s t = Fin (rnd (of_nat (unat t) / 10 ^ 9))"
    and "0 \<le> rnd (rat_of_nat (unat t) / 10 ^ 9)" and "rnd (rat_of_nat (unat t) / 10 ^ 9) \<le> 2 ^ 22"
proof -
  have "u64_real (unat t) = of_nat (unat t)" using assms by (intro u64_real_exact) simp
  then show "ns_to_s t = Fin (rnd (of_nat (unat t) / 10 ^ 9))" using ns_to_s_eq[of t] by (simp only:)
  show "0 \<le> rnd (rat_of_nat (unat t) / 10 ^ 9)" by (simp add: rnd_nonneg del: of_nat_unat)
  have "rat_of_nat (unat t) \<le> of_nat (2 ^ 51)" using assms by (simp only: of_nat_le_iff)
  then have "rat_of_nat (unat t) / 10 ^ 9 \<le> 2 powi 22" by (simp del: of_nat_unat)
  then have "rnd (rat_of_nat (unat t) / 10 ^ 9) \<le> 2 powi 22"
    by (intro rnd_le_powi) (simp_all del: of_nat_unat)
  then show "rnd (rat_of_nat (unat t) / 10 ^ 9) \<le> 2 ^ 22" by (simp del: of_nat_unat)
qed

lemma view_all_bounds:
  assumes "unat lo \<le> 2 ^ 51" and "unat hi \<le> 2 ^ 51"
  obtains y where "cam_free_bounds_s (view_all (Some (lo, hi)) cam) = Some (ns_to_s lo, Fin y)"
    and "rnd (rat_of_nat (unat hi) / 10 ^ 9) \<le> y" and "y \<le> 2 ^ 23"
proof -
  let ?a = "rnd (rat_of_nat (unat lo) / 10 ^ 9)" and ?b = "rnd (rat_of_nat (unat hi) / 10 ^ 9)"
  define g :: rat where "g = rnd (1 / 10 ^ 9)"
  have "(1 / 10 ^ 9 :: rat) \<le> 2 powi 0" by simp
  then have g: "0 \<le> g" "g \<le> 2 powi 0" unfolding g_def by (intro rnd_nonneg rnd_le_powi; simp)+
  have "f64_round (1 / 10 ^ 9) = Fin g"
  proof -
    have "(1 / 10 ^ 9 :: rat) \<le> 2 powi 0" by simp
    also have "\<dots> \<le> 2 powi 1000" by (rule powi2_mono) simp
    finally show ?thesis unfolding g_def by (intro f64_round_rnd) simp_all
  qed
  moreover have s: "0 \<le> ?a + g" "?a + g \<le> 2 powi 23"
    using ns_to_s_small(2,3)[OF assms(1)] g by simp_all
  have "f64_round (?a + g) = Fin (rnd (?a + g))"
  proof (rule f64_round_rnd[OF s(1)])
    have "(2::rat) powi 23 \<le> 2 powi 1000" by (rule powi2_mono) simp
    then show "?a + g \<le> 2 powi 1000" using s(2) by linarith
  qed
  ultimately have "f64_max (ns_to_s hi) (f64_add (ns_to_s lo) (f64_round (1 / 10 ^ 9))) = Fin (max ?b (rnd (?a + g)))"
    unfolding ns_to_s_small(1)[OF assms(1)] ns_to_s_small(1)[OF assms(2)]
    by (simp only: f64_add.simps) (auto simp: f64_max_def max_def)
  then have "cam_free_bounds_s (view_all (Some (lo, hi)) cam) = Some (ns_to_s lo, Fin (max ?b (rnd (?a + g))))"
    by (simp add: view_all_def Let_def)
  moreover have "rnd (?a + g) \<le> 2 powi 23" using s by (intro rnd_le_powi) simp_all
  then have "max ?b (rnd (?a + g)) \<le> 2 ^ 23" using ns_to_s_small(3)[OF assms(2)] by simp
  ultimately show thesis using that by simp
qed

text \<open>
  C32. \<open>view_all\<close> shows all data: the window computed from it starts at the first sample or one
  nanosecond before it, and ends at most one nanosecond before the last sample, for sessions of up
  to \<open>2 ^ 51\<close> ns (26 days). The nanosecond is the rounding of seconds held as \<open>f64\<close>.
\<close>

theorem view_all_covers:
  assumes "lo \<le> hi" and "unat hi \<le> 2 ^ 51"
  shows "\<exists>a b. compute_view chk (view_all (Some (lo, hi)) cam) (Some (lo, hi)) = Ok (Some (a, b))
    \<and> unat a \<le> unat lo \<and> unat lo \<le> unat a + 1 \<and> unat hi \<le> unat b + 1"
proof -
  have l: "unat lo \<le> 2 ^ 51" using assms by (simp add: word_le_nat_alt)
  obtain y where y: "cam_free_bounds_s (view_all (Some (lo, hi)) cam) = Some (ns_to_s lo, Fin y)"
    "rnd (rat_of_nat (unat hi) / 10 ^ 9) \<le> y" "y \<le> 2 ^ 23" by (rule view_all_bounds[OF l assms(2)])
  let ?x = "rnd (rat_of_nat (unat lo) / 10 ^ 9)"
  have c: "(2::rat) ^ 22 \<le> 9 * 10 ^ 9" "(2::rat) ^ 23 \<le> 9 * 10 ^ 9" by simp_all
  have x: "0 \<le> ?x" "?x \<le> 9 * 10 ^ 9" using c ns_to_s_small(2,3)[OF l] by linarith+
  have y0: "0 \<le> y" "y \<le> 9 * 10 ^ 9" using c y(2,3) ns_to_s_small(2)[OF assms(2)] by linarith+
  have a: "unat (s_to_ns (ns_to_s lo)) = nat \<lfloor>rnd (?x * 10 ^ 9)\<rfloor>"
    unfolding ns_to_s_small(1)[OF l] by (rule s_to_ns_eq(1)[OF x])
  have "\<lfloor>rnd (?x * 10 ^ 9)\<rfloor> \<le> int (unat lo)" "int (unat lo) - 1 \<le> \<lfloor>rnd (?x * 10 ^ 9)\<rfloor>"
    using ns_roundtrip[OF l] by (simp_all add: floor_le_iff le_floor_iff del: of_nat_unat)
  then have a2: "unat (s_to_ns (ns_to_s lo)) \<le> unat lo" "unat lo \<le> unat (s_to_ns (ns_to_s lo)) + 1"
    using a by linarith+
  have "rat_of_nat (unat hi) - 1 \<le> rnd (rnd (rat_of_nat (unat hi) / 10 ^ 9) * 10 ^ 9)"
    using ns_roundtrip(2)[OF assms(2)] .
  also have "\<dots> \<le> rnd (y * 10 ^ 9)"
    using y(2) ns_to_s_small(2)[OF assms(2)] by (intro rnd_mono mult_right_mono) simp_all
  finally have "int (unat hi) - 1 \<le> \<lfloor>rnd (y * 10 ^ 9)\<rfloor>" by (simp add: le_floor_iff del: of_nat_unat)
  then have b: "unat hi \<le> unat (s_to_ns (Fin y)) + 1" using s_to_ns_eq(1)[OF y0] by linarith
  have n: "s_to_ns (ns_to_s lo) \<noteq> - 1"
    using x ns_to_s_small(1)[OF l] by (intro s_to_ns_below) simp
  have m: "cam_mode (view_all (Some (lo, hi)) cam) = Pan" by (simp add: view_all_def Let_def)
  have "compute_view chk (view_all (Some (lo, hi)) cam) (Some (lo, hi)) =
      Ok (Some (min (s_to_ns (ns_to_s lo)) (s_to_ns (Fin y)), max (s_to_ns (Fin y)) (s_to_ns (ns_to_s lo) + 1)))"
    by (simp add: compute_view_def m y(1) Let_def add_chk_1[OF n])
  moreover have "s_to_ns (ns_to_s lo) \<le> s_to_ns (Fin y)"
  proof -
    have "rat_of_nat (unat lo) \<le> of_nat (unat hi)" using assms(1) by (simp only: of_nat_le_iff word_le_nat_alt)
    then have "?x \<le> rnd (rat_of_nat (unat hi) / 10 ^ 9)"
      by (intro rnd_mono divide_right_mono) (simp_all del: of_nat_unat)
    then have "rnd (?x * 10 ^ 9) \<le> rnd (y * 10 ^ 9)"
      using y(2) x(1) by (intro rnd_mono mult_right_mono) (simp_all del: of_nat_unat)
    then show ?thesis
      unfolding word_le_nat_alt a s_to_ns_eq(1)[OF y0] by (intro nat_mono floor_mono)
  qed
  ultimately show ?thesis using a2 b by (simp add: word_le_nat_alt max_def)
qed

theorem view_all_covers_witness:
  "\<exists>a b. compute_view True (view_all (Some (3, 8)) camera_default) (Some (3, 8)) = Ok (Some (a, b))
    \<and> unat a \<le> 3 \<and> 8 \<le> unat b + 1"
  using view_all_covers[of 3 8 True camera_default] by auto

end
