(* ===== verification/Rows.thy ===== *)
theory Rows
  imports Panels Labels Store_Log
begin

text \<open>
  The log table of \<open>viewer/crates/btelem-viewer/src/plot_renderers.rs\<close>: rows are built from the store
  (one per sample of the anchor column, the other columns carried forward), filtered, and truncated
  to the row budget by priority. Widgets are parameters: what the user leaves in an edit field is an
  argument of the operation that reads it.
\<close>

section \<open>Cells and rows\<close>

datatype filter_kind = FKind_Text | FKind_Numeric | FKind_Enum "string list"

fun filter_kind_from_channel :: "channel_kind \<Rightarrow> filter_kind" where
  "filter_kind_from_channel CK_Text = FKind_Text"
| "filter_kind_from_channel CK_Scalar = FKind_Numeric"
| "filter_kind_from_channel (CK_State labels) = FKind_Enum labels"

record log_cell =
  lc_display :: string
  lc_raw :: "f64 option"

record log_row =
  lr_t :: u64
  lr_cells :: "(channel_id, log_cell) hashmap"

definition LOG_SCAN_MAX :: usize where
  "LOG_SCAN_MAX = 200000"

text \<open>A \<open>BTreeMap\<close> is an association list in key order.\<close>

fun bt_insert :: "'k::linorder \<Rightarrow> 'v \<Rightarrow> ('k \<times> 'v) list \<Rightarrow> ('k \<times> 'v) list" where
  "bt_insert k v [] = [(k, v)]"
| "bt_insert k v ((j, w) # m) =
     (if k < j then (k, v) # (j, w) # m
      else if k = j then (k, v) # m
      else (j, w) # bt_insert k v m)"

text \<open>\<open>range(..=t).next_back()\<close>.\<close>

definition bt_upto :: "'k::linorder \<Rightarrow> ('k \<times> 'v) list \<Rightarrow> ('k \<times> 'v) option" where
  "bt_upto t m = (let p = takeWhile (\<lambda>e. fst e \<le> t) m in if p = [] then None else Some (last p))"

datatype col_source =
    CS_Values "(u64 \<times> string \<times> f64 option) list"
  | CS_States "state_run list" "string list"

section \<open>Values as text\<close>

text \<open>\<open>{:.p}\<close> of a number: the exact value rounded to \<open>p\<close> decimals, ties to even.\<close>

definition fixed_digits :: "nat \<Rightarrow> rat \<Rightarrow> string" where
  "fixed_digits p r =
     (let n = nat (round_half_even (\<bar>r\<bar> * 10 ^ p)); whole = show_nat (n div 10 ^ p);
          frac = show_nat (n mod 10 ^ p)
      in (if r < 0 then ''-'' else []) @ whole
         @ (if p = 0 then [] else ''.'' @ replicate (p - length frac) CHR ''0'' @ frac))"

fun fmt_fixed :: "nat \<Rightarrow> f64 \<Rightarrow> string" where
  "fmt_fixed p FNaN = ''NaN''"
| "fmt_fixed p (FInf neg) = (if neg then ''-inf'' else ''inf'')"
| "fmt_fixed p (Fin r) = fixed_digits p r"

text \<open>The loop that pops trailing zeros, while there is a point in the text.\<close>

function pop_zeros :: "string \<Rightarrow> string" where
  "pop_zeros s =
     (if CHR ''.'' \<in> set s \<and> last s = CHR ''0'' then pop_zeros (butlast s) else s)"
  by pat_completeness auto
termination
  by (relation "measure length") (auto simp: neq_Nil_conv in_set_conv_decomp)

declare pop_zeros.simps [simp del]

definition format_scalar_value :: "f64 \<Rightarrow> string" where
  "format_scalar_value v =
     (let s = pop_zeros (fmt_fixed 6 v)
      in if s \<noteq> [] \<and> last s = CHR ''.'' then butlast s else s)"

definition state_value_text :: "u32 \<Rightarrow> string list \<Rightarrow> string" where
  "state_value_text value labels = unwrap_or (show_nat (unat value)) (get_at labels (unat value))"

fun state_value_at :: "state_run list option \<Rightarrow> u64 \<Rightarrow> u32 option run" where
  "state_value_at None t = Ok None"
| "state_value_at (Some runs) t =
     (if runs = [] then Ok None
      else let idx = partition_point (\<lambda>r. sr_t_start r \<le> t) runs in
        if idx = 0 then Ok None
        else obind (index_at runs (idx - 1)) (\<lambda>r.
             Ok (if t < sr_t_end r \<or> sr_t_end r = - 1 then Some (sr_value r) else None)))"

section \<open>Building rows\<close>

definition anchor_channel :: "(channel_id \<rightharpoonup> channel_info) \<Rightarrow> channel_id list \<Rightarrow> channel_id option" where
  "anchor_channel by_id columns =
     (case find_first (\<lambda>ch. case by_id ch of Some i \<Rightarrow> ci_kind i = CK_Text | None \<Rightarrow> False) columns of
        Some ch \<Rightarrow> Some ch
      | None \<Rightarrow> get_at columns 0)"

fun column_source :: "store \<Rightarrow> u64 \<Rightarrow> u64 \<Rightarrow> channel_id \<Rightarrow> channel_kind \<Rightarrow> col_source run" where
  "column_source g t0 t1 ch CK_Scalar =
     obind (query_raw g ch t0 t1 LOG_SCAN_MAX) (\<lambda>s.
     Ok (CS_Values (fold (\<lambda>(t, v). bt_insert t (format_scalar_value v, Some v)) s [])))"
| "column_source g t0 t1 ch CK_Text =
     obind (query_text g ch t0 t1 LOG_SCAN_MAX) (\<lambda>s.
     Ok (CS_Values (fold (\<lambda>(t, v). bt_insert t (v, None)) s [])))"
| "column_source g t0 t1 ch (CK_State labels) = Ok (CS_States (query_state g ch t0 t1) labels)"

definition add_source :: "store \<Rightarrow> (channel_id \<rightharpoonup> channel_info) \<Rightarrow> u64 \<Rightarrow> u64 \<Rightarrow> channel_id
    \<Rightarrow> (channel_id, col_source) hashmap \<Rightarrow> (channel_id, col_source) hashmap run" where
  "add_source g by_id t0 t1 ch sources =
     (case by_id ch of
        None \<Rightarrow> Ok sources
      | Some info \<Rightarrow> obind (column_source g t0 t1 ch (ci_kind info)) (\<lambda>c. Ok (hm_insert ch c sources)))"

fun anchor_times :: "col_source option \<Rightarrow> u64 list" where
  "anchor_times (Some (CS_Values m)) = map fst m"
| "anchor_times (Some (CS_States runs _)) = map sr_t_start runs"
| "anchor_times None = []"

text \<open>The cell a column shows at time \<open>t\<close>, if any.\<close>

fun source_cell :: "u64 \<Rightarrow> col_source option \<Rightarrow> log_cell option run" where
  "source_cell t (Some (CS_Values m)) =
     Ok (map_option (\<lambda>(_, disp, raw). \<lparr>lc_display = disp, lc_raw = raw\<rparr>) (bt_upto t m))"
| "source_cell t (Some (CS_States runs labels)) =
     obind (state_value_at (Some runs) t) (\<lambda>v.
     Ok (map_option (\<lambda>value. \<lparr>lc_display = state_value_text value labels,
                               lc_raw = Some (f64_of_int (uint value))\<rparr>) v))"
| "source_cell t None = Ok None"

definition add_cell :: "(channel_id, col_source) hashmap \<Rightarrow> u64 \<Rightarrow> channel_id
    \<Rightarrow> (channel_id, log_cell) hashmap \<Rightarrow> (channel_id, log_cell) hashmap run" where
  "add_cell sources t ch cells =
     obind (source_cell t (hm_get sources ch)) (\<lambda>c.
     Ok (case c of None \<Rightarrow> cells | Some cell \<Rightarrow> hm_insert ch cell cells))"

definition make_row :: "(channel_id, col_source) hashmap \<Rightarrow> channel_id list \<Rightarrow> u64 \<Rightarrow> log_row run" where
  "make_row sources columns t =
     obind (ofold (add_cell sources t) columns []) (\<lambda>cells. Ok \<lparr>lr_t = t, lr_cells = cells\<rparr>)"

definition build_log_rows :: "store \<Rightarrow> (channel_id \<rightharpoonup> channel_info) \<Rightarrow> channel_id list \<Rightarrow> u64 \<Rightarrow> u64
    \<Rightarrow> log_row list run" where
  "build_log_rows g by_id columns t0 t1 =
     (case anchor_channel by_id columns of
        None \<Rightarrow> Ok []
      | Some anchor \<Rightarrow>
          obind (ofold (add_source g by_id t0 t1) columns []) (\<lambda>sources.
          omap (make_row sources columns) (anchor_times (hm_get sources anchor))))"

section \<open>Filtering\<close>

definition cell_value :: "log_cell \<Rightarrow> filter_value" where
  "cell_value c = (case lc_raw c of Some n \<Rightarrow> FV_Num n | None \<Rightarrow> FV_Text (lc_display c))"

definition row_passes_filters :: "(channel_id, column_filter) hashmap \<Rightarrow> log_row \<Rightarrow> bool" where
  "row_passes_filters filters row =
     list_all (\<lambda>(ch, f). \<not> filter_is_active f
       \<or> accepts_filter f (map_option cell_value (hm_get (lr_cells row) ch))) filters"

section \<open>Truncating\<close>

definition sample_step :: "bool \<Rightarrow> usize \<Rightarrow> u64 \<Rightarrow> nat \<Rightarrow> log_row \<Rightarrow> log_row list \<times> usize
    \<Rightarrow> (log_row list \<times> usize) run" where
  "sample_step chk n t_first spn r = (\<lambda>(out, last_bucket).
     obind (sub_chk chk (lr_t r) t_first) (\<lambda>d.
     let bucket = (unat d * n div spn) mod 2 ^ 64
     in Ok (if bucket \<noteq> last_bucket then (out @ [r], bucket) else (out, last_bucket))))"

definition sample_even_over_time :: "bool \<Rightarrow> log_row list \<Rightarrow> usize \<Rightarrow> log_row list run" where
  "sample_even_over_time chk rows n =
     (let len = length rows in
      if n = 0 then Ok []
      else if len \<le> n then Ok rows
      else let t_first = (if rows = [] then 0 else lr_t (hd rows));
               t_last = (if rows = [] then 0 else lr_t (last rows)) in
        if t_last = t_first
        then let stride = max (div_ceil len n) 1 in Ok (take n (step_by stride rows))
        else obind (sub_chk chk t_last t_first) (\<lambda>d.
             let spn = unat d + 1 in
             obind (ofold (sample_step chk n t_first spn) rows ([], USIZE_MAX)) (\<lambda>(out, _). Ok out)))"

definition I64_MIN :: int where
  "I64_MIN = - (2 ^ 63)"

definition row_score :: "channel_id \<Rightarrow> log_row \<Rightarrow> int" where
  "row_score pch r =
     unwrap_or I64_MIN (map_option f64_to_i64 (Option.bind (hm_get (lr_cells r) pch) lc_raw))"

text \<open>The loop over the tiers, highest score first.\<close>

fun fill_tiers :: "bool \<Rightarrow> usize \<Rightarrow> (int \<times> log_row list) list \<Rightarrow> log_row list \<Rightarrow> log_row list run" where
  "fill_tiers chk max_rows [] out = Ok out"
| "fill_tiers chk max_rows ((score, tier_rows) # tiers) out =
     (if max_rows < length out then Panic
      else let remaining = max_rows - length out in
        if remaining = 0 then Ok out
        else if length tier_rows \<le> remaining then fill_tiers chk max_rows tiers (out @ tier_rows)
        else obind (sample_even_over_time chk tier_rows remaining) (\<lambda>s. Ok (out @ s)))"

definition truncate_rows :: "bool \<Rightarrow> log_row list \<Rightarrow> channel_id option \<Rightarrow> usize \<Rightarrow> (log_row list \<times> usize) run" where
  "truncate_rows chk rows priority_by max_rows =
     (let total = length rows in
      if total \<le> max_rows then Ok (rows, total)
      else case priority_by of
        None \<Rightarrow> obind (sample_even_over_time chk rows max_rows) (\<lambda>s. Ok (s, total))
      | Some pch \<Rightarrow>
          let tiers = fold (\<lambda>r. bt_push (row_score pch r) r) rows [] in
          obind (fill_tiers chk max_rows (rev tiers) []) (\<lambda>out. Ok (sort_key lr_t out, total)))"

section \<open>The table\<close>

text \<open>The three stages, and the numbers of shown, matching and scanned rows that the table reports.\<close>

definition log_view_rows :: "bool \<Rightarrow> store \<Rightarrow> (channel_id \<rightharpoonup> channel_info) \<Rightarrow> log_view_panel \<Rightarrow> u64 \<times> u64
    \<Rightarrow> (log_row list \<times> usize \<times> usize) run" where
  "log_view_rows chk g by_id panel = (\<lambda>(t0, t1).
     obind (build_log_rows g by_id (lv_columns panel) t0 t1) (\<lambda>all_rows.
     let in_window = length all_rows;
         matched = filter (row_passes_filters (lv_filters panel)) all_rows;
         matched_count = length matched in
     obind (truncate_rows chk matched (lv_priority_by panel) (lv_max_rows panel)) (\<lambda>(display_rows, _).
     Ok (display_rows, matched_count, in_window))))"

section \<open>Editing the table\<close>

text \<open>
  What the widgets of one frame do: the text field and its check box, the two check boxes and number
  fields of a range, and the buttons and boxes of an enumeration map what they are given to what
  they leave.
\<close>

record filter_ui =
  fu_text :: "string \<times> bool \<Rightarrow> string \<times> bool"
  fu_range :: "bool \<times> f64 \<times> bool \<times> f64 \<Rightarrow> bool \<times> f64 \<times> bool \<times> f64"
  fu_all :: bool
  fu_none :: bool
  fu_box :: "usize \<Rightarrow> bool \<Rightarrow> bool"

definition all_members :: "string list \<Rightarrow> u32 set" where
  "all_members labels = set (map of_nat [0 ..< length labels mod 2 ^ 32])"

definition tick_box :: "filter_ui \<Rightarrow> usize \<Rightarrow> u32 set \<Rightarrow> u32 set" where
  "tick_box ui i allowed =
     (let k = of_nat i; on = (k \<in> allowed); on' = fu_box ui i on
      in if on' = on then allowed else if on' then insert k allowed else allowed - {k})"

definition put_filter :: "channel_id \<Rightarrow> bool \<Rightarrow> column_filter \<Rightarrow> log_view_panel \<Rightarrow> log_view_panel" where
  "put_filter col identity f panel =
     (if identity then panel\<lparr>lv_filters := hm_remove col (lv_filters panel)\<rparr>
      else panel\<lparr>lv_filters := hm_insert col f (lv_filters panel)\<rparr>)"

fun render_column_filter_editor :: "filter_ui \<Rightarrow> channel_id \<Rightarrow> filter_kind option \<Rightarrow> log_view_panel \<Rightarrow> log_view_panel" where
  "render_column_filter_editor ui col (Some FKind_Text) panel =
     (let (needle, cs) = fu_text ui (case hm_get (lv_filters panel) col of
            Some (CF_Text needle cs) \<Rightarrow> (needle, cs) | _ \<Rightarrow> ([], False))
      in put_filter col (str_trim needle = []) (CF_Text needle cs) panel)"
| "render_column_filter_editor ui col (Some FKind_Numeric) panel =
     (let (has_min, min_v, has_max, max_v) = fu_range ui (case hm_get (lv_filters panel) col of
            Some (CF_Range mn mx) \<Rightarrow> (mn \<noteq> None, unwrap_or (Fin 0) mn, mx \<noteq> None, unwrap_or (Fin 0) mx)
          | _ \<Rightarrow> (False, Fin 0, False, Fin 0));
          mn = (if has_min then Some min_v else None);
          mx = (if has_max then Some max_v else None)
      in put_filter col (mn = None \<and> mx = None) (CF_Range mn mx) panel)"
| "render_column_filter_editor ui col (Some (FKind_Enum labels)) panel =
     (let all = all_members labels;
          allowed = (case hm_get (lv_filters panel) col of Some (CF_EnumSet allowed) \<Rightarrow> allowed | _ \<Rightarrow> all);
          allowed = (if fu_all ui then all else allowed);
          allowed = (if fu_none ui then {} else allowed);
          allowed = fold (tick_box ui) [0 ..< length labels] allowed
      in put_filter col (allowed = all) (CF_EnumSet allowed) panel)"
| "render_column_filter_editor ui col None panel = panel"

definition clear_filter :: "channel_id \<Rightarrow> log_view_panel \<Rightarrow> log_view_panel" where
  "clear_filter col panel = panel\<lparr>lv_filters := hm_remove col (lv_filters panel)\<rparr>"

definition show_column :: "usize \<Rightarrow> bool \<Rightarrow> log_view_panel \<Rightarrow> log_view_panel" where
  "show_column idx shown p =
     (if shown
      then (if idx \<in> set (lv_visible p) then p else p\<lparr>lv_visible := lv_visible p @ [idx]\<rparr>)
      else p\<lparr>lv_visible := filter (\<lambda>i. i \<noteq> idx) (lv_visible p)\<rparr>)"

definition colour_by :: "channel_id option \<Rightarrow> log_view_panel \<Rightarrow> log_view_panel" where
  "colour_by ch p = p\<lparr>lv_color_by := ch\<rparr>"

text \<open>Text columns are not offered as a priority.\<close>

definition prioritise_by :: "(channel_id \<rightharpoonup> filter_kind) \<Rightarrow> channel_id option \<Rightarrow> log_view_panel \<Rightarrow> log_view_panel" where
  "prioritise_by col_kind ch p =
     (case ch of
        None \<Rightarrow> p\<lparr>lv_priority_by := None\<rparr>
      | Some c \<Rightarrow> if col_kind c = Some FKind_Text then p else p\<lparr>lv_priority_by := Some c\<rparr>)"

definition set_max_rows :: "u32 \<Rightarrow> log_view_panel \<Rightarrow> log_view_panel" where
  "set_max_rows maxr p = p\<lparr>lv_max_rows := unat (max maxr 1)\<rparr>"

record log_column =
  lcol_id :: channel_id
  lcol_label :: string
  lcol_is_text :: bool

definition visible_columns :: "(channel_id \<rightharpoonup> channel_info) \<Rightarrow> log_view_panel \<Rightarrow> log_column list" where
  "visible_columns by_id panel =
     List.map_filter (\<lambda>idx. Option.bind (get_at (lv_columns panel) idx) (\<lambda>ch.
       map_option (\<lambda>info. \<lparr>lcol_id = ch, lcol_label = strip_group_prefix (ci_path info),
                            lcol_is_text = (ci_kind info = CK_Text)\<rparr>) (by_id ch))) (lv_visible panel)"

section \<open>Sampling over time\<close>

lemma subseq_mset: "subseq xs ys \<Longrightarrow> mset xs \<subseteq># mset ys"
proof (induction xs ys rule: list_emb.induct)
  case (list_emb_Cons xs ys y)
  then show ?case using subset_mset.order_trans[of "mset xs" "mset ys" "mset (y # ys)"] by simp
qed auto

lemma subseq_sub: "subseq xs ys \<Longrightarrow> set xs \<subseteq> set ys"
  using set_mset_mono[OF subseq_mset] by simp

lemma subseq_sorted: "subseq xs ys \<Longrightarrow> sorted (map f ys) \<Longrightarrow> sorted (map f xs)"
proof (induction xs ys rule: list_emb.induct)
  case (list_emb_Cons2 x y xs ys)
  then show ?case using subseq_sub by fastforce
qed auto

text \<open>The loop of \<open>sample_even_over_time\<close> keeps the first row of every run of equal bucket numbers.\<close>

fun thin :: "('a \<Rightarrow> nat) \<Rightarrow> nat \<Rightarrow> 'a list \<Rightarrow> 'a list" where
  "thin b lb [] = []"
| "thin b lb (r # rs) = (if b r \<noteq> lb then r # thin b (b r) rs else thin b lb rs)"

lemma thin_subseq: "subseq (thin b lb rs) rs"
  by (induction rs arbitrary: lb) auto

lemma thin_increasing:
  assumes "sorted (map b rs)" and "\<forall>r\<in>set rs. b r < mx" and "lb = mx \<or> (\<forall>r\<in>set rs. lb \<le> b r)"
  shows "sorted_wrt (<) (map b (thin b lb rs)) \<and> (\<forall>r\<in>set (thin b lb rs). lb = mx \<or> lb < b r)"
  using assms
proof (induction rs arbitrary: lb)
  case (Cons r rs)
  have "sorted_wrt (<) (map b (thin b (b r) rs)) \<and> (\<forall>x\<in>set (thin b (b r) rs). b r < b x)"
    using Cons.IH[of "b r"] Cons.prems by force
  then show ?case using Cons.IH[of lb] Cons.prems by (auto intro: le_neq_trans)
qed simp

lemma increasing_below_length:
  assumes "sorted_wrt (<) (map b xs)" and "\<forall>x\<in>set xs. b x < (n :: nat)"
  shows "length xs \<le> n"
proof -
  have "length (map b xs) = card (set (map b xs))"
    using assms(1) strict_sorted_iff distinct_card by metis
  also have "\<dots> \<le> card {..<n}" using assms(2) by (intro card_mono) auto
  finally show ?thesis by simp
qed

lemma sample_loop:
  assumes "\<forall>r\<in>set rows. t_first \<le> lr_t r"
  shows "ofold (sample_step chk n t_first spn) rows (out, lb) =
    (Ok (out @ thin (\<lambda>r. (unat (lr_t r - t_first) * n div spn) mod 2 ^ 64) lb rows,
         snd (fold (\<lambda>r (u, l). if (unat (lr_t r - t_first) * n div spn) mod 2 ^ 64 \<noteq> l
           then (u, (unat (lr_t r - t_first) * n div spn) mod 2 ^ 64) else (u, l)) rows ((), lb))) :: _ run)"
  using assms
proof (induction rows arbitrary: out lb)
  case (Cons r rows)
  have "(sub_chk chk (lr_t r) t_first :: _ run) = Ok (lr_t r - t_first)"
    using Cons.prems by (auto simp: sub_chk_def)
  then show ?case using Cons by (simp add: sample_step_def Let_def)
qed simp

text \<open>One row per bucket: at most \<open>n\<close> rows, in order, the first row among them.\<close>

lemma sample_even_over_time_ok:
  assumes "sorted (map lr_t rows)" and "n < 2 ^ 64"
  shows "\<exists>out. sample_even_over_time chk rows n = Ok out \<and> subseq out rows \<and> length out \<le> n
    \<and> (0 < n \<and> rows \<noteq> [] \<longrightarrow> out \<noteq> [])"
proof -
  consider "n = 0" | "length rows \<le> n" "0 < n" | "n < length rows" "0 < n" "lr_t (last rows) = lr_t (hd rows)"
    | "n < length rows" "0 < n" "lr_t (last rows) \<noteq> lr_t (hd rows)" by linarith
  then show ?thesis
  proof cases
    case 3
    then have ne: "rows \<noteq> []" by auto
    have "subseq (take n (step_by k rows)) rows" for k
      by (rule subseq_order.trans[OF prefix_imp_subseq[OF take_is_prefix] step_by_subseq])
    moreover have "take n (step_by k rows) \<noteq> []" for k
      using ne 3(2) by (cases rows) simp_all
    ultimately show ?thesis using 3 ne by (simp add: sample_even_over_time_def Let_def)
  next
    case 4
    then have ne: "rows \<noteq> []" by auto
    let ?t = "lr_t (hd rows)" and ?spn = "unat (lr_t (last rows) - lr_t (hd rows)) + 1"
    let ?b = "\<lambda>r. (unat (lr_t r - ?t) * n div ?spn) mod 2 ^ 64"
    have lo: "?t \<le> lr_t r" if "r \<in> set rows" for r
      using that assms(1) ne by (cases rows) auto
    have hi: "lr_t r \<le> lr_t (last rows)" if "r \<in> set rows" for r
      using that assms(1) ne by (cases rows rule: rev_cases) (auto simp: sorted_append)
    have d: "unat (lr_t r - ?t) = unat (lr_t r) - unat ?t" if "r \<in> set rows" for r
      using lo[OF that] by (rule unat_sub)
    have sp: "unat (lr_t r - ?t) < ?spn" if "r \<in> set rows" for r
      using d[OF that] d[OF last_in_set[OF ne]] hi[OF that] by (simp add: word_le_nat_alt)
    have q: "unat (lr_t r - ?t) * n div ?spn < n" if "r \<in> set rows" for r
    proof -
      have "unat (lr_t r - ?t) * n < n * ?spn" using mult_strict_right_mono[OF sp[OF that] 4(2)] by (simp only: mult.commute)
      then show ?thesis by (simp add: less_mult_imp_div_less)
    qed
    have b: "?b r = unat (lr_t r - ?t) * n div ?spn" if "r \<in> set rows" for r
      using q[OF that] assms(2) by simp
    have lt: "\<forall>r\<in>set rows. ?b r < n" using q b by simp
    have mono: "?b x \<le> ?b y" if "x \<in> set rows" "y \<in> set rows" "lr_t x \<le> lr_t y" for x y
    proof -
      have "unat (lr_t x - ?t) \<le> unat (lr_t y - ?t)"
        using that(3) unfolding d[OF that(1)] d[OF that(2)] by (simp add: word_le_nat_alt)
      then show ?thesis unfolding b[OF that(1)] b[OF that(2)] by (intro div_le_mono mult_right_mono) simp_all
    qed
    have srt: "sorted (map ?b rows)"
      unfolding sorted_map by (rule sorted_wrt_mono_rel[OF mono assms(1)[unfolded sorted_map]])
    have top: "n \<le> USIZE_MAX" using assms(2) by (simp add: USIZE_MAX_def)
    then have "sorted_wrt (<) (map ?b (thin ?b USIZE_MAX rows))"
      using thin_increasing[OF srt, of USIZE_MAX USIZE_MAX] lt by force
    moreover have "\<forall>r\<in>set (thin ?b USIZE_MAX rows). ?b r < n"
      using lt thin_subseq[of ?b USIZE_MAX rows] by (auto dest: subseq_sub)
    ultimately have len: "length (thin ?b USIZE_MAX rows) \<le> n" by (rule increasing_below_length)
    have "?b (hd rows) < n" using lt hd_in_set[OF ne] by (rule bspec)
    then have "thin ?b USIZE_MAX rows \<noteq> []" using ne top by (cases rows) auto
    moreover have "(sub_chk chk (lr_t (last rows)) ?t :: _ run) = Ok (lr_t (last rows) - ?t)"
      using lo[OF last_in_set[OF ne]] by (auto simp: sub_chk_def)
    ultimately show ?thesis
      using 4 ne len sample_loop[of rows ?t chk n ?spn "[]" USIZE_MAX] lo thin_subseq
      by (simp add: sample_even_over_time_def Let_def)
  qed (auto simp: sample_even_over_time_def Let_def)
qed

section \<open>Tiers\<close>

lemma mset_bt_push: "mset (concat (map snd (bt_push k v m))) = add_mset v (mset (concat (map snd m)))"
  by (induction k v m rule: bt_push.induct) auto

lemma mset_buckets: "mset (concat (map snd (buckets h xs))) = mset xs"
  by (induction xs rule: rev_induct) (simp_all add: buckets_snoc mset_bt_push, simp add: buckets_def)

definition tier_ok :: "(log_row \<Rightarrow> int) \<Rightarrow> int \<times> log_row list \<Rightarrow> bool" where
  "tier_ok score tier \<longleftrightarrow> sorted (map lr_t (snd tier)) \<and> (\<forall>r\<in>set (snd tier). score r = fst tier)"

lemma buckets_tiers:
  assumes "sorted (map lr_t rows)"
  shows "\<forall>tier\<in>set (buckets score rows). tier_ok score tier"
  using assms by (auto simp: buckets_eq tier_ok_def intro: sorted_filter)

lemma fill_tiers_ok:
  assumes "\<forall>tier\<in>set tiers. tier_ok score tier" and "sorted_wrt (>) (map fst tiers)"
    and "length out \<le> max_rows" and "max_rows < 2 ^ 64"
    and "\<forall>r\<in>set out. \<forall>tier\<in>set tiers. fst tier < score r"
  shows "\<exists>kept. fill_tiers chk max_rows tiers out = Ok (out @ kept) \<and> length (out @ kept) \<le> max_rows
    \<and> mset kept \<subseteq># mset (concat (map snd tiers))
    \<and> (\<forall>r\<in># mset (concat (map snd tiers)) - mset kept. \<forall>r'\<in>set (out @ kept). score r \<le> score r')"
  using assms
proof (induction tiers arbitrary: out)
  case (Cons tier tiers)
  obtain s rs where t: "tier = (s, rs)" by (cases tier)
  have low: "score r \<le> s" if "r \<in> set rs \<union> set (concat (map snd tiers))" for r
    using that Cons.prems(1,2) unfolding t by (auto simp: tier_ok_def less_imp_le)
  have high: "s < score r" if "r \<in> set out" for r using Cons.prems(5) that unfolding t by simp
  consider (full) "length out = max_rows" | (all) "length out < max_rows" "length rs \<le> max_rows - length out"
    | (part) "length out < max_rows" "max_rows - length out < length rs"
    using Cons.prems(3) by linarith
  then show ?case
  proof cases
    case full
    have "score r \<le> score r'" if "r \<in> set rs \<union> set (concat (map snd tiers))" "r' \<in> set out" for r r'
      using low[OF that(1)] high[OF that(2)] by simp
    then show ?thesis using full unfolding t by (intro exI[of _ "[]"]) auto
  next
    case all
    have "\<forall>r\<in>set (out @ rs). \<forall>tier\<in>set tiers. fst tier < score r"
      using Cons.prems(1,2,5) unfolding t by (auto simp: tier_ok_def)
    moreover have len: "length (out @ rs) \<le> max_rows" using all by simp
    ultimately obtain kept where k: "fill_tiers chk max_rows tiers (out @ rs) = Ok ((out @ rs) @ kept)"
      "length ((out @ rs) @ kept) \<le> max_rows" "mset kept \<subseteq># mset (concat (map snd tiers))"
      "\<forall>r\<in># mset (concat (map snd tiers)) - mset kept. \<forall>r'\<in>set ((out @ rs) @ kept). score r \<le> score r'"
      using Cons.IH[of "out @ rs"] Cons.prems(1,2,4) all len by auto
    then show ?thesis using all unfolding t by (intro exI[of _ "rs @ kept"]) auto
  next
    case part
    have "sorted (map lr_t rs)" "max_rows - length out < 2 ^ 64"
      using Cons.prems(1,4) unfolding t by (auto simp: tier_ok_def)
    from sample_even_over_time_ok[OF this, of chk] obtain kept where
      k: "sample_even_over_time chk rs (max_rows - length out) = Ok kept" "subseq kept rs"
      "length kept \<le> max_rows - length out" by blast
    have sub: "mset kept \<subseteq># mset rs" using k(2) by (rule subseq_mset)
    have "score r \<le> score r'"
      if "r \<in> set rs \<union> set (concat (map snd tiers))" "r' \<in> set (out @ kept)" for r r'
    proof -
      have "s \<le> score r'"
        using that(2) high subseq_sub[OF k(2)] Cons.prems(1) unfolding t by (auto simp: tier_ok_def less_imp_le)
      then show ?thesis using low[OF that(1)] by simp
    qed
    moreover have "r \<in> set rs \<union> set (concat (map snd tiers))"
      if "r \<in># mset (concat (map snd (tier # tiers))) - mset kept" for r
      using in_diffD[OF that] unfolding t by auto
    moreover have "mset kept \<subseteq># mset (concat (map snd (tier # tiers)))"
      using sub unfolding t by (simp add: subset_mset.add_increasing2)
    ultimately show ?thesis using part k(1,3) unfolding t by (intro exI[of _ kept]) auto
  qed
qed simp

text \<open>
  C35. Truncating a table. For rows in time order \<open>truncate_rows\<close> never panics and reports their total
  number; the rows it keeps are rows of the table, each at most as often as there, still in time
  order, at most \<open>max_rows\<close> of them, and all of them if they fit. With a priority column no kept row
  has a lower score than a dropped one.
\<close>

theorem truncate_keeps_best:
  assumes "sorted (map lr_t rows)" and "max_rows < 2 ^ 64"
  shows "\<exists>out. truncate_rows chk rows priority_by max_rows = Ok (out, length rows)
    \<and> length out \<le> max_rows \<and> mset out \<subseteq># mset rows \<and> sorted (map lr_t out)
    \<and> (length rows \<le> max_rows \<longrightarrow> out = rows)
    \<and> (\<forall>pch. priority_by = Some pch \<longrightarrow>
        (\<forall>r\<in># mset rows - mset out. \<forall>r'\<in>set out. row_score pch r \<le> row_score pch r'))"
proof (cases "length rows \<le> max_rows")
  case True
  then show ?thesis using assms(1) by (simp add: truncate_rows_def)
next
  case big: False
  show ?thesis
  proof (cases priority_by)
    case None
    obtain out where "sample_even_over_time chk rows max_rows = Ok out" "subseq out rows" "length out \<le> max_rows"
      using sample_even_over_time_ok[OF assms, of chk] by blast
    then show ?thesis
      using None big assms(1) subseq_mset subseq_sorted by (force simp: truncate_rows_def)
  next
    case (Some pch)
    let ?tiers = "buckets (row_score pch) rows"
    have tiers: "\<forall>tier\<in>set (rev ?tiers). tier_ok (row_score pch) tier" "sorted_wrt (>) (map fst (rev ?tiers))"
      using buckets_tiers[OF assms(1)] buckets_keys[of "row_score pch" rows]
      by (simp_all add: rev_map[symmetric] sorted_wrt_rev)
    have m: "mset (concat (map snd (rev ?tiers))) = mset rows"
      using mset_buckets[of "row_score pch" rows] by (simp add: mset_concat rev_map[symmetric])
    obtain kept where "fill_tiers chk max_rows (rev ?tiers) [] = Ok kept" "length kept \<le> max_rows"
      "mset kept \<subseteq># mset rows" "\<forall>r\<in># mset rows - mset kept. \<forall>r'\<in>set kept. row_score pch r \<le> row_score pch r'"
      using fill_tiers_ok[OF tiers, of "[]" max_rows chk] assms(2) unfolding m by auto
    then show ?thesis
      using Some big by (simp add: truncate_rows_def Let_def buckets_def[symmetric])
  qed
qed

definition rows_ex :: "log_row list" where
  "rows_ex = map (\<lambda>(t, v). \<lparr>lr_t = t, lr_cells = [(1, \<lparr>lc_display = [], lc_raw = Some (Fin v)\<rparr>)]\<rparr>)
     [(10, 0), (20, 3), (30, 0), (40, 0)]"

theorem truncate_keeps_best_witness:
  "\<exists>out. truncate_rows True rows_ex (Some 1) 2 = Ok (out, 4) \<and> length out \<le> 2 \<and> mset out \<subseteq># mset rows_ex
    \<and> (\<forall>r\<in># mset rows_ex - mset out. \<forall>r'\<in>set out. row_score 1 r \<le> row_score 1 r')"
proof -
  have "sorted (map lr_t rows_ex)" "length rows_ex = 4" by (simp_all add: rows_ex_def)
  then show ?thesis using truncate_keeps_best[of rows_ex 2 True "Some 1"] by auto
qed

section \<open>Columns carried forward\<close>

lemma bt_insert_above:
  "\<lbrakk>sorted_wrt (<) (map fst m); \<forall>e\<in>set m. fst e \<le> k\<rbrakk> \<Longrightarrow>
     bt_insert k v m \<noteq> [] \<and> last (bt_insert k v m) = (k, v) \<and> set (bt_insert k v m) \<subseteq> insert (k, v) (set m)"
proof (induction k v m rule: bt_insert.induct)
  case (2 k v j w m)
  have "m = []" if "k = j" using "2.prems" that by (cases m) auto
  then show ?case using 2 by auto
qed simp

lemma bt_insert_sorted:
  "sorted_wrt (<) (map fst m) \<Longrightarrow>
     sorted_wrt (<) (map fst (bt_insert k v m)) \<and> fst ` set (bt_insert k v m) = insert k (fst ` set m)"
  by (induction k v m rule: bt_insert.induct) (auto simp: not_less_iff_gr_or_eq intro: less_trans)

lemma bt_insert_upto: "t < k \<Longrightarrow> takeWhile (\<lambda>e. fst e \<le> t) (bt_insert k v m) = takeWhile (\<lambda>e. fst e \<le> t) m"
  by (induction k v m rule: bt_insert.induct) auto

text \<open>The map of a series in time order: its keys, and the entry in force at a time.\<close>

lemma bt_series_keys:
  "sorted_wrt (<) (map fst (fold (\<lambda>(t, v). bt_insert t (f v)) xs []))
    \<and> fst ` set (fold (\<lambda>(t, v). bt_insert t (f v)) xs []) = fst ` set xs"
proof (induction xs rule: rev_induct)
  case (snoc x xs)
  then show ?case using bt_insert_sorted[of "fold (\<lambda>(t, v). bt_insert t (f v)) xs []"] by (cases x) simp
qed simp

lemma bt_series_times:
  "map fst (fold (\<lambda>(t, v). bt_insert t (f v)) xs []) = sorted_list_of_set (fst ` set xs)"
proof -
  let ?m = "map fst (fold (\<lambda>(t, v). bt_insert t (f v)) xs [])"
  have "sorted ?m \<and> distinct ?m" "set ?m = fst ` set xs"
    using bt_series_keys[of f xs] strict_sorted_iff by (blast, simp)
  then show ?thesis using sorted_list_of_set.idem_if_sorted_distinct[of ?m] by (simp only:)
qed

definition in_force :: "u64 \<Rightarrow> (u64 \<times> 'a) list \<Rightarrow> 'a option" where
  "in_force t xs = (let past = filter (\<lambda>x. fst x \<le> t) xs in if past = [] then None else Some (snd (last past)))"

lemma bt_upto_series:
  assumes "sorted (map fst xs)"
  shows "map_option snd (bt_upto t (fold (\<lambda>(t, v). bt_insert t (f v)) xs [])) = map_option f (in_force t xs)"
  using assms
proof (induction xs rule: rev_induct)
  case (snoc x xs)
  obtain k v where x: "x = (k, v)" by (cases x)
  let ?m = "fold (\<lambda>(t, v). bt_insert t (f v)) xs []"
  note keys = bt_series_keys[of f xs]
  have le: "\<forall>e\<in>set ?m. fst e \<le> k" using keys snoc.prems unfolding x by (force simp: sorted_append)
  show ?case
  proof (cases "k \<le> t")
    case True
    note ins = bt_insert_above[OF conjunct1[OF keys] le, of "f v"]
    have "takeWhile (\<lambda>e. fst e \<le> t) (bt_insert k (f v) ?m) = bt_insert k (f v) ?m"
      using ins le True by (intro takeWhile_eq_all_conv[THEN iffD2]) fastforce
    then have "bt_upto t (bt_insert k (f v) ?m) = Some (k, f v)"
      using ins unfolding bt_upto_def by (simp only: Let_def if_False)
    then show ?thesis using True unfolding x by (simp add: in_force_def Let_def)
  next
    case False
    then have "bt_upto t (bt_insert k (f v) ?m) = bt_upto t ?m" by (simp add: bt_upto_def bt_insert_upto)
    then show ?thesis using snoc False unfolding x by (simp add: in_force_def sorted_append)
  qed
qed (simp add: bt_upto_def in_force_def)

text \<open>The run in force at a time is still running then.\<close>

lemma held_run_open:
  assumes "sorted (map sr_t_start runs)" and "runs_linked runs" and "t \<noteq> - 1"
    and "filter (\<lambda>r. sr_t_start r \<le> t) (hold_last runs) \<noteq> []"
  shows "t < sr_t_end (last (filter (\<lambda>r. sr_t_start r \<le> t) (hold_last runs)))"
proof -
  let ?H = "hold_last runs" and ?past = "filter (\<lambda>r. sr_t_start r \<le> t) (hold_last runs)"
  let ?k = "partition_point (\<lambda>r. sr_t_start r \<le> t) ?H"
  have srt: "sorted (map sr_t_start ?H)" using assms(1) by simp
  note sp = starts_partition[OF srt, of t]
  have k: "?k \<le> length runs" "0 < ?k" using partition_point_le[of _ ?H] sp(1) assms(4) by (auto intro: gr0I)
  have l: "last ?past = ?H ! (?k - 1)" unfolding sp(1)[symmetric] using k by (subst last_conv_nth) auto
  show ?thesis
  proof (cases "?k = length runs")
    case True
    have "t < - 1" using assms(3) word_n1_ge[of t] by order
    then show ?thesis using True k unfolding l by (simp add: hold_last_nth effective_end_def)
  next
    case False
    then have kl: "?k < length runs" and ne: "?k - 1 \<noteq> length runs - 1" using k by linarith+
    have "sr_t_end (?H ! (?k - 1)) = sr_t_start (runs ! ?k)"
      using kl k ne assms(2)[unfolded runs_linked_nth, rule_format, of "?k - 1"]
      by (simp add: hold_last_nth effective_end_def)
    moreover have "?H ! ?k \<in> set (drop ?k ?H)" using kl by (simp add: in_set_conv_nth) (rule exI[of _ 0], simp)
    then have "t < sr_t_start (?H ! ?k)" using sp(2) by simp
    then have "t < sr_t_start (runs ! ?k)" using kl by (simp add: hold_last_nth)
    ultimately show ?thesis unfolding l by simp
  qed
qed

lemma last_filter_filter: "filter P xs \<noteq> [] \<Longrightarrow> Q (last (filter P xs)) \<Longrightarrow>
    filter Q (filter P xs) \<noteq> [] \<and> last (filter Q (filter P xs)) = last (filter P xs)"
  by (cases "filter P xs" rule: rev_cases) simp_all

text \<open>What a table shows of a state channel inside its window is the value held at that time.\<close>

lemma state_value_at_query:
  assumes "get_at (st_states g) (unat ch) = Some (runs_of obs)" and "sorted (map fst obs)"
    and "t0 \<le> t" and "t < t1"
  shows "state_value_at (Some (query_state g ch t0 t1)) t = Ok (held_value obs t)"
proof -
  let ?H = "hold_last (runs_of obs)" and ?Q = "query_state g ch t0 t1"
  let ?past = "filter (\<lambda>r. sr_t_start r \<le> t) ?H"
  note srt = runs_of_sorted[OF assms(2)] and lnk = runs_of_linked[of obs]
  have t: "t \<noteq> - 1" "t0 < t1" using assms(3,4) word_n1_ge[of t1] by auto
  have q: "?Q = filter (\<lambda>r. t0 < sr_t_end r \<and> sr_t_start r < t1) ?H"
    by (rule query_state_overlap[OF assms(1) t(2) srt lnk])
  have sq: "sorted (map sr_t_start ?Q)" unfolding q using srt by (intro sorted_filter) simp
  have p: "filter (\<lambda>r. sr_t_start r \<le> t) ?Q = filter (\<lambda>r. t0 < sr_t_end r) ?past"
    unfolding q filter_filter using assms(4) by (intro filter_cong) auto
  have held: "held_value obs t = (if ?past = [] then None else Some (sr_value (last ?past)))"
  proof -
    have "run_starts ?H = run_starts (runs_of obs)"
      by (cases "runs_of obs" rule: rev_cases) (auto simp: hold_last_def)
    then have "held_value obs t = held_value (run_starts ?H) t" using held_value_runs[OF assms(2)] by simp
    also have "\<dots> = (if ?past = [] then None else Some (sr_value (last ?past)))"
      by (simp add: held_value_def filter_map comp_def case_prod_beta last_map)
    finally show ?thesis .
  qed
  show ?thesis
  proof (cases "?past = []")
    case True
    then have "take (partition_point (\<lambda>r. sr_t_start r \<le> t) ?Q) ?Q = []"
      unfolding starts_partition(1)[OF sq] p by simp
    then show ?thesis using True held partition_point_le[of "\<lambda>r. sr_t_start r \<le> t" ?Q] by (auto simp: Let_def)
  next
    case False
    note op = held_run_open[OF srt lnk t(1) False]
    let ?k = "partition_point (\<lambda>r. sr_t_start r \<le> t) ?Q"
    have l: "take ?k ?Q \<noteq> [] \<and> last (take ?k ?Q) = last ?past"
      unfolding starts_partition(1)[OF sq] p
      using False op assms(3) by (intro last_filter_filter) auto
    then have "?Q \<noteq> []" "0 < ?k" "?k \<le> length ?Q" "?Q ! (?k - 1) = last ?past"
      using partition_point_le[of "\<lambda>r. sr_t_start r \<le> t" ?Q] last_conv_nth[of "take ?k ?Q"] by auto
    then show ?thesis using held False op by (simp add: Let_def index_at_def)
  qed
qed

text \<open>The cell a row at time \<open>t\<close> should show, read off the log of the store.\<close>

fun shown_cell :: "log_store \<Rightarrow> u64 \<Rightarrow> u64 \<Rightarrow> u64 \<Rightarrow> channel_id \<Rightarrow> channel_kind \<Rightarrow> log_cell option" where
  "shown_cell l t0 t1 t ch CK_Scalar =
     map_option (\<lambda>v. \<lparr>lc_display = format_scalar_value v, lc_raw = Some v\<rparr>)
       (in_force t (window t0 t1 (lg_scalars l ! unat ch)))"
| "shown_cell l t0 t1 t ch CK_Text =
     map_option (\<lambda>s. \<lparr>lc_display = s, lc_raw = None\<rparr>) (in_force t (window t0 t1 (lg_texts l ! unat ch)))"
| "shown_cell l t0 t1 t ch (CK_State labels) =
     map_option (\<lambda>v. \<lparr>lc_display = state_value_text v labels, lc_raw = Some (f64_of_int (uint v))\<rparr>)
       (held_value (lg_states l ! unat ch) t)"

lemma query_series_window:
  assumes "t0 < t1" and "get_at xss (unat ch) = Some xs" and "sorted (map fst xs)"
    and "length (window t0 t1 xs) \<le> LOG_SCAN_MAX"
  shows "query_series xss ch t0 t1 LOG_SCAN_MAX = Ok (window t0 t1 xs)"
  using query_series_sorted[OF assms(1) _ assms(2,3), of LOG_SCAN_MAX] assms(4) by (auto simp: LOG_SCAN_MAX_def)

definition within_scan :: "log_store \<Rightarrow> u64 \<Rightarrow> u64 \<Rightarrow> channel_id \<Rightarrow> bool" where
  "within_scan l t0 t1 ch \<longleftrightarrow> length (window t0 t1 (lg_scalars l ! unat ch)) \<le> LOG_SCAN_MAX
     \<and> length (window t0 t1 (lg_texts l ! unat ch)) \<le> LOG_SCAN_MAX"

lemma window_sorted: "sorted (map fst xs) \<Longrightarrow> sorted (map fst (window t0 t1 xs))"
  by (simp add: window_def sorted_filter)

lemma map_cell_series:
  assumes "sorted (map fst xs)"
  shows "map_option (\<lambda>(_, disp, raw). \<lparr>lc_display = disp, lc_raw = raw\<rparr>)
      (bt_upto t (fold (\<lambda>(t, v). bt_insert t (f v, r v)) xs [])) =
    map_option (\<lambda>v. \<lparr>lc_display = f v, lc_raw = r v\<rparr>) (in_force t xs)"
proof -
  have "map_option (\<lambda>(_, disp, raw). \<lparr>lc_display = disp, lc_raw = raw\<rparr>) e
      = map_option (\<lambda>(disp, raw). \<lparr>lc_display = disp, lc_raw = raw\<rparr>) (map_option snd e)" for e :: "(u64 \<times> string \<times> f64 option) option"
    by (cases e) auto
  from this[of "bt_upto t (fold (\<lambda>(t, v). bt_insert t (f v, r v)) xs [])"]
  show ?thesis unfolding bt_upto_series[OF assms, of t "\<lambda>v. (f v, r v)"]
    by (simp add: option.map_comp comp_def)
qed

text \<open>A column's source shows the right cell at every time of the window.\<close>

lemma column_source_cell:
  assumes "ops_in_order ops log_new" and "get_at (lg_channels (log_run ops)) (unat ch) = Some info"
    and "t0 < t1" and "within_scan (log_run ops) t0 t1 ch"
  shows "\<exists>src. column_source (store_run ops) t0 t1 ch (ci_kind info) = Ok src
    \<and> (\<forall>t. t0 \<le> t \<and> t < t1 \<longrightarrow>
         source_cell t (Some src) = Ok (shown_cell (log_run ops) t0 t1 t ch (ci_kind info)))
    \<and> (ci_kind info = CK_Text \<longrightarrow>
         anchor_times (Some src) = sorted_list_of_set (fst ` set (window t0 t1 (lg_texts (log_run ops) ! unat ch))))"
proof -
  note lc = log_channel[OF assms(2)]
  have srt: "sorted (map fst (lg_scalars (log_run ops) ! unat ch))" "sorted (map fst (lg_states (log_run ops) ! unat ch))"
    "sorted (map fst (lg_texts (log_run ops) ! unat ch))"
    using log_run_sorted[OF assms(1)] lc(5-7) by (auto simp: log_sorted_def series_sorted_def)
  show ?thesis
  proof (cases "ci_kind info")
    case CK_Scalar
    have "query_raw (store_run ops) ch t0 t1 LOG_SCAN_MAX = Ok (window t0 t1 (lg_scalars (log_run ops) ! unat ch))"
      unfolding query_raw_def
      using query_series_window[OF assms(3) lc(2) srt(1)] assms(4) by (simp add: within_scan_def)
    then show ?thesis using CK_Scalar map_cell_series[OF window_sorted[OF srt(1)]] by simp
  next
    case CK_Text
    let ?w = "window t0 t1 (lg_texts (log_run ops) ! unat ch)"
    have q: "query_text (store_run ops) ch t0 t1 LOG_SCAN_MAX = Ok ?w"
      unfolding query_text_def
      using query_series_window[OF assms(3) lc(4) srt(3)] assms(4) by (simp add: within_scan_def)
    have "map fst (fold (\<lambda>(t, v). bt_insert t (v, None)) ?w []) = sorted_list_of_set (fst ` set ?w)"
      by (rule bt_series_times)
    then show ?thesis using CK_Text q map_cell_series[OF window_sorted[OF srt(3)], where r = "\<lambda>_. None"] by simp
  next
    case (CK_State labels)
    then show ?thesis using state_value_at_query[OF lc(3) srt(2)] by (auto simp del: state_value_at.simps)
  qed
qed

lemma ofold_add_source:
  assumes "\<And>ch info. ch \<in> set columns \<Longrightarrow> by_id ch = Some info \<Longrightarrow> column_source g t0 t1 ch (ci_kind info) = Ok (src ch)"
  shows "\<exists>m. ofold (add_source g by_id t0 t1) columns acc = Ok m
    \<and> (\<forall>ch. hm_get m ch = (if ch \<in> set columns \<and> by_id ch \<noteq> None then Some (src ch) else hm_get acc ch))"
  using assms
proof (induction columns arbitrary: acc)
  case (Cons c cs)
  show ?case
  proof (cases "by_id c")
    case None
    then show ?thesis using Cons.IH[of acc] Cons.prems by (auto simp: add_source_def)
  next
    case (Some info)
    then have "column_source g t0 t1 c (ci_kind info) = Ok (src c)" using Cons.prems by simp
    then show ?thesis
      using Some Cons.IH[of "hm_insert c (src c) acc"] Cons.prems by (auto simp: add_source_def)
  qed
qed simp

lemma ofold_add_cell:
  assumes "\<And>ch. ch \<in> set columns \<Longrightarrow> source_cell t (hm_get sources ch) = Ok (cell ch)"
  shows "\<exists>m. ofold (add_cell sources t) columns acc = Ok m
    \<and> (\<forall>ch. hm_get m ch = (if ch \<in> set columns \<and> cell ch \<noteq> None then cell ch else hm_get acc ch))"
  using assms
proof (induction columns arbitrary: acc)
  case (Cons c cs)
  then have "source_cell t (hm_get sources c) = Ok (cell c)" by simp
  then show ?case
    using Cons.IH[of "case cell c of None \<Rightarrow> acc | Some x \<Rightarrow> hm_insert c x acc"] Cons.prems
    by (auto simp: add_cell_def split: option.splits)
qed simp

lemma anchor_channel_in: "anchor_channel by_id columns = Some a \<Longrightarrow> a \<in> set columns"
  by (auto simp: anchor_channel_def find_first_def find_Some_iff get_at_def split: option.splits if_splits)


definition log_ops_ex :: "store_op list" where
  "log_ops_ex = [Add_text ''log.msg'', Add_state ''log.sev'' [''INFO'', ''WARN''],
     Push_state 1 5 1, Push_text 0 10 ''boot'', Push_text 0 20 ''ready'']"


section \<open>Filters stay meaningful\<close>

text \<open>
  The editor keeps no filter that accepts everything, so the marker in the header and the saved
  layout show exactly the columns that are constrained.
\<close>

lemma hm_insert_values: "snd ` set (hm_insert k v m) \<subseteq> insert v (snd ` set m)"
  by (induction m) auto

lemma filter_editor_active:
  assumes "\<forall>f\<in>snd ` set (lv_filters panel). filter_is_active f"
  shows "\<forall>f\<in>snd ` set (lv_filters (render_column_filter_editor ui col kind panel)). filter_is_active f"
proof -
  have put: "\<forall>f\<in>snd ` set (lv_filters (put_filter col identity f panel)). filter_is_active f"
    if "\<not> identity \<Longrightarrow> filter_is_active f" for identity f
  proof -
    have "snd ` set (lv_filters (put_filter col identity f panel)) \<subseteq>
        (if identity then {} else {f}) \<union> snd ` set (lv_filters panel)"
      using hm_insert_values[of col f "lv_filters panel"] by (auto simp: put_filter_def AList.delete_eq)
    moreover have "\<forall>g\<in>(if identity then {} else {f}) \<union> snd ` set (lv_filters panel). filter_is_active g"
      using assms that by auto
    ultimately show ?thesis by (meson subsetD)
  qed
  show ?thesis
  proof (cases kind)
    case (Some k)
    then show ?thesis
      by (cases k) (simp_all only: render_column_filter_editor.simps Let_def split_beta, (rule put, simp)+)
  qed (use assms in simp)
qed

end
