(* ===== verification/Interact.thy ===== *)
theory Interact
  imports Markers Camera Rows
begin

text \<open>
  How the renderers of \<open>viewer/crates/btelem-viewer/src/plot_renderers.rs\<close> react to the pointer: placing,
  linking, selecting and dragging markers, panning and zooming. What the window system reports in a
  frame is a record of arguments; screen geometry enters as the functions it provides (the plot
  coordinates under the pointer, distances in pixels).
\<close>

section \<open>Pointer\<close>

text \<open>
  A pointer position on a plot: its plot coordinates, the distance in pixels to a plot time and to a
  plot value, and whether it lies between the screen positions of two times, six pixels included.
\<close>

record pointer_pos =
  pp_x :: f64
  pp_y :: f64
  pp_dx :: "f64 \<Rightarrow> f64"
  pp_dy :: "f64 \<Rightarrow> f64"
  pp_between :: "f64 \<Rightarrow> f64 \<Rightarrow> bool"

record pointer_ui =
  pu_primary_down :: bool
  pu_shift :: bool
  pu_drag_started :: bool
  pu_clicked :: bool
  pu_hover :: "pointer_pos option"
  pu_interact :: "pointer_pos option"

record marker_ctx =
  mc_markers :: marker_set
  mc_dragging_marker :: "u64 option"
  mc_dragging_link :: "u64 option"

definition or_else :: "'a option \<Rightarrow> 'a option \<Rightarrow> 'a option" where
  "or_else a b = (case a of None \<Rightarrow> b | Some x \<Rightarrow> Some x)"

text \<open>The loops of the hit tests: the first candidate within the threshold that no later one undercuts.\<close>

definition closer_hit :: "f64 \<Rightarrow> u64 \<Rightarrow> f64 \<Rightarrow> (u64 \<times> f64) option \<Rightarrow> (u64 \<times> f64) option" where
  "closer_hit threshold i d best =
     (if f64_le d threshold \<and> (case best of None \<Rightarrow> True | Some (_, e) \<Rightarrow> f64_lt d e) then Some (i, d) else best)"

definition hit_marker :: "marker_set \<Rightarrow> pointer_pos \<Rightarrow> u64 option" where
  "hit_marker s p =
     map_option fst (fold (\<lambda>m. closer_hit (Fin 8) (mk_id m) (pp_dx p (ns_to_s (mk_t_ns m)))) (ms_markers s) None)"

definition hit_delta_line :: "marker_set \<Rightarrow> pointer_pos \<Rightarrow> f64 \<Rightarrow> f64 \<Rightarrow> u64 option" where
  "hit_delta_line s p ylo yhi =
     map_option fst (fold (\<lambda>(a, b, l) best.
       if \<not> pp_between p (ns_to_s (mk_t_ns a)) (ns_to_s (mk_t_ns b)) then best
       else closer_hit (Fin 6) (lk_id l)
              (pp_dy p (f64_add ylo (f64_mul (lk_y_frac l) (f64_sub yhi ylo)))) best) (link_pairs s) None)"

section \<open>Dragging\<close>

definition start_drag :: "pointer_ui \<Rightarrow> f64 \<Rightarrow> f64 \<Rightarrow> marker_ctx \<Rightarrow> marker_ctx" where
  "start_drag ui ylo yhi ctx =
     (if pu_drag_started ui
      then (case pu_hover ui of
              None \<Rightarrow> ctx
            | Some p \<Rightarrow>
                (case hit_marker (mc_markers ctx) p of
                   Some i \<Rightarrow> ctx\<lparr>mc_dragging_marker := Some i\<rparr>
                 | None \<Rightarrow>
                     (case hit_delta_line (mc_markers ctx) p ylo yhi of
                        Some l \<Rightarrow> ctx\<lparr>mc_dragging_link := Some l\<rparr>
                      | None \<Rightarrow> ctx)))
      else ctx)"

definition set_marker_time :: "u64 \<Rightarrow> u64 \<Rightarrow> marker_set \<Rightarrow> marker_set" where
  "set_marker_time i t s =
     s\<lparr>ms_markers := update_first (\<lambda>m. mk_id m = i) (\<lambda>m. m\<lparr>mk_t_ns := t\<rparr>) (ms_markers s)\<rparr>"

definition set_link_height :: "u64 \<Rightarrow> f64 \<Rightarrow> marker_set \<Rightarrow> marker_set" where
  "set_link_height l y s =
     s\<lparr>ms_links := update_first (\<lambda>x. lk_id x = l) (\<lambda>x. x\<lparr>lk_y_frac := y\<rparr>) (ms_links s)\<rparr>"

definition drag_marker :: "pointer_ui \<Rightarrow> marker_ctx \<Rightarrow> marker_ctx" where
  "drag_marker ui ctx =
     (case mc_dragging_marker ctx of
        None \<Rightarrow> ctx
      | Some i \<Rightarrow>
          (case or_else (pu_hover ui) (pu_interact ui) of
             None \<Rightarrow> ctx
           | Some p \<Rightarrow> ctx\<lparr>mc_markers := set_marker_time i (s_to_ns (pp_x p)) (mc_markers ctx)\<rparr>))"

definition drag_link :: "pointer_ui \<Rightarrow> f64 \<Rightarrow> f64 \<Rightarrow> marker_ctx \<Rightarrow> marker_ctx run" where
  "drag_link ui ylo yhi ctx =
     (case mc_dragging_link ctx of
        None \<Rightarrow> Ok ctx
      | Some l \<Rightarrow>
          (case or_else (pu_hover ui) (pu_interact ui) of
             None \<Rightarrow> Ok ctx
           | Some p \<Rightarrow>
               let range = f64_sub yhi ylo in
               if f64_lt (f64_round (1 / 10 ^ 12)) (f64_abs range)
               then obind (f64_clamp (f64_div (f64_sub (pp_y p) ylo) range) (Fin 0) (Fin 1)) (\<lambda>frac.
                    Ok (ctx\<lparr>mc_markers := set_link_height l (f64_to_f32 frac) (mc_markers ctx)\<rparr>))
               else Ok ctx))"

definition end_drag :: "pointer_ui \<Rightarrow> marker_ctx \<Rightarrow> marker_ctx" where
  "end_drag ui ctx =
     (if pu_primary_down ui then ctx else ctx\<lparr>mc_dragging_marker := None, mc_dragging_link := None\<rparr>)"

section \<open>Clicking\<close>

definition next_colour :: "marker_set \<Rightarrow> u8 \<times> u8 \<times> u8" where
  "next_colour s = MARKER_PALETTE ! (markers_len s mod length MARKER_PALETTE)"

text \<open>In marker mode a click on empty space places a marker, with shift one linked to the selected or
  the last marker.\<close>

definition place_marker :: "bool \<Rightarrow> bool \<Rightarrow> channel_id list \<Rightarrow> pointer_pos \<Rightarrow> marker_set \<Rightarrow> marker_set run" where
  "place_marker chk shift signals p s =
     (let t_ns = s_to_ns (pp_x p); colour = next_colour s in
      if shift
      then let anchor = or_else (ms_selected s)
                 (if ms_markers s = [] then None else Some (mk_id (last (ms_markers s)))) in
           obind (case anchor of
                    None \<Rightarrow> Ok (None, s)
                  | Some a \<Rightarrow> add_linked_to chk a t_ns colour signals s) (\<lambda>(r, s1).
           case r of
             Some (mid, _) \<Rightarrow> Ok (marker_select (Some mid) s1)
           | None \<Rightarrow> let (mid, s2) = marker_add t_ns colour s1 in Ok (marker_select (Some mid) s2))
      else let (mid, s1) = marker_add t_ns colour s in Ok (marker_select (Some mid) s1))"

definition click_markers :: "bool \<Rightarrow> bool \<Rightarrow> channel_id list \<Rightarrow> u64 option \<Rightarrow> pointer_pos option \<Rightarrow> marker_set
    \<Rightarrow> marker_set run" where
  "click_markers chk shift signals hit pos s =
     (case (shift, ms_selected s, hit, pos) of
        (True, Some sel, None, Some p) \<Rightarrow>
          obind (add_linked_to chk sel (s_to_ns (pp_x p)) (next_colour s) signals s) (\<lambda>(r, s1).
          Ok (case r of Some (new_id, _) \<Rightarrow> marker_select (Some new_id) s1 | None \<Rightarrow> s1))
      | (True, Some sel, Some i, _) \<Rightarrow>
          if i \<noteq> sel then obind (marker_link chk sel i signals s) (\<lambda>(_, s1). Ok s1) else Ok s
      | (False, _, Some i, _) \<Rightarrow> Ok (marker_select (Some i) s)
      | (False, _, None, _) \<Rightarrow> Ok (marker_select None s)
      | _ \<Rightarrow> Ok s)"

definition handle_marker_interaction :: "bool \<Rightarrow> pointer_ui \<Rightarrow> bool \<Rightarrow> channel_id list \<Rightarrow> f64 \<Rightarrow> f64 \<Rightarrow> marker_ctx
    \<Rightarrow> marker_ctx run" where
  "handle_marker_interaction chk ui marker_mode signals ylo yhi ctx =
     obind (drag_link ui ylo yhi (drag_marker ui (start_drag ui ylo yhi ctx))) (\<lambda>ctx.
     let ctx = end_drag ui ctx in
     if \<not> pu_clicked ui then Ok ctx
     else let pos = or_else (pu_interact ui) (pu_hover ui);
              hit = Option.bind pos (hit_marker (mc_markers ctx)) in
       obind (if marker_mode \<and> hit = None
              then (case pos of None \<Rightarrow> Ok (mc_markers ctx)
                    | Some p \<Rightarrow> place_marker chk (pu_shift ui) signals p (mc_markers ctx))
              else click_markers chk (pu_shift ui) signals hit pos (mc_markers ctx)) (\<lambda>s.
       Ok (ctx\<lparr>mc_markers := s\<rparr>)))"

section \<open>Camera\<close>

text \<open>
  Panning by a drag of \<open>dx\<close> pixels on a plot of a given width, and zooming by a scroll of \<open>scroll\<close>
  pixels with the pointer a number of pixels from the left edge. The exponential of the floating-point
  library is an argument.
\<close>

definition pan_by_pixels :: "f64 \<Rightarrow> f64 \<Rightarrow> f64 \<times> f64 \<Rightarrow> camera \<Rightarrow> camera" where
  "pan_by_pixels dx width cur cam =
     pan_x (f64_mul (f64_neg dx) (f64_div (f64_sub (snd cur) (fst cur)) (f64_max width (Fin 1)))) cur cam"

definition drag_pan_x :: "bool \<Rightarrow> bool \<Rightarrow> f64 \<Rightarrow> f64 \<Rightarrow> f64 \<times> f64 \<Rightarrow> bool \<Rightarrow> camera \<Rightarrow> camera" where
  "drag_pan_x middle primary dx width cur primary_drag_available cam =
     (if cam_mode cam \<noteq> Pan then cam
      else if \<not> (middle \<or> primary_drag_available \<and> primary) then cam
      else if f64_abs dx = Fin 0 then cam
      else pan_by_pixels dx width cur cam)"

definition zoom_by_scroll :: "(f64 \<Rightarrow> f64) \<Rightarrow> f64 \<Rightarrow> f64 option \<Rightarrow> f64 \<Rightarrow> f64 \<times> f64 \<Rightarrow> camera \<Rightarrow> camera run" where
  "zoom_by_scroll exp_f64 scroll offset width cur cam =
     (let factor = exp_f64 (f64_mul (f64_neg scroll) (f64_round (15 / 10000))) in
      if camera_follow cam then zoom_window factor None cam
      else obind (case offset of
                    None \<Rightarrow> Ok (f64_mul (f64_add (fst cur) (snd cur)) (Fin (1 / 2)))
                  | Some x \<Rightarrow>
                      obind (f64_clamp (f64_div x (f64_max width (Fin 1))) (Fin 0) (Fin 1)) (\<lambda>frac.
                      Ok (f64_add (fst cur) (f64_mul frac (f64_sub (snd cur) (fst cur)))))) (\<lambda>pivot.
           Ok (zoom_x factor pivot cur cam)))"

definition scroll_zoom_x :: "(f64 \<Rightarrow> f64) \<Rightarrow> bool \<Rightarrow> f64 \<Rightarrow> f64 option \<Rightarrow> f64 \<Rightarrow> f64 \<times> f64 \<Rightarrow> camera \<Rightarrow> camera run" where
  "scroll_zoom_x exp_f64 pointer_in_rect scroll offset width cur cam =
     (if \<not> pointer_in_rect then Ok cam
      else if f64_le (f64_abs scroll) (Fin (1 / 2)) then Ok cam
      else zoom_by_scroll exp_f64 scroll offset width cur cam)"

definition handle_camera :: "(f64 \<Rightarrow> f64) \<Rightarrow> bool \<Rightarrow> bool \<Rightarrow> f64 \<Rightarrow> bool \<Rightarrow> f64 \<Rightarrow> f64 option \<Rightarrow> f64 \<Rightarrow> f64 \<times> f64
    \<Rightarrow> bool \<Rightarrow> bool \<Rightarrow> camera \<Rightarrow> camera run" where
  "handle_camera exp_f64 middle primary delta pointer_in_rect scroll offset width cur interactive
      primary_drag_available cam =
     (let drag_dx = (if interactive \<and> (middle \<or> primary_drag_available \<and> cam_mode cam = Pan \<and> primary)
                     then delta else Fin 0);
          cam = (if f64_lt (Fin 0) (f64_abs drag_dx) then pan_by_pixels drag_dx width cur cam else cam) in
      if pointer_in_rect \<and> f64_lt (Fin (1 / 2)) (f64_abs scroll)
      then zoom_by_scroll exp_f64 scroll offset width cur cam else Ok cam)"

section \<open>Rows of a log table\<close>

definition click_row :: "u64 \<Rightarrow> u64 set \<Rightarrow> u64 set" where
  "click_row t highlights = (if t \<in> highlights then highlights - {t} else insert t highlights)"

definition double_click_row :: "u64 \<Rightarrow> f64 \<times> f64 \<Rightarrow> u64 set \<times> camera \<Rightarrow> u64 set \<times> camera" where
  "double_click_row t fallback_bounds = (\<lambda>(highlights, cam). (insert t highlights, jump_to t fallback_bounds cam))"

section \<open>Interaction keeps markers consistent\<close>

lemma update_first_find:
  "update_first p f xs = (case List.find p xs of None \<Rightarrow> xs | Some x \<Rightarrow> update_first p (\<lambda>_. f x) xs)"
  by (induction xs) (auto split: option.splits)

lemma set_marker_time_edit:
  "set_marker_time i t s =
     (case marker_get s i of None \<Rightarrow> s | Some m \<Rightarrow> marker_edit i t (mk_label m) (mk_color m) s)"
  by (simp add: set_marker_time_def marker_edit_def marker_get_def find_first_def
      update_first_find[of _ "\<lambda>m. m\<lparr>mk_t_ns := t\<rparr>"] update_first_find[of _ "\<lambda>m. m\<lparr>mk_t_ns := t, mk_label := _, mk_color := _\<rparr>"]
      split: option.splits)

lemma set_link_height_edit:
  "set_link_height l y s = (case get_link s l of None \<Rightarrow> s | Some x \<Rightarrow> link_edit l y (lk_signals x) s)"
  by (simp add: set_link_height_def link_edit_def get_link_def find_first_def
      update_first_find[of _ "\<lambda>x. x\<lparr>lk_y_frac := y\<rparr>"] update_first_find[of _ "\<lambda>x. x\<lparr>lk_y_frac := y, lk_signals := _\<rparr>"]
      split: option.splits)

lemma fold_closer_hit:
  "fold (\<lambda>m. closer_hit th (idf m) (d m)) xs best = Some (i, e) \<Longrightarrow> i \<in> idf ` set xs \<or> best = Some (i, e)"
  by (induction xs arbitrary: best) (fastforce simp: closer_hit_def split: if_splits)+

lemma hit_marker_live: "hit_marker s p = Some i \<Longrightarrow> i \<in> marker_ids s"
  using fold_closer_hit[of "Fin 8" mk_id "\<lambda>m. pp_dx p (ns_to_s (mk_t_ns m))" "ms_markers s" None]
  by (auto simp: hit_marker_def marker_ids_def)

lemma reach_step:
  assumes "markers_reach chk n s" and "marker_op_ok s op" and "n + op_size op + 1 < 2 ^ 64"
  shows "\<exists>s'. marker_step chk op s = Ok s' \<and> markers_reach chk (n + op_size op) s'"
  using markers_reach_ok[OF assms(1)] marker_step_ok[of s op n chk] markers_reach.step[OF assms(1,2)] assms(2,3)
  by auto

lemma reach_select: "markers_reach chk n s \<Longrightarrow> markers_reach chk (n + 1) (marker_select i s)"
  using markers_reach.step[of chk n s "MO_Select i"] by simp

lemma reach_add: "markers_reach chk n s \<Longrightarrow> markers_reach chk (n + 1) (snd (marker_add t c s))"
  using markers_reach.step[of chk n s "MO_Add t c"] by simp

lemma reach_add_linked:
  assumes "markers_reach chk n s" and "n + 2 < 2 ^ 64"
  obtains r s' where "add_linked_to chk a t c sg s = Ok (r, s')" "markers_reach chk (n + 1) s'"
proof -
  obtain s' where s': "marker_step chk (MO_AddLinked a t c sg) s = Ok s'" "markers_reach chk (n + 1) s'"
    using reach_step[OF assms(1), of "MO_AddLinked a t c sg"] assms(2) by auto
  then obtain r where "add_linked_to chk a t c sg s = Ok (r, s')" by (auto simp: outcome_simps)
  then show thesis using s'(2) by (rule that)
qed

lemma place_marker_reach:
  assumes "markers_reach chk n s" and "n + 4 < 2 ^ 64"
  shows "\<exists>s' k. place_marker chk shift signals p s = Ok s' \<and> k \<le> 3 \<and> markers_reach chk (n + k) s'"
proof -
  let ?t = "s_to_ns (pp_x p)" and ?c = "next_colour s"
  have add: "markers_reach chk (m + 2) (marker_select (Some i) (snd (marker_add ?t ?c s0)))"
    if "markers_reach chk m s0" for m s0 i
    using reach_select[OF reach_add[OF that]] by (simp add: add.assoc)
  have plain: "\<exists>s' k. Ok (marker_select (Some (fst (marker_add ?t ?c s))) (snd (marker_add ?t ?c s))) = (Ok s' :: _ run)
      \<and> k \<le> 3 \<and> markers_reach chk (n + k) s'"
    using add[OF assms(1)] by (intro exI[of _ 2] exI) auto
  show ?thesis
  proof (cases "shift \<and> or_else (ms_selected s) (if ms_markers s = [] then None else Some (mk_id (last (ms_markers s)))) \<noteq> None")
    case True
    then obtain a where a: "shift" "or_else (ms_selected s) (if ms_markers s = [] then None else Some (mk_id (last (ms_markers s)))) = Some a"
      by auto
    obtain r s1 where r: "add_linked_to chk a ?t ?c signals s = Ok (r, s1)" "markers_reach chk (n + 1) s1"
      using reach_add_linked[OF assms(1)] assms(2) by (metis add_2_eq_Suc' add_lessD1 add.assoc numeral_Bit0)
    show ?thesis
    proof (cases r)
      case None
      then show ?thesis using a r add[OF r(2)]
        by (intro exI[of _ "marker_select (Some (fst (marker_add ?t ?c s1))) (snd (marker_add ?t ?c s1))"] exI[of _ 3])
          (simp add: place_marker_def Let_def split_beta numeral_3_eq_3)
    next
      case (Some x)
      then show ?thesis using a r reach_select[OF r(2), of "Some (fst x)"]
        by (intro exI[of _ "marker_select (Some (fst x)) s1"] exI[of _ 2])
          (simp add: place_marker_def Let_def split_beta numeral_2_eq_2)
    qed
  next
    case False
    then show ?thesis using plain by (auto simp: place_marker_def Let_def split_beta)
  qed
qed

lemma click_markers_reach:
  assumes "markers_reach chk n s" and "n + 4 < 2 ^ 64" and "\<And>i. hit = Some i \<Longrightarrow> i \<in> marker_ids s"
  shows "\<exists>s' k. click_markers chk shift signals hit pos s = Ok s' \<and> k \<le> 3 \<and> markers_reach chk (n + k) s'"
proof -
  have ok: "markers_ok s" using markers_reach_ok[OF assms(1)] assms(2) by simp
  have stay: "\<exists>s' k. Ok s = (Ok s' :: _ run) \<and> k \<le> 3 \<and> markers_reach chk (n + k) s'"
    using assms(1) by (intro exI[of _ s] exI[of _ 0]) simp
  have sel: "\<exists>s' k. Ok (marker_select i s) = (Ok s' :: _ run) \<and> k \<le> 3 \<and> markers_reach chk (n + k) s'" for i
    using reach_select[OF assms(1)] by (intro exI[of _ "marker_select i s"] exI[of _ 1]) simp
  show ?thesis
  proof (cases shift)
    case False
    then show ?thesis using sel[of "Some _"] sel[of None]
      by (cases hit) (auto simp: click_markers_def split: option.splits)
  next
    case True
    show ?thesis
    proof (cases "ms_selected s")
      case None
      then show ?thesis using True stay by (simp add: click_markers_def)
    next
      case (Some a)
      show ?thesis
      proof (cases hit)
        case h: None
        show ?thesis
        proof (cases pos)
          case (Some p)
          obtain r s1 where r: "add_linked_to chk a (s_to_ns (pp_x p)) (next_colour s) signals s = Ok (r, s1)"
            "markers_reach chk (n + 1) s1" using reach_add_linked[OF assms(1)] assms(2) by (metis add_2_eq_Suc' add_lessD1 add.assoc numeral_Bit0)
          show ?thesis
          proof (cases r)
            case None
            then show ?thesis using True \<open>ms_selected s = Some a\<close> h Some r
              by (intro exI[of _ s1] exI[of _ 1]) (simp add: click_markers_def)
          next
            case (Some x)
            then show ?thesis using True \<open>ms_selected s = Some a\<close> h \<open>pos = Some p\<close> r reach_select[OF r(2), of "Some (fst x)"]
              by (intro exI[of _ "marker_select (Some (fst x)) s1"] exI[of _ 2])
                (simp add: click_markers_def split_beta numeral_2_eq_2)
          qed
        qed (use True Some h stay in \<open>simp add: click_markers_def\<close>)
      next
        case h: (Some i)
        show ?thesis
        proof (cases "i = a")
          case False
          have "a \<in> marker_ids s" using ok Some by (auto simp: marker_simps)
          then have "marker_op_ok s (MO_Link a i signals)" using assms(3)[OF h] False by simp
          from reach_step[OF assms(1) this] assms(2) obtain s' where
            "marker_step chk (MO_Link a i signals) s = Ok s'" "markers_reach chk (n + 1) s'" by auto
          then show ?thesis using True Some h False
            by (intro exI[of _ s'] exI[of _ 1]) (auto simp: click_markers_def outcome_simps)
        qed (use True Some h stay in \<open>simp add: click_markers_def\<close>)
      qed
    qed
  qed
qed

lemma drag_marker_reach:
  assumes "markers_reach chk n (mc_markers ctx)"
  shows "\<exists>k. k \<le> 1 \<and> markers_reach chk (n + k) (mc_markers (drag_marker ui ctx))"
proof -
  have "markers_reach chk (n + 1) (marker_edit i t l c (mc_markers ctx))" for i t l c
    using markers_reach.step[OF assms, of "MO_Edit i t l c"] by simp
  then have "\<exists>k\<le>1. markers_reach chk (n + k) (marker_edit i t l c (mc_markers ctx))" for i t l c
    by (intro exI[of _ 1]) simp
  moreover have "\<exists>k\<le>1. markers_reach chk (n + k) (mc_markers ctx)" using assms by (intro exI[of _ 0]) simp
  ultimately show ?thesis by (simp add: drag_marker_def set_marker_time_edit split: option.split)
qed

lemma drag_link_reach:
  assumes "markers_reach chk n (mc_markers ctx)"
  shows "\<exists>ctx' k. drag_link ui ylo yhi ctx = Ok ctx' \<and> k \<le> 1 \<and> markers_reach chk (n + k) (mc_markers ctx')"
proof -
  have edit: "markers_reach chk (n + 1) (link_edit l y sg (mc_markers ctx))" for l y sg
    using markers_reach.step[OF assms, of "MO_LinkEdit l y sg"] by simp
  have set: "\<exists>k\<le>1. markers_reach chk (n + k) (set_link_height l y (mc_markers ctx))" for l y
  proof (cases "get_link (mc_markers ctx) l")
    case None
    then show ?thesis using assms by (intro exI[of _ 0]) (simp add: set_link_height_edit)
  next
    case (Some x)
    then show ?thesis using edit by (intro exI[of _ 1]) (simp add: set_link_height_edit)
  qed
  have "\<exists>z. f64_clamp x (Fin 0) (Fin 1) = Ok z" for x by (simp add: f64_clamp_def f64_le_def)
  then obtain z where z: "\<And>x. f64_clamp x (Fin 0) (Fin 1) = Ok (z x)" by metis
  have stay: "\<exists>k\<le>1. markers_reach chk (n + k) (mc_markers ctx)" using assms by (intro exI[of _ 0]) simp
  show ?thesis using stay set by (simp add: drag_link_def z Let_def split: option.split)
qed

lemma marker_interaction_reach:
  assumes "markers_reach chk n (mc_markers ctx)" and "n + 8 < 2 ^ 64"
  shows "\<exists>ctx' k. handle_marker_interaction chk ui marker_mode signals ylo yhi ctx = Ok ctx'
    \<and> k \<le> 5 \<and> markers_reach chk (n + k) (mc_markers ctx') \<and> markers_ok (mc_markers ctx')"
proof -
  have "mc_markers (start_drag ui ylo yhi ctx) = mc_markers ctx"
    by (auto simp: start_drag_def split: option.splits)
  then obtain k1 where k1: "k1 \<le> 1" "markers_reach chk (n + k1) (mc_markers (drag_marker ui (start_drag ui ylo yhi ctx)))"
    using drag_marker_reach[of chk n "start_drag ui ylo yhi ctx" ui] assms(1) by auto
  obtain c2 k2 where c2: "drag_link ui ylo yhi (drag_marker ui (start_drag ui ylo yhi ctx)) = Ok c2"
    "k2 \<le> 1" "markers_reach chk (n + k1 + k2) (mc_markers c2)"
    using drag_link_reach[OF k1(2), of ui ylo yhi] by (auto simp: add.assoc)
  let ?s = "mc_markers c2" and ?m = "n + k1 + k2"
  have e: "mc_markers (end_drag ui c2) = ?s" by (simp add: end_drag_def)
  let ?pos = "or_else (pu_interact ui) (pu_hover ui)" and ?hit = "Option.bind (or_else (pu_interact ui) (pu_hover ui)) (hit_marker ?s)"
  have b: "?m + 4 < 2 ^ 64" using k1(1) c2(2) assms(2) by simp
  have hit: "i \<in> marker_ids ?s" if "?hit = Some i" for i using that hit_marker_live by (auto simp: bind_eq_Some_conv)
  have "\<exists>s' k. (if marker_mode \<and> ?hit = None then (case ?pos of None \<Rightarrow> Ok ?s | Some p \<Rightarrow> place_marker chk (pu_shift ui) signals p ?s)
      else click_markers chk (pu_shift ui) signals ?hit ?pos ?s) = Ok s' \<and> k \<le> 3 \<and> markers_reach chk (?m + k) s'"
    using place_marker_reach[OF c2(3) b] click_markers_reach[OF c2(3) b hit] c2(3)
    by (auto split: option.splits intro: exI[of _ 0])
  then obtain s' k where s': "(if marker_mode \<and> ?hit = None then (case ?pos of None \<Rightarrow> Ok ?s | Some p \<Rightarrow> place_marker chk (pu_shift ui) signals p ?s)
      else click_markers chk (pu_shift ui) signals ?hit ?pos ?s) = Ok s'" "k \<le> 3" "markers_reach chk (?m + k) s'" by blast
  have fin: "\<exists>ctx' j. r = Ok ctx' \<and> j \<le> 5 \<and> markers_reach chk (n + j) (mc_markers ctx') \<and> markers_ok (mc_markers ctx')"
    if "r = Ok c" "markers_reach chk (?m + i) (mc_markers c)" "i \<le> 3" for r :: "marker_ctx run" and c i
  proof -
    have "markers_reach chk (n + (k1 + k2 + i)) (mc_markers c)" using that(2) by (simp add: add.assoc)
    moreover have "n + (k1 + k2 + i) + 1 < 2 ^ 64" using assms(2) k1(1) c2(2) that(3) by simp
    ultimately show ?thesis using that(1,3) k1(1) c2(2) markers_reach_ok
      by (intro exI[of _ c] exI[of _ "k1 + k2 + i"]) auto
  qed
  show ?thesis
  proof (cases "pu_clicked ui")
    case False
    then have "handle_marker_interaction chk ui marker_mode signals ylo yhi ctx = Ok (end_drag ui c2)"
      by (simp add: handle_marker_interaction_def c2(1) Let_def)
    then show ?thesis by (rule fin[where i = 0]) (simp_all add: e c2(3))
  next
    case True
    then have "handle_marker_interaction chk ui marker_mode signals ylo yhi ctx = Ok ((end_drag ui c2)\<lparr>mc_markers := s'\<rparr>)"
      unfolding handle_marker_interaction_def c2(1) obind.simps(1) Let_def e s'(1) by simp
    then show ?thesis by (rule fin[OF _ _ s'(2)]) (simp add: s'(3))
  qed
qed

text \<open>
  A frame of pointer input (dragging markers and link lines, placing, linking, selecting) is a
  short sequence of marker operations that meet their contract: it never panics, a link is only ever
  drawn between two different existing markers, and the marker set stays among those reachable by
  the operations, using up at most five of them.
\<close>

theorem marker_interaction_safe:
  assumes "markers_reach chk n (mc_markers ctx)" and "n + 8 < 2 ^ 64"
  shows "\<exists>ctx' k. handle_marker_interaction chk ui marker_mode signals ylo yhi ctx = Ok ctx'
    \<and> k \<le> 5 \<and> markers_reach chk (n + k) (mc_markers ctx') \<and> markers_ok (mc_markers ctx')"
  by (rule marker_interaction_reach[OF assms])

definition pos_ex :: pointer_pos where
  "pos_ex = \<lparr>pp_x = Fin 2, pp_y = Fin 0, pp_dx = (\<lambda>_. Fin 100), pp_dy = (\<lambda>_. Fin 100), pp_between = (\<lambda>_ _. False)\<rparr>"

definition ui_ex :: pointer_ui where
  "ui_ex = \<lparr>pu_primary_down = False, pu_shift = False, pu_drag_started = False, pu_clicked = True,
     pu_hover = Some pos_ex, pu_interact = None\<rparr>"

theorem marker_interaction_safe_witness:
  "\<exists>ctx' k. handle_marker_interaction True ui_ex True [] (Fin 0) (Fin 1)
      \<lparr>mc_markers = markers_new, mc_dragging_marker = None, mc_dragging_link = None\<rparr> = Ok ctx'
    \<and> k \<le> 5 \<and> markers_reach True (0 + k) (mc_markers ctx') \<and> markers_ok (mc_markers ctx')"
  by (rule marker_interaction_safe) (simp_all add: markers_reach.start)

end
