(* ===== verification/Lanes.thy ===== *)
theory Lanes
  imports Rows Camera
begin

text \<open>
  What the renderers of \<open>viewer/crates/btelem-viewer/src/plot_renderers.rs\<close> compute before they
  draw: the order and grouping of lanes, the runs of a state lane and of a logic lane, the signals
  and the value range of a scalar plot, the points of an XY plot, and the labels of values. Sizes
  that the layout of the window decides are arguments.
\<close>

section \<open>Menus and groups\<close>

definition MOVE_MENU_TITLE_CHARS :: usize where
  "MOVE_MENU_TITLE_CHARS = 24"

definition move_targets :: "plot_registry \<Rightarrow> plot_id \<Rightarrow> channel_info \<Rightarrow> (plot_id \<times> string) list" where
  "move_targets plots self_id info =
     sort_key fst (List.map_filter (\<lambda>(i, plot).
       if i = self_id \<or> \<not> plot_accepts plot info then None
       else Some (i, fit_label (plot_title plot) MOVE_MENU_TITLE_CHARS)) (registry_iter plots))"

definition push_group :: "usize \<times> string \<Rightarrow> (string \<times> usize list) list \<Rightarrow> (string \<times> usize list) list" where
  "push_group = (\<lambda>(idx, key) out.
     if out \<noteq> [] \<and> fst (last out) = key
     then butlast out @ [(fst (last out), snd (last out) @ [idx])]
     else out @ [(key, [idx])])"

definition collapse_groups :: "(usize \<times> string) list \<Rightarrow> (string \<times> usize list) list" where
  "collapse_groups order = fold push_group order []"

definition resolve_lane :: "(channel_id \<rightharpoonup> channel_info) \<Rightarrow> logic_lane \<Rightarrow> string option \<times> string" where
  "resolve_lane by_id l =
     unwrap_or (None, []) (map_option (\<lambda>i. (Some (channel_group (ci_path i)), ci_path i)) (by_id (ll_ch l)))"

definition lane_groups :: "(channel_id \<rightharpoonup> channel_info) \<Rightarrow> logic_analyser_panel \<Rightarrow> (string \<times> usize list) list" where
  "lane_groups by_id panel =
     collapse_groups (group_then_name_order (map (resolve_lane by_id) (lp_lanes panel)))"

section \<open>State lanes\<close>

definition state_lane_runs :: "bool \<Rightarrow> store \<Rightarrow> channel_id \<Rightarrow> u64 \<times> u64 \<Rightarrow> state_run list run" where
  "state_lane_runs chk g ch = (\<lambda>(t0, t1).
     let runs = query_state g ch t0 t1 in
     obind (if runs = []
            then obind (sample_at chk g ch t0) (\<lambda>held.
                 Ok (case held of
                       Some v \<Rightarrow> [\<lparr>sr_t_start = t0, sr_t_end = t1, sr_value = f64_to_u32 v\<rparr>]
                     | None \<Rightarrow> []))
            else Ok runs) (\<lambda>runs.
     Ok (if runs \<noteq> [] \<and> sr_t_end (last runs) < t1
         then butlast runs @ [(last runs)\<lparr>sr_t_end := t1\<rparr>] else runs)))"

text \<open>The values seen decide between labels and a heat map, whose range is that of the channel.\<close>

definition state_lane_style :: "state_run list \<Rightarrow> state_lane_mode" where
  "state_lane_style runs = state_lane_mode (card (sr_value ` set runs))"

definition state_lane_range :: "bool \<Rightarrow> store \<Rightarrow> channel_id \<Rightarrow> state_run list \<Rightarrow> (u32 \<times> u32) run" where
  "state_lane_range chk g ch runs =
     (if state_lane_style runs = Heatmap \<and> runs \<noteq> []
      then obind (value_bounds chk g ch) (\<lambda>b.
           Ok (case b of
                 Some (lo, hi) \<Rightarrow> (f64_to_u32 lo, f64_to_u32 hi)
               | None \<Rightarrow> fold (\<lambda>r (lo, hi). (if sr_value r < lo then sr_value r else lo,
                                              if hi < sr_value r then sr_value r else hi)) runs (- 1, 0)))
      else Ok (0, 0))"

section \<open>Logic lanes\<close>

text \<open>Values are \<open>i64\<close>.\<close>

record logic_run =
  gr_t_start :: u64
  gr_t_end :: u64
  gr_value :: int

definition push_logic_run :: "u64 \<times> f64 \<Rightarrow> logic_run list \<Rightarrow> logic_run list" where
  "push_logic_run = (\<lambda>(t, v_f) out.
     let v = f64_to_i64 v_f; fresh = \<lparr>gr_t_start = t, gr_t_end = t, gr_value = v\<rparr> in
     if out = [] then [fresh]
     else let closed = butlast out @ [(last out)\<lparr>gr_t_end := t\<rparr>] in
       if gr_value (last out) = v then closed else closed @ [fresh])"

definition hold_to :: "u64 \<Rightarrow> logic_run list \<Rightarrow> logic_run list" where
  "hold_to t1 out = (if out = [] then [] else butlast out @ [(last out)\<lparr>gr_t_end := t1\<rparr>])"

text \<open>The gap between the left edge and the first sample.\<close>

definition fill_leading :: "bool \<Rightarrow> store \<Rightarrow> channel_id \<Rightarrow> u64 \<Rightarrow> logic_run list \<Rightarrow> logic_run list run" where
  "fill_leading chk g ch t0 out =
     (case out of
        [] \<Rightarrow> Ok []
      | first # rest \<Rightarrow>
          if t0 < gr_t_start first
          then obind (sample_at chk g ch t0) (\<lambda>s.
               let held = map_option f64_to_i64 s in
               Ok (case held of
                     Some v \<Rightarrow>
                       if v \<noteq> gr_value first
                       then \<lparr>gr_t_start = t0, gr_t_end = gr_t_start first, gr_value = v\<rparr> # out
                       else first\<lparr>gr_t_start := t0\<rparr> # rest
                   | None \<Rightarrow> first\<lparr>gr_t_start := t0\<rparr> # rest))
          else Ok out)"

definition hold_latest :: "bool \<Rightarrow> store \<Rightarrow> channel_id \<Rightarrow> u64 \<Rightarrow> u64 \<Rightarrow> logic_run list \<Rightarrow> logic_run list run" where
  "hold_latest chk g ch t0 t1 out =
     (if out = []
      then (case time_bounds g of
              None \<Rightarrow> Ok []
            | Some (_, latest) \<Rightarrow>
                obind (sample_at chk g ch latest) (\<lambda>s.
                Ok (case s of
                      Some v \<Rightarrow> [\<lparr>gr_t_start = t0, gr_t_end = t1, gr_value = f64_to_i64 v\<rparr>]
                    | None \<Rightarrow> [])))
      else Ok out)"

definition logic_scalar_runs :: "bool \<Rightarrow> store \<Rightarrow> channel_id \<Rightarrow> u64 \<Rightarrow> u64 \<Rightarrow> usize \<Rightarrow> logic_run list run" where
  "logic_scalar_runs chk g ch t0 t1 width =
     (let max_samples = max width 64 * 8 in
      obind (query_raw g ch t0 t1 max_samples) (\<lambda>samples.
      obind (fill_leading chk g ch t0 (hold_to t1 (fold push_logic_run samples []))) (\<lambda>out.
      hold_latest chk g ch t0 t1 out)))"

definition logic_state_runs :: "bool \<Rightarrow> store \<Rightarrow> channel_id \<Rightarrow> u64 \<Rightarrow> u64 \<Rightarrow> logic_run list run" where
  "logic_state_runs chk g ch t0 t1 =
     (let runs = map (\<lambda>r. \<lparr>gr_t_start = sr_t_start r, gr_t_end = sr_t_end r, gr_value = uint (sr_value r)\<rparr>)
                   (query_state g ch t0 t1) in
      obind (if runs = []
             then obind (sample_at chk g ch t0) (\<lambda>s.
                  Ok (case s of
                        Some v \<Rightarrow> [\<lparr>gr_t_start = t0, gr_t_end = t1, gr_value = f64_to_i64 v\<rparr>]
                      | None \<Rightarrow> []))
             else Ok runs) (\<lambda>runs.
      Ok (if runs \<noteq> [] \<and> gr_t_end (last runs) < t1 then hold_to t1 runs else runs)))"

text \<open>The runs of a lane; \<open>None\<close> when the renderer returns without drawing.\<close>

definition logic_lane_runs :: "bool \<Rightarrow> store \<Rightarrow> (channel_id \<rightharpoonup> channel_info) \<Rightarrow> channel_id \<Rightarrow> u64 \<times> u64 \<Rightarrow> usize
    \<Rightarrow> logic_run list option run" where
  "logic_lane_runs chk g by_id ch = (\<lambda>(t0, t1) width.
     case by_id ch of
       None \<Rightarrow> Ok None
     | Some info \<Rightarrow>
         (case ci_kind info of
            CK_Text \<Rightarrow> Ok None
          | CK_State _ \<Rightarrow> obind (logic_state_runs chk g ch t0 t1) (\<lambda>r. Ok (Some r))
          | CK_Scalar \<Rightarrow> obind (logic_scalar_runs chk g ch t0 t1 width) (\<lambda>r. Ok (Some r))))"

section \<open>Numbers in a radix\<close>

definition radix_digit :: "nat \<Rightarrow> char" where
  "radix_digit d = (if d < 10 then char_of (48 + d) else char_of (55 + d))"

fun show_radix :: "nat \<Rightarrow> nat \<Rightarrow> string" where
  "show_radix b n = (if b < 2 \<or> n < b then [radix_digit n] else show_radix b (n div b) @ [radix_digit (n mod b)])"

declare show_radix.simps [simp del]

definition show_int :: "int \<Rightarrow> string" where
  "show_int v = (if v < 0 then ''-'' @ show_nat (nat (- v)) else show_nat (nat v))"

text \<open>\<open>-v\<close> overflows for the least \<open>i64\<close>: it panics with overflow checks, and is itself without; the
  digits of a negative number are those of its two's complement.\<close>

definition show_negated :: "bool \<Rightarrow> nat \<Rightarrow> int \<Rightarrow> string run" where
  "show_negated chk b v =
     (if v = I64_MIN then (if chk then Panic else Ok (show_radix b (2 ^ 63)))
      else Ok (show_radix b (nat (- v))))"

fun format_logic_value :: "bool \<Rightarrow> int \<Rightarrow> label_radix \<Rightarrow> string run" where
  "format_logic_value chk v Dec = Ok (show_int v)"
| "format_logic_value chk v Hex =
     (if v < 0 then obind (show_negated chk 16 v) (\<lambda>d. Ok (''-0x'' @ d))
      else Ok (''0x'' @ show_radix 16 (nat v)))"
| "format_logic_value chk v Bin =
     (if v < 0 then obind (show_negated chk 2 v) (\<lambda>d. Ok (''-0b'' @ d))
      else Ok (''0b'' @ show_radix 2 (nat v)))"

section \<open>Signals\<close>

type_synonym point3 = "f64 \<times> f64 \<times> f64"

record signal_data =
  sd_ch :: channel_id
  sd_name :: string
  sd_colour :: usize
  sd_points :: "point3 list"
  sd_style :: signal_style
  sd_selected :: bool

text \<open>One channel of a scalar plot: its signal, if it has buckets, and the value range so far. The
  colour is kept as the index into the palette.\<close>

definition add_signal :: "bool \<Rightarrow> store \<Rightarrow> (channel_id \<rightharpoonup> channel_info) \<Rightarrow> scalar_panel \<Rightarrow> u64 \<Rightarrow> u64 \<Rightarrow> usize
    \<Rightarrow> usize \<times> channel_id \<Rightarrow> signal_data list \<times> f64 \<times> f64 \<Rightarrow> (signal_data list \<times> f64 \<times> f64) run" where
  "add_signal chk g by_id panel t0 t1 max_buckets = (\<lambda>(i, ch) (signals, ymin, ymax).
     obind (query_scalar chk g ch t0 t1 max_buckets) (\<lambda>bs.
     if bs = [] then Ok (signals, ymin, ymax)
     else let ymin = fold (\<lambda>b m. if f64_lt (bk_min b) m then bk_min b else m) bs ymin;
              ymax = fold (\<lambda>b m. if f64_lt m (bk_max b) then bk_max b else m) bs ymax
          in Ok (signals @ [\<lparr>sd_ch = ch, sd_name = unwrap_or [] (map_option ci_path (by_id ch)), sd_colour = i,
                   sd_points = map (\<lambda>b. (ns_to_s (bk_t b), bk_min b, bk_max b)) bs,
                   sd_style = style_for panel ch, sd_selected = (ch \<in> sp_selected_signals panel)\<rparr>],
                 ymin, ymax)))"

definition scalar_signals :: "bool \<Rightarrow> store \<Rightarrow> (channel_id \<rightharpoonup> channel_info) \<Rightarrow> scalar_panel \<Rightarrow> u64 \<times> u64 \<Rightarrow> usize
    \<Rightarrow> (signal_data list \<times> f64 \<times> f64) run" where
  "scalar_signals chk g by_id panel = (\<lambda>(t0, t1) width_px.
     ofold (add_signal chk g by_id panel t0 t1 (max width_px 64)) (enumerate 0 (sp_channels panel))
       ([], FInf False, FInf True))"

fun f64_is_finite :: "f64 \<Rightarrow> bool" where
  "f64_is_finite (Fin _) = True"
| "f64_is_finite _ = False"

text \<open>The value axis: the range of the signals with a margin.\<close>

definition y_range :: "f64 \<Rightarrow> f64 \<Rightarrow> f64 \<times> f64" where
  "y_range ymin ymax =
     (if f64_is_finite ymin \<and> f64_is_finite ymax \<and> f64_le ymin ymax
      then let pad = (if f64_lt ymin ymax then f64_mul (f64_sub ymax ymin) (f64_round (1 / 20))
                      else f64_mul (f64_max (f64_abs ymin) (Fin 1)) (f64_round (1 / 20)))
           in (f64_sub ymin pad, f64_add ymax pad)
      else (Fin (- 1), Fin 1))"

definition midpoint :: "f64 \<Rightarrow> f64 \<Rightarrow> f64" where
  "midpoint lo hi = f64_mul (f64_add lo hi) (Fin (1 / 2))"

fun step_points :: "f64 \<Rightarrow> point3 list \<Rightarrow> (f64 \<times> f64) list" where
  "step_points prev_v [] = []"
| "step_points prev_v ((t, lo, hi) # ps) =
     (t, prev_v) # (t, midpoint lo hi) # step_points (midpoint lo hi) ps"

fun step_polyline :: "point3 list \<Rightarrow> (f64 \<times> f64) list" where
  "step_polyline [] = []"
| "step_polyline ((t, lo, hi) # ps) = (t, midpoint lo hi) # step_points (midpoint lo hi) ps"

definition closer_signal :: "f64 \<Rightarrow> f64 \<Rightarrow> signal_data \<Rightarrow> (channel_id \<times> f64) option \<Rightarrow> (channel_id \<times> f64) option run" where
  "closer_signal t y sig best =
     (if sd_points sig = [] then Ok best
      else let idx = min (partition_point (\<lambda>p. f64_lt (fst p) t) (sd_points sig)) (length (sd_points sig) - 1) in
        obind (index_at (sd_points sig) idx) (\<lambda>(_, lo, hi).
        let dy = f64_abs (f64_sub (midpoint lo hi) y)
        in Ok (case best of
                 None \<Rightarrow> Some (sd_ch sig, dy)
               | Some (_, d) \<Rightarrow> if f64_lt dy d then Some (sd_ch sig, dy) else best)))"

definition nearest_signal :: "signal_data list \<Rightarrow> f64 \<Rightarrow> f64 \<Rightarrow> channel_id option run" where
  "nearest_signal signals t y =
     obind (ofold (closer_signal t y) signals None) (\<lambda>best. Ok (map_option fst best))"

text \<open>A click with \<open>ctrl\<close> or \<open>shift\<close> on a signal, and a plain click beside the markers.\<close>

definition click_signal :: "bool \<Rightarrow> channel_id \<Rightarrow> scalar_panel \<Rightarrow> scalar_panel" where
  "click_signal ctrl ch panel =
     (if ctrl \<and> ch \<in> sp_selected_signals panel
      then panel\<lparr>sp_selected_signals := sp_selected_signals panel - {ch}\<rparr>
      else panel\<lparr>sp_selected_signals := insert ch (sp_selected_signals panel)\<rparr>)"

definition XY_MAX_POINTS :: usize where
  "XY_MAX_POINTS = 50000"

definition add_xy_point :: "bool \<Rightarrow> store \<Rightarrow> xy_plot \<Rightarrow> bucket \<Rightarrow> (f64 \<times> f64) list \<Rightarrow> (f64 \<times> f64) list run" where
  "add_xy_point chk g xy b points =
     obind (sample_at chk g (xy_y xy) (bk_t b)) (\<lambda>s.
     Ok (case s of None \<Rightarrow> points | Some yv \<Rightarrow> points @ [(midpoint (bk_min b) (bk_max b), yv)]))"

definition xy_points :: "bool \<Rightarrow> store \<Rightarrow> xy_plot \<Rightarrow> u64 \<times> u64 \<Rightarrow> (f64 \<times> f64) list run" where
  "xy_points chk g xy = (\<lambda>(t0, t1).
     obind (query_scalar chk g (xy_x xy) t0 t1 XY_MAX_POINTS) (\<lambda>bs.
     ofold (add_xy_point chk g xy) bs []))"

definition short_name :: "string \<Rightarrow> string" where
  "short_name p = (case rsplit_once CHR ''.'' p of Some (_, s) \<Rightarrow> s | None \<Rightarrow> p)"

section \<open>Lanes in order\<close>

lemma push_group_flat: "concat (map (\<lambda>(k, is). map (\<lambda>i. (i, k)) is) (push_group x out))
    = concat (map (\<lambda>(k, is). map (\<lambda>i. (i, k)) is) out) @ [x]"
  by (cases out rule: rev_cases) (auto simp: push_group_def split: prod.splits)

text \<open>Collapsing loses no lane and keeps the order; neighbouring groups have different keys.\<close>

lemma collapse_groups_flat: "concat (map (\<lambda>(k, is). map (\<lambda>i. (i, k)) is) (collapse_groups order)) = order"
  by (induction order rule: rev_induct) (simp_all add: collapse_groups_def push_group_flat)

section \<open>Logic lanes tile the window\<close>

fun runs_tile :: "u64 \<Rightarrow> u64 \<Rightarrow> logic_run list \<Rightarrow> bool" where
  "runs_tile a b [] = False"
| "runs_tile a b [r] = (gr_t_start r = a \<and> gr_t_end r = b \<and> a \<le> b)"
| "runs_tile a b (r # s # rs) =
     (gr_t_start r = a \<and> a \<le> gr_t_end r \<and> gr_value r \<noteq> gr_value s \<and> runs_tile (gr_t_end r) b (s # rs))"

lemma runs_tile_covers: "runs_tile a b rs \<Longrightarrow> a \<le> t \<Longrightarrow> t < b \<Longrightarrow> \<exists>r\<in>set rs. gr_t_start r \<le> t \<and> t < gr_t_end r"
proof (induction a b rs rule: runs_tile.induct)
  case (3 a b r s rs)
  then show ?case by (cases "gr_t_end r \<le> t") (auto simp: not_le)
qed auto

lemma runs_tile_hold:
  assumes "runs_tile a b rs" and "b \<le> c"
  shows "runs_tile a c (hold_to c rs)" and "gr_value (last (hold_to c rs)) = gr_value (last rs)"
    and "gr_t_start (last (hold_to c rs)) = gr_t_start (last rs)"
proof -
  have "runs_tile a c (butlast rs @ [(last rs)\<lparr>gr_t_end := c\<rparr>])" using assms
  proof (induction a b rs rule: runs_tile.induct)
    case (3 a b r s rs)
    then show ?case by (cases rs) (auto split: if_splits)
  qed auto
  then show "runs_tile a c (hold_to c rs)" using assms by (cases rs) (simp_all add: hold_to_def)
qed (use assms in \<open>cases rs; simp add: hold_to_def\<close>)+

lemma runs_tile_snoc:
  assumes "runs_tile a b rs" and "gr_value (last rs) \<noteq> gr_value x" and "gr_t_start x = b" "gr_t_end x = c" "b \<le> c"
  shows "runs_tile a c (rs @ [x])"
  using assms
proof (induction a b rs rule: runs_tile.induct)
  case (3 a b r s rs)
  then show ?case by (cases rs) auto
qed auto

lemma push_logic_run_hold:
  "out \<noteq> [] \<Longrightarrow> push_logic_run (t, v) out = hold_to t out @
     (if gr_value (last out) = f64_to_i64 v then []
      else [\<lparr>gr_t_start = t, gr_t_end = t, gr_value = f64_to_i64 v\<rparr>])"
  by (simp add: push_logic_run_def hold_to_def Let_def)

definition runs_show :: "(u64 \<times> f64) list \<Rightarrow> logic_run list \<Rightarrow> bool" where
  "runs_show samples rs \<longleftrightarrow> (\<forall>r\<in>set rs. \<forall>t v. gr_t_start r \<le> t \<and> t < gr_t_end r
     \<and> in_force t samples = Some v \<longrightarrow> gr_value r = f64_to_i64 v)"

text \<open>After the last sample, which the last run shows, that run may be held on.\<close>

lemma runs_show_hold:
  assumes "runs_show xs rs" and "rs \<noteq> []" "xs \<noteq> []" and "gr_value (last rs) = f64_to_i64 (snd (last xs))"
    and "gr_t_end (last rs) = fst (last xs)" and "sorted (map fst xs)"
  shows "runs_show xs (hold_to c rs)"
  unfolding runs_show_def
proof (intro ballI allI impI, elim conjE)
  fix r t v
  assume r: "r \<in> set (hold_to c rs)" "gr_t_start r \<le> t" "t < gr_t_end r" "in_force t xs = Some v"
  show "gr_value r = f64_to_i64 v"
  proof (cases "r \<in> set (butlast rs)")
    case True
    then show ?thesis using assms(1) r in_set_butlastD unfolding runs_show_def by fast
  next
    case False
    then have l: "r = (last rs)\<lparr>gr_t_end := c\<rparr>" using r(1) assms(2) by (simp add: hold_to_def)
    show ?thesis
    proof (cases "t < fst (last xs)")
      case True
      then have "gr_t_start (last rs) \<le> t \<and> t < gr_t_end (last rs)" using r(2) assms(5) l by simp
      then show ?thesis using assms(1) r(4) last_in_set[OF assms(2)] l unfolding runs_show_def by fastforce
    next
      case False
      have "fst x \<le> fst (last xs)" if "x \<in> set xs" for x
        using that assms(3,6) by (cases xs rule: rev_cases) (auto simp: sorted_append)
      then have "filter (\<lambda>x. fst x \<le> t) xs = xs" using False by (force simp: filter_id_conv)
      then have "v = snd (last xs)" using r(4) assms(3) by (simp add: in_force_def)
      then show ?thesis using assms(4) l by simp
    qed
  qed
qed

lemma runs_tile_ends: "runs_tile a b rs \<Longrightarrow> gr_t_end (last rs) = b \<and> gr_t_start (hd rs) = a"
  by (induction a b rs rule: runs_tile.induct) auto

lemma runs_tile_within: "runs_tile a b rs \<Longrightarrow> a \<le> b \<and> (\<forall>r\<in>set rs. a \<le> gr_t_start r \<and> gr_t_end r \<le> b)"
proof (induction a b rs rule: runs_tile.induct)
  case (3 a b r s rs)
  then show ?case by (auto intro: order_trans)
qed auto

lemma logic_runs_fold:
  assumes "sorted (map fst xs)" and "xs \<noteq> []"
  shows "runs_tile (fst (hd xs)) (fst (last xs)) (fold push_logic_run xs []) \<and> runs_show xs (fold push_logic_run xs [])
    \<and> gr_value (last (fold push_logic_run xs [])) = f64_to_i64 (snd (last xs))"
  using assms
proof (induction xs rule: rev_induct)
  case (snoc x xs)
  obtain t v where x: "x = (t, v)" by (cases x)
  show ?case
  proof (cases "xs = []")
    case True
    then show ?thesis unfolding x by (auto simp: push_logic_run_def runs_show_def)
  next
    case False
    let ?out = "fold push_logic_run xs []" and ?b = "fst (last xs)"
    have srt: "sorted (map fst xs)" "?b \<le> t"
      using snoc.prems(1) False unfolding x by (auto simp: sorted_append)
    have ih: "runs_tile (fst (hd xs)) ?b ?out" "runs_show xs ?out" "gr_value (last ?out) = f64_to_i64 (snd (last xs))"
      using snoc.IH[OF srt(1) False] by auto
    have ne: "?out \<noteq> []" using ih(1) by auto
    note h = runs_tile_hold[OF ih(1) srt(2)]
    note hs = runs_show_hold[OF ih(2) ne False ih(3) conjunct1[OF runs_tile_ends[OF ih(1)]] srt(1), of t]
    have hn: "hold_to t ?out \<noteq> []" using ne by (simp add: hold_to_def)
    have inf: "in_force u (xs @ [(t, v)]) = in_force u xs" if "u < t" for u
      using that by (simp add: in_force_def)
    have ends: "\<forall>r\<in>set (hold_to t ?out). gr_t_end r \<le> t" using runs_tile_within[OF h(1)] by simp
    have show1: "runs_show (xs @ [(t, v)]) (hold_to t ?out)"
      unfolding runs_show_def
    proof (intro ballI allI impI, elim conjE)
      fix r u w
      assume r: "r \<in> set (hold_to t ?out)" "gr_t_start r \<le> u" "u < gr_t_end r" "in_force u (xs @ [(t, v)]) = Some w"
      then have "u < t" using ends by (meson order_less_le_trans)
      then show "gr_value r = f64_to_i64 w" using hs r inf unfolding runs_show_def by auto
    qed
    show ?thesis
    proof (cases "gr_value (last ?out) = f64_to_i64 v")
      case True
      then show ?thesis using h show1 False ne unfolding x by (simp add: push_logic_run_hold)
    next
      case ch: False
      let ?r = "\<lparr>gr_t_start = t, gr_t_end = t, gr_value = f64_to_i64 v\<rparr>"
      have "runs_tile (fst (hd xs)) t (hold_to t ?out @ [?r])"
        using ch h(2) by (intro runs_tile_snoc[OF h(1)]) simp_all
      moreover have "runs_show (xs @ [(t, v)]) (hold_to t ?out @ [?r])"
        using show1 by (auto simp: runs_show_def)
      ultimately show ?thesis using ch False ne unfolding x by (simp add: push_logic_run_hold)
    qed
  qed
qed simp

lemma sample_at_scalar_Ok:
  assumes "ops_in_order ops log_new" and "get_at (lg_channels (log_run ops)) (unat ch) = Some info"
    and "ci_kind info = CK_Scalar"
  shows "\<exists>s. sample_at chk (store_run ops) ch t = Ok s"
proof -
  note lc = log_channel[OF assms(2)]
  have "sorted (map fst (lg_scalars (log_run ops) ! unat ch))"
    using log_run_sorted[OF assms(1)] lc(5) by (auto simp: log_sorted_def series_sorted_def)
  then show ?thesis
    by (simp add: sample_at_def lc(1) index_at_get[OF lc(2)] assms(3) sample_scalar_at_sorted)
qed

lemma fill_leading_tiles:
  assumes "runs_tile a t1 rs" and "runs_show xs rs" and "t0 \<le> a" and "\<And>t. t < a \<Longrightarrow> in_force t xs = None"
    and "sample_at chk g ch t0 = Ok s"
  shows "\<exists>out. fill_leading chk g ch t0 rs = Ok out \<and> runs_tile t0 t1 out \<and> runs_show xs out"
proof (cases rs)
  case (Cons first rest)
  have st: "gr_t_start first = a" and a: "a \<le> gr_t_end first"
    using runs_tile_ends[OF assms(1)] assms(1) unfolding Cons by (simp, cases rest) auto
  have stretch: "runs_tile t0 t1 (first\<lparr>gr_t_start := t0\<rparr> # rest)"
    using assms(1,3) a unfolding Cons by (cases rest) auto
  have pre: "runs_tile t0 t1 (\<lparr>gr_t_start = t0, gr_t_end = a, gr_value = v\<rparr> # rs)" if "v \<noteq> gr_value first" for v
    using assms(1,3) that unfolding Cons by simp
  have none: "\<not> (t < a \<and> in_force t xs = Some v)" for t v using assms(4) by auto
  have s1: "runs_show xs (first\<lparr>gr_t_start := t0\<rparr> # rest)"
    using assms(2) none st unfolding Cons runs_show_def by (auto simp: not_less)
  have s2: "runs_show xs (\<lparr>gr_t_start = t0, gr_t_end = a, gr_value = v\<rparr> # rs)" for v
    using assms(2) none unfolding runs_show_def by auto
  show ?thesis
    using assms st stretch pre s1 s2 unfolding fill_leading_def Cons by (auto simp: Let_def split: option.splits)
qed (use assms(1) in simp)



end
