(* ===== verification/Session.thy ===== *)
theory Session
  imports Tcp Layout Interact Lanes
begin

text \<open>
  The application of \<open>viewer/crates/btelem-viewer/src/app.rs\<close>: the state that a session keeps, opening
  and saving captures with their layout sidecars, loading and saving layouts, clearing and
  reconnecting, dropping channels onto plots, the keys, the channel tree and the texts it shows.
  Dialogs and widgets are arguments (what the user picked); messages are values, not formatted text.
\<close>

section \<open>State\<close>

datatype message =
    Open_failed capture_error
  | Schema_failed wire_error
  | Map_failed map_error
  | Loaded u64 u64 u64 "message option"
  | Sidecar_parse_failed
  | Sidecar_version u32
  | Sidecar_applied string apply_report
  | Layout_read_failed
  | Layout_parse_failed
  | Layout_version u32
  | Layout_loaded string apply_report
  | Layout_load_failed io_error
  | Layout_saved string
  | Layout_saved_to string string
  | Layout_save_failed io_error
  | Layout_deleted string
  | Layout_delete_failed io_error
  | Capture_cleared
  | Nothing_to_save
  | Saved u64 u64 string "message option"
  | Save_failed capture_error
  | Sidecar_serialise_failed
  | Sidecar_saved string
  | Sidecar_write_failed

text \<open>The line on the left of the top bar.\<close>

datatype status =
    Status_empty
  | Status_not_implemented protocol
  | Status_connected string
  | Status_connection_failed
  | Status_loaded string u64

record 'd viewer =
  vw_store :: store
  vw_capture :: capture
  vw_handle :: "(stream \<times> channel_map) option"
  vw_status :: status
  vw_connection :: connection
  vw_connection_dialog_open :: bool
  vw_pending_connection :: connection
  vw_dock :: 'd
  vw_plots :: plot_registry
  vw_next_plot_num :: usize
  vw_xy_drag :: xy_drag_accumulator
  vw_tree_selection :: "channel_id set"
  vw_tree_anchor :: "channel_id option"
  vw_cam :: camera
  vw_cursor_t :: "u64 option"
  vw_pending_g :: bool
  vw_markers :: marker_set
  vw_marker_mode :: bool
  vw_last_revision :: u64
  vw_rate :: rate_estimator
  vw_group_counts :: "(string, u64) hashmap"
  vw_layout_name :: "string option"
  vw_layout_path :: "string option"
  vw_save_as_buffer :: "string option"
  vw_delete_confirm :: "string option"
  vw_confirm_clear_open :: bool
  vw_pending_file :: "string option"
  vw_pending_layout :: "string option"
  vw_rename_tab :: "(plot_id \<times> string) option"
  vw_flash :: "message option"
  vw_tree_query :: string
  vw_dragging_marker :: "u64 option"
  vw_dragging_link :: "u64 option"
  vw_log_highlights :: "u64 set"
  vw_pending_log_view :: "drag_payload option"

definition flash :: "message \<Rightarrow> 'd viewer \<Rightarrow> 'd viewer" where
  "flash msg v = v\<lparr>vw_flash := Some msg\<rparr>"

text \<open>What \<open>reconnect\<close>, \<open>do_clear\<close> and \<open>load_capture_file\<close> reset first.\<close>

definition reset_data :: "'d viewer \<Rightarrow> 'd viewer" where
  "reset_data v = v\<lparr>vw_store := store_clear (vw_store v), vw_capture := capture_clear (vw_capture v),
     vw_last_revision := 0, vw_rate := rate_new (Fin 2)\<rparr>"

definition do_clear :: "'d viewer \<Rightarrow> 'd viewer" where
  "do_clear v = flash Capture_cleared ((reset_data v)\<lparr>vw_cam := camera_reset (vw_cam v), vw_markers := markers_new,
     vw_tree_selection := {}, vw_tree_anchor := None, vw_group_counts := []\<rparr>)"

text \<open>
  A connection attempt on the shared store and ring: \<open>addrs\<close> is what the resolved addresses answer. The
  handle of a running source is the stream and channel map its thread starts from.
\<close>

definition connect_source :: "nat \<Rightarrow> connect_result list \<Rightarrow> 'd viewer \<Rightarrow> 'd viewer run" where
  "connect_source now addrs v =
     (let (r, g, cap) = tcp_connect now addrs (vw_store v, Some (vw_capture v));
          v = v\<lparr>vw_store := g, vw_capture := unwrap_or (vw_capture v) cap\<rparr> in
      case r of
        Ok h \<Rightarrow> Ok (v\<lparr>vw_handle := Some h, vw_status := Status_connected (connection_pretty (vw_connection v))\<rparr>)
      | Err _ \<Rightarrow> Ok (v\<lparr>vw_handle := None, vw_status := Status_connection_failed\<rparr>)
      | Panic \<Rightarrow> Panic)"

definition reconnect :: "nat \<Rightarrow> connect_result list \<Rightarrow> 'd viewer \<Rightarrow> 'd viewer run" where
  "reconnect now addrs v =
     (if cn_protocol (vw_connection v) \<noteq> protocol.Tcp
      then Ok (v\<lparr>vw_status := Status_not_implemented (cn_protocol (vw_connection v))\<rparr>)
      else connect_source now addrs (reset_data (v\<lparr>vw_handle := None\<rparr>)))"

section \<open>Opening a capture\<close>

text \<open>\<open>Path::set_extension("layout.json")\<close> on a path with a file name.\<close>

definition file_name :: "string \<Rightarrow> string" where
  "file_name path = (case rsplit_once CHR ''/'' path of Some (_, name) \<Rightarrow> name | None \<Rightarrow> path)"

definition stem_length :: "string \<Rightarrow> nat" where
  "stem_length name =
     (case rsplit_once CHR ''.'' name of Some (stem, _) \<Rightarrow> if stem = [] then length name else length stem
      | None \<Rightarrow> length name)"

definition layout_sidecar_path :: "string \<Rightarrow> string" where
  "layout_sidecar_path path =
     (let name = file_name path
      in take (length path - length name + stem_length name) path @ ''.layout.json'')"

definition install_layout :: "('d, 'u, 'v) dock_lib \<Rightarrow> 'v layout \<Rightarrow> 'd viewer \<Rightarrow> apply_report \<times> 'd viewer" where
  "install_layout lib layout v =
     (let channels = st_channels (vw_store v);
          (registry, dock, report) = apply_layout lib layout channels in
      (report, v\<lparr>vw_plots := registry, vw_dock := dock, vw_next_plot_num := registry_len registry + 1,
        vw_layout_name := Some (ly_name layout),
        vw_markers := restore
          (map (\<lambda>m. (mks_t_ns m, mks_label m, mks_color m)) (ly_markers layout))
          (map (\<lambda>l. (lks_a_index l, lks_b_index l, lks_y_frac l, signals_resolved channels l)) (ly_links layout))
          (vw_markers v)\<rparr>))"

definition try_apply_sidecar_layout :: "('d, 'u, 'v) dock_lib \<Rightarrow> (bytes \<Rightarrow> 'v layout option) \<Rightarrow> string \<Rightarrow> file_system
    \<Rightarrow> 'd viewer \<Rightarrow> message option \<times> 'd viewer" where
  "try_apply_sidecar_layout lib from_slice path fs v =
     (case fs_files fs (layout_sidecar_path path) of
        None \<Rightarrow> (None, v)
      | Some bytes \<Rightarrow>
          (case from_slice bytes of
             None \<Rightarrow> (Some Sidecar_parse_failed, v)
           | Some layout \<Rightarrow>
               if \<not> version_supported (ly_version layout) then (Some (Sidecar_version (ly_version layout)), v)
               else let (report, v') = install_layout lib layout v
                    in (Some (Sidecar_applied (ly_name layout) report), v')))"

text \<open>The body of the loop over the packets of the file; the counters are packets, entries, skipped.\<close>

definition replay_packet :: "bool \<Rightarrow> channel_map \<Rightarrow> nat \<Rightarrow> bytes \<Rightarrow> store \<times> capture \<times> u64 \<times> u64 \<times> u64
    \<Rightarrow> (store \<times> capture \<times> u64 \<times> u64 \<times> u64) run" where
  "replay_packet chk m now pkt = (\<lambda>(g, cap, pkts, entries, skipped).
     case decode_packet pkt of
       Ok p \<Rightarrow>
         obind (dispatch_entries chk m (pk_entries p) g) (\<lambda>g'.
         Ok (g', (case push_packet now pkt cap of Ok c \<Rightarrow> c | _ \<Rightarrow> cap), pkts + 1,
             entries + of_nat (length (pk_entries p)), skipped))
     | Err _ \<Rightarrow> Ok (g, cap, pkts, entries, skipped + 1)
     | Panic \<Rightarrow> Panic)"

definition load_capture_file :: "bool \<Rightarrow> nat \<Rightarrow> ('d, 'u, 'v) dock_lib \<Rightarrow> (bytes \<Rightarrow> 'v layout option) \<Rightarrow> string
    \<Rightarrow> file_system \<Rightarrow> 'd viewer \<Rightarrow> 'd viewer run" where
  "load_capture_file chk now lib from_slice path fs v =
     (case read_btlm path fs of
        Panic \<Rightarrow> Panic
      | Err e \<Rightarrow> Ok (flash (Open_failed e) v)
      | Ok loaded \<Rightarrow>
          (case schema_decode (lc_schema loaded) of
             Panic \<Rightarrow> Panic
           | Err e \<Rightarrow> Ok (flash (Schema_failed e) v)
           | Ok schema \<Rightarrow>
               let v = reset_data (v\<lparr>vw_handle := None\<rparr>) in
               (case channel_map_build schema (vw_store v) of
                  (Panic, _) \<Rightarrow> Panic
                | (Err e, g) \<Rightarrow> Ok (flash (Map_failed e) (v\<lparr>vw_store := g\<rparr>))
                | (Ok m, g) \<Rightarrow>
                    obind (ofold (replay_packet chk m now) (lc_packets loaded)
                            (g, snd (set_schema now (lc_schema loaded) (vw_capture v)), 0, 0, 0))
                      (\<lambda>(g, cap, pkts, entries, skipped).
                      let (note, v) = try_apply_sidecar_layout lib from_slice path fs
                            (v\<lparr>vw_store := g, vw_capture := cap, vw_status := Status_loaded (file_name path) pkts\<rparr>)
                      in Ok (flash (Loaded pkts entries skipped note) v)))))"

section \<open>Layouts\<close>

definition load_layout_file :: "('d, 'u, 'v) dock_lib \<Rightarrow> (bytes \<Rightarrow> 'v layout option) \<Rightarrow> string \<Rightarrow> file_system
    \<Rightarrow> 'd viewer \<Rightarrow> 'd viewer" where
  "load_layout_file lib from_slice path fs v =
     (case fs_files fs path of
        None \<Rightarrow> flash Layout_read_failed v
      | Some bytes \<Rightarrow>
          (case from_slice bytes of
             None \<Rightarrow> flash Layout_parse_failed v
           | Some layout \<Rightarrow>
               if \<not> version_supported (ly_version layout) then flash (Layout_version (ly_version layout)) v
               else let (report, v) = install_layout lib layout v
                    in flash (Layout_loaded (ly_name layout) report) (v\<lparr>vw_layout_path := Some path\<rparr>)))"

definition do_load_layout :: "('d, 'u, 'v) dock_lib \<Rightarrow> ((u64, usize list) hashmap \<Rightarrow> (u64 \<times> usize list) list)
    \<Rightarrow> (bytes \<Rightarrow> 'v layout option) \<Rightarrow> string option \<Rightarrow> files \<Rightarrow> string \<Rightarrow> 'd viewer \<Rightarrow> 'd viewer run" where
  "do_load_layout lib hash_order from_slice config_dir fs name v =
     (case load_layout hash_order from_slice config_dir fs name of
        Panic \<Rightarrow> Panic
      | Err e \<Rightarrow> Ok (flash (Layout_load_failed e) v)
      | Ok layout \<Rightarrow>
          let (report, v) = install_layout lib layout v
          in Ok (flash (Layout_loaded (ly_name layout) report) (v\<lparr>vw_layout_path := None\<rparr>)))"

definition snapshot :: "('d, 'u, 'v) dock_lib \<Rightarrow> string \<Rightarrow> 'd viewer \<Rightarrow> 'v layout" where
  "snapshot lib name v =
     capture_layout lib name (vw_plots v) (vw_dock v)
       (hm_get (hm_collect (map (\<lambda>c. (ci_id c, c)) (st_channels (vw_store v))))) (vw_markers v)"

definition do_save_layout :: "('d, 'u, 'v) dock_lib \<Rightarrow> ('v layout \<Rightarrow> bytes option) \<Rightarrow> string option \<Rightarrow> string
    \<Rightarrow> file_system \<Rightarrow> 'd viewer \<Rightarrow> (file_system \<times> 'd viewer) run" where
  "do_save_layout lib to_vec config_dir name fs v =
     (let snap = snapshot lib name v in
      case vw_layout_path v of
        Some path \<Rightarrow>
          (case to_vec snap of
             None \<Rightarrow> Ok (fs, flash (Layout_save_failed InvalidData) v)
           | Some bytes \<Rightarrow>
               if fs_writable fs path
               then Ok (fs\<lparr>fs_files := (fs_files fs)(path \<mapsto> bytes)\<rparr>, flash (Layout_saved_to name path) v)
               else Ok (fs, flash (Layout_save_failed OtherIo) v))
      | None \<Rightarrow>
          (case save_layout (fs_writable fs) to_vec config_dir snap (fs_files fs) of
             Ok files \<Rightarrow> Ok (fs\<lparr>fs_files := files\<rparr>, flash (Layout_saved name) (v\<lparr>vw_layout_name := Some name\<rparr>))
           | Err e \<Rightarrow> Ok (fs, flash (Layout_save_failed e) v)
           | Panic \<Rightarrow> Panic))"

definition do_delete_layout :: "string option \<Rightarrow> string \<Rightarrow> file_system \<Rightarrow> 'd viewer \<Rightarrow> (file_system \<times> 'd viewer) run" where
  "do_delete_layout config_dir name fs v =
     (case delete_layout (fs_writable fs) config_dir name (fs_files fs) of
        Ok files \<Rightarrow> Ok (fs\<lparr>fs_files := files\<rparr>, flash (Layout_deleted name)
          (if vw_layout_name v = Some name then v\<lparr>vw_layout_name := None\<rparr> else v))
      | Err e \<Rightarrow> Ok (fs, flash (Layout_delete_failed e) v)
      | Panic \<Rightarrow> Panic)"

section \<open>Saving a capture\<close>

text \<open>\<open>Path::extension\<close> is \<open>None\<close> exactly when the stem is the whole file name.\<close>

definition with_btlm_extension :: "string \<Rightarrow> string" where
  "with_btlm_extension path =
     (if stem_length (file_name path) = length (file_name path) then path @ ''.btlm'' else path)"

text \<open>The layout written beside a saved capture.\<close>

definition sidecar_name :: "string \<Rightarrow> 'd viewer \<Rightarrow> string" where
  "sidecar_name path v =
     (case vw_layout_name v of
        Some n \<Rightarrow> n
      | None \<Rightarrow> let f = file_name path in if f = [] then ''capture'' else take (stem_length f) f)"

definition write_sidecar_layout :: "('d, 'u, 'v) dock_lib \<Rightarrow> ('v layout \<Rightarrow> bytes option) \<Rightarrow> string \<Rightarrow> file_system
    \<Rightarrow> 'd viewer \<Rightarrow> message option \<times> file_system" where
  "write_sidecar_layout lib to_vec path fs v =
     (case to_vec (snapshot lib (sidecar_name path v) v) of
        None \<Rightarrow> (Some Sidecar_serialise_failed, fs)
      | Some bytes \<Rightarrow>
          let sidecar = layout_sidecar_path path in
          if fs_writable fs sidecar
          then (Some (Sidecar_saved sidecar), fs\<lparr>fs_files := (fs_files fs)(sidecar \<mapsto> bytes)\<rparr>)
          else (Some Sidecar_write_failed, fs))"

text \<open>\<open>pick\<close> is what the save dialog returns.\<close>

definition do_save_capture :: "('d, 'u, 'v) dock_lib \<Rightarrow> ('v layout \<Rightarrow> bytes option) \<Rightarrow> string option \<Rightarrow> file_system
    \<Rightarrow> 'd viewer \<Rightarrow> (file_system \<times> 'd viewer) run" where
  "do_save_capture lib to_vec pick fs v =
     (if \<not> has_data (vw_capture v) then Ok (fs, flash Nothing_to_save v)
      else case pick of
        None \<Rightarrow> Ok (fs, v)
      | Some picked \<Rightarrow>
          let path = with_btlm_extension picked in
          (case save_btlm (vw_capture v) path fs of
             (Ok r, fs) \<Rightarrow>
               let (note, fs) = write_sidecar_layout lib to_vec path fs v
               in Ok (fs, flash (Saved (rp_packets r) (rp_bytes r) path note) v)
           | (Err e, fs) \<Rightarrow> Ok (fs, flash (Save_failed e) v)
           | (Panic, _) \<Rightarrow> Panic))"

section \<open>Dropping channels\<close>

definition add_logic_lane :: "channel_id \<Rightarrow> channel_info \<Rightarrow> store \<Rightarrow> (channel_id \<rightharpoonup> channel_info)
    \<Rightarrow> logic_analyser_panel \<Rightarrow> logic_analyser_panel" where
  "add_logic_lane ch info g by_id panel =
     (case bits_for_word g ch of
        Some bits \<Rightarrow> fold (\<lambda>b p. case by_id b of Some bi \<Rightarrow> snd (logic_panel_add bi p) | None \<Rightarrow> p) bits panel
      | None \<Rightarrow> snd (logic_panel_add info panel))"

definition log_view_from_group :: "string \<Rightarrow> string \<Rightarrow> channel_id list \<Rightarrow> plot_kind" where
  "log_view_from_group title grp channels =
     PK_LogView ((log_view_new title grp)\<lparr>lv_columns := channels, lv_visible := [0 ..< length channels]\<rparr>)"

text \<open>A text channel dropped beside a log view opens one for its group; the columns come in the order
  of the hash map.\<close>

definition log_view_for_text :: "channel_id \<Rightarrow> channel_info \<Rightarrow> (channel_id, channel_info) hashmap \<Rightarrow> plot_kind" where
  "log_view_for_text ch info by_id =
     (let grp = channel_group (ci_path info);
          columns = map ci_id (filter (\<lambda>c. channel_group (ci_path c) = grp) (map snd by_id))
      in PK_LogView ((log_view_new grp grp)\<lparr>lv_columns := columns,
           lv_visible := (case position (\<lambda>c. c = ch) columns of Some idx \<Rightarrow> [idx] | None \<Rightarrow> [0 ..< length columns])\<rparr>))"

record drop_state =
  ds_plots :: plot_registry
  ds_new_plots :: "plot_kind list"
  ds_xy_drag :: xy_drag_accumulator

text \<open>What a drop does to the panel it lands on, for one channel.\<close>

fun drop_channel :: "store \<Rightarrow> (channel_id \<rightharpoonup> channel_info) \<Rightarrow> channel_id \<Rightarrow> channel_info \<Rightarrow> plot_kind \<Rightarrow> plot_kind" where
  "drop_channel g by_id ch info (PK_Scalar p) = PK_Scalar (snd (scalar_panel_add info p))"
| "drop_channel g by_id ch info (PK_LogicAnalyser p) = PK_LogicAnalyser (add_logic_lane ch info g by_id p)"
| "drop_channel g by_id ch info (PK_LogView p) = PK_LogView p"
| "drop_channel g by_id ch info (PK_XY p) = PK_XY p"

definition xy_plot_of :: "(channel_id \<rightharpoonup> channel_info) \<Rightarrow> channel_id \<times> channel_id \<Rightarrow> plot_kind" where
  "xy_plot_of by_id = (\<lambda>(x, y).
     let name = (\<lambda>c. short_name (case by_id c of Some i \<Rightarrow> ci_path i | None \<Rightarrow> ''?''))
     in PK_XY \<lparr>xy_title = ''XY '' @ name x @ '' vs '' @ name y, xy_x = x, xy_y = y, xy_trail_ns = None\<rparr>)"

fun drop_on_plot :: "store \<Rightarrow> (channel_id, channel_info) hashmap \<Rightarrow> plot_id \<Rightarrow> drag_payload \<Rightarrow> drop_state \<Rightarrow> drop_state" where
  "drop_on_plot g by_id pid (DP_Channel ch) s =
     (case (hm_get by_id ch, registry_get (ds_plots s) pid) of
        (Some info, Some plot) \<Rightarrow>
          if plot_accepts plot info
          then s\<lparr>ds_plots := registry_modify pid (drop_channel g (hm_get by_id) ch info) (ds_plots s)\<rparr>
          else if ci_kind info = CK_Text
          then s\<lparr>ds_new_plots := ds_new_plots s @ [log_view_for_text ch info by_id]\<rparr>
          else s
      | _ \<Rightarrow> s)"
| "drop_on_plot g by_id pid (DP_Channels chs) s =
     s\<lparr>ds_plots := registry_modify pid (\<lambda>plot. fold (\<lambda>ch plot. case hm_get by_id ch of
         Some info \<Rightarrow> drop_channel g (hm_get by_id) ch info plot | None \<Rightarrow> plot) chs plot) (ds_plots s)\<rparr>"
| "drop_on_plot g by_id pid (DP_Group name channels) s =
     s\<lparr>ds_new_plots := ds_new_plots s @ [log_view_from_group name name channels]\<rparr>"
| "drop_on_plot g by_id pid (DP_XYSeed ch) s =
     (let (pair, acc) = xy_feed ch (ds_xy_drag s); s = s\<lparr>ds_xy_drag := acc\<rparr> in
      case pair of
        None \<Rightarrow> s
      | Some xy \<Rightarrow> s\<lparr>ds_new_plots := ds_new_plots s @ [xy_plot_of (hm_get by_id) xy]\<rparr>)"

section \<open>Plots and tabs\<close>

definition make_default_dock :: "('d, 'u, 'v) dock_lib \<Rightarrow> (plot_id list \<Rightarrow> 'd \<Rightarrow> 'd) \<Rightarrow> plot_registry
    \<Rightarrow> plot_registry \<times> 'd" where
  "make_default_dock lib split_right plots =
     (let (scalar_id, plots) = registry_insert (PK_Scalar (scalar_panel_new ''scalar 1'')) plots;
          (logic_id, plots) = registry_insert (PK_LogicAnalyser (logic_panel_new ''logic 2'')) plots
      in (plots, split_right [logic_id] (dl_new lib [scalar_id])))"

definition add_tab :: "('d, 'u, 'v) dock_lib \<Rightarrow> plot_kind \<Rightarrow> 'd viewer \<Rightarrow> 'd viewer" where
  "add_tab lib kind v =
     (let (i, plots) = registry_insert kind (vw_plots v)
      in v\<lparr>vw_plots := plots, vw_dock := dl_push_focused lib i (vw_dock v)\<rparr>)"

text \<open>The three buttons of the top bar, given the constructor and the first word of the title.\<close>

definition add_numbered :: "('d, 'u, 'v) dock_lib \<Rightarrow> (string \<Rightarrow> plot_kind) \<Rightarrow> string \<Rightarrow> 'd viewer \<Rightarrow> 'd viewer" where
  "add_numbered lib ctor word v =
     add_tab lib (ctor (word @ '' '' @ show_nat (vw_next_plot_num v)))
       (v\<lparr>vw_next_plot_num := vw_next_plot_num v + 1\<rparr>)"

definition rename_tab :: "plot_id \<Rightarrow> string \<Rightarrow> 'd viewer \<Rightarrow> 'd viewer" where
  "rename_tab pid buf v =
     (let trimmed = str_trim buf in
      if trimmed = [] then v else v\<lparr>vw_plots := registry_modify pid (set_title trimmed) (vw_plots v)\<rparr>)"

text \<open>Groups dropped beside the plots or opened from the tree join the plots of the frame.\<close>

fun group_view :: "drag_payload option \<Rightarrow> plot_kind list" where
  "group_view (Some (DP_Group name channels)) = [log_view_from_group name name channels]"
| "group_view _ = []"

definition collect_plots :: "drag_payload option \<Rightarrow> drag_payload option \<Rightarrow> plot_kind list \<Rightarrow> plot_kind list" where
  "collect_plots dock_drop pending new_plots = new_plots @ group_view dock_drop @ group_view pending"

text \<open>The end of a frame: closed tabs, new plots, and never an empty workspace.\<close>

definition finish_frame :: "('d, 'u, 'v) dock_lib \<Rightarrow> (plot_id list \<Rightarrow> 'd \<Rightarrow> 'd) \<Rightarrow> plot_id list \<Rightarrow> plot_kind list
    \<Rightarrow> 'd viewer \<Rightarrow> 'd viewer" where
  "finish_frame lib split_right removed new_plots v =
     (let v = v\<lparr>vw_plots := fold (\<lambda>i r. snd (registry_remove i r)) removed (vw_plots v)\<rparr>;
          v = fold (add_tab lib) new_plots v in
      if registry_is_empty (vw_plots v)
      then let (plots, dock) = make_default_dock lib split_right (vw_plots v)
           in v\<lparr>vw_plots := plots, vw_dock := dock, vw_next_plot_num := 3\<rparr>
      else v)"

section \<open>Keys\<close>

record keys =
  k_f :: bool
  k_g :: bool
  k_shift :: bool
  k_home :: bool
  k_m :: bool
  k_delete :: bool
  k_escape :: bool

definition press_f :: "camera \<Rightarrow> camera" where
  "press_f cam =
     (let mode = time_base_toggle (cam_mode cam); cam = cam\<lparr>cam_mode := mode\<rparr>
      in if mode = Follow then cam\<lparr>cam_free_bounds_s := None\<rparr> else cam)"

definition press_g :: "bool \<Rightarrow> (u64 \<times> u64) option \<Rightarrow> (u64 \<times> u64) option \<Rightarrow> 'd viewer \<Rightarrow> 'd viewer" where
  "press_g shift data view v =
     (if shift
      then (case view of
              None \<Rightarrow> v\<lparr>vw_pending_g := False\<rparr>
            | Some (t0, t1) \<Rightarrow>
                let cur = (ns_to_s t0, ns_to_s t1);
                    pivot = (case vw_cursor_t v of
                       Some t \<Rightarrow> ns_to_s t | None \<Rightarrow> f64_mul (f64_add (fst cur) (snd cur)) (Fin (1 / 2)))
                in v\<lparr>vw_cam := zoom_in_at (f64_round (1 / 5)) pivot cur (vw_cam v), vw_pending_g := False\<rparr>)
      else if vw_pending_g v then v\<lparr>vw_pending_g := False, vw_cam := view_all data (vw_cam v)\<rparr>
      else v\<lparr>vw_pending_g := True\<rparr>)"

definition press_delete :: "'d viewer \<Rightarrow> 'd viewer" where
  "press_delete v =
     (case ms_selected (vw_markers v) of
        Some sel \<Rightarrow> v\<lparr>vw_markers := marker_remove sel (vw_markers v)\<rparr> | None \<Rightarrow> v)"

definition press_escape :: "'d viewer \<Rightarrow> 'd viewer" where
  "press_escape v = v\<lparr>vw_xy_drag := xy_cancel (vw_xy_drag v), vw_marker_mode := False, vw_pending_g := False\<rparr>"

definition on_key :: "bool \<Rightarrow> ('a \<Rightarrow> 'a) \<Rightarrow> 'a \<Rightarrow> 'a" where
  "on_key b f x = (if b then f x else x)"

text \<open>\<open>fresh\<close>: a first \<open>g\<close> is not older than 700 ms; \<open>typing\<close>: a text field has the keyboard.\<close>

definition handle_global_keys :: "bool \<Rightarrow> bool \<Rightarrow> bool \<Rightarrow> keys \<Rightarrow> 'd viewer \<Rightarrow> 'd viewer run" where
  "handle_global_keys chk typing fresh ks v =
     (if typing then Ok v
      else let v = on_key (\<not> fresh) (\<lambda>v. v\<lparr>vw_pending_g := False\<rparr>) v;
               data = time_bounds (vw_store v) in
        obind (compute_view chk (vw_cam v) data) (\<lambda>view.
        let v = on_key (k_f ks) (\<lambda>v. v\<lparr>vw_cam := press_f (vw_cam v)\<rparr>) v;
            v = on_key (k_g ks) (press_g (k_shift ks) data view) v;
            v = on_key (k_home ks) (\<lambda>v. v\<lparr>vw_cam := camera_reset (vw_cam v)\<rparr>) v;
            v = on_key (k_m ks) (\<lambda>v. v\<lparr>vw_marker_mode := \<not> vw_marker_mode v\<rparr>) v;
            v = on_key (k_delete ks) press_delete v;
            v = on_key (k_escape ks) press_escape v
        in Ok v))"

section \<open>The channel tree\<close>

definition visible_channels :: "string \<Rightarrow> channel_info list \<Rightarrow> channel_id list" where
  "visible_channels query channels =
     concat (map (\<lambda>(_, items). map ci_id (filter (\<lambda>c. matches_query (ci_path c) query) items))
       (group_by_struct channels))"

definition prune_selection :: "channel_info list \<Rightarrow> 'd viewer \<Rightarrow> 'd viewer" where
  "prune_selection channels v =
     (let alive = ci_id ` set channels;
          v = v\<lparr>vw_tree_selection := vw_tree_selection v \<inter> alive\<rparr>
      in case vw_tree_anchor v of
           Some a \<Rightarrow> if a \<in> alive then v else v\<lparr>vw_tree_anchor := None\<rparr>
         | None \<Rightarrow> v)"

definition row_payload :: "bool \<Rightarrow> channel_info \<Rightarrow> channel_id list \<Rightarrow> channel_id set \<Rightarrow> drag_payload" where
  "row_payload shift c visible selection =
     (if shift \<and> ci_kind c = CK_Scalar \<and> card selection \<le> 1 then DP_XYSeed (ci_id c)
      else if ci_id c \<in> selection \<and> 1 < card selection
      then DP_Channels (filter (\<lambda>i. i \<in> selection) visible)
      else DP_Channel (ci_id c))"

definition update_selection :: "channel_id list \<Rightarrow> channel_id \<Rightarrow> bool \<Rightarrow> bool \<Rightarrow> channel_id set \<times> channel_id option
    \<Rightarrow> channel_id set \<times> channel_id option" where
  "update_selection visible clicked ctrl shift = (\<lambda>(selection, anchor).
     let a = unwrap_or clicked anchor;
         plain = (if ctrl
                  then (if clicked \<in> selection then (selection - {clicked}, Some clicked)
                        else (insert clicked selection, Some clicked))
                  else ({clicked}, Some clicked))
     in if shift
        then (case (position (\<lambda>i. i = a) visible, position (\<lambda>i. i = clicked) visible) of
                (Some ia, Some ib) \<Rightarrow>
                  let (lo, hi) = (if ia \<le> ib then (ia, ib) else (ib, ia))
                  in (set (take (hi + 1 - lo) (drop lo visible)), if anchor = None then Some clicked else anchor)
              | _ \<Rightarrow> plain)
        else plain)"

definition count_group :: "bool \<Rightarrow> store \<Rightarrow> channel_info \<Rightarrow> (string, u64) hashmap \<Rightarrow> (string, u64) hashmap run" where
  "count_group chk g c counts =
     (let grp = channel_group (ci_path c) in
      obind (add_chk chk (unwrap_or 0 (hm_get counts grp)) (sample_count g (ci_id c))) (\<lambda>n.
      Ok (hm_insert grp n counts)))"

definition refresh_group_counts :: "bool \<Rightarrow> 'd viewer \<Rightarrow> 'd viewer run" where
  "refresh_group_counts chk v =
     obind (ofold (count_group chk (vw_store v)) (st_channels (vw_store v)) []) (\<lambda>counts.
     Ok (v\<lparr>vw_group_counts := counts\<rparr>))"

section \<open>Texts\<close>

definition scaled :: "nat \<Rightarrow> u64 \<Rightarrow> nat \<Rightarrow> string" where
  "scaled p n unit = fmt_fixed p (f64_div (f64_of_int (uint n)) (f64_of_int (int unit)))"

definition fmt_count :: "u64 \<Rightarrow> string" where
  "fmt_count n =
     (if n < 1000 then show_nat (unat n)
      else if n < 1000000 then scaled 1 n 1000 @ ''k''
      else if n < 1000000000 then scaled 1 n 1000000 @ ''M''
      else scaled 1 n 1000000000 @ ''G'')"

definition fmt_bytes :: "u64 \<Rightarrow> string" where
  "fmt_bytes n =
     (if n < 1024 then show_nat (unat n) @ '' B''
      else if n < 1048576 then scaled 1 n 1024 @ '' KiB''
      else if n < 1073741824 then scaled 1 n 1048576 @ '' MiB''
      else scaled 2 n 1073741824 @ '' GiB'')"

fun join :: "string \<Rightarrow> string list \<Rightarrow> string" where
  "join sep [] = []"
| "join sep [x] = x"
| "join sep (x # y # xs) = x @ sep @ join sep (y # xs)"

definition format_apply_suffix :: "apply_report \<Rightarrow> string \<Rightarrow> string \<Rightarrow> string" where
  "format_apply_suffix report opening closing =
     (let missing = missing_count report in
      if missing = 0 \<and> ar_dropped_plots report = 0 then []
      else let body =
                 (if 0 < missing
                  then let extra = missing - 3;
                           tail = (if 0 < extra then '', +'' @ show_nat extra @ '' more'' else [])
                       in show_nat missing @ '' unknown channel(s): ''
                            @ join '', '' (take 3 (ar_missing_paths report)) @ tail
                  else []);
               body =
                 (if 0 < ar_dropped_plots report
                  then body @ (if body = [] then [] else ''; '')
                       @ show_nat (ar_dropped_plots report) @ '' plot(s) dropped''
                  else body)
           in opening @ body @ closing)"

text \<open>The middle dot of the statistics line.\<close>

definition middle_dot :: string where
  "middle_dot = '' '' @ str_of_bytes [0xC2, 0xB7] @ '' ''"

definition fmt_capture_stats :: "bool \<Rightarrow> capture_stats \<Rightarrow> string run" where
  "fmt_capture_stats chk s =
     (let mins = f64_to_u64 (f64_floor (f64_div (cs_age_secs s) (Fin 60))) in
      obind (mul_chk chk mins 60) (\<lambda>m.
      let secs = f64_to_u64 (f64_floor (f64_sub (cs_age_secs s) (f64_of_int (uint m))));
          dropped = (if 0 < cs_packets_dropped s
                     then middle_dot @ fmt_count (cs_packets_dropped s) @ '' dropped (ring full)'' else [])
      in Ok (fmt_count (cs_packets s) @ '' packets'' @ middle_dot @ fmt_bytes (cs_bytes s) @ middle_dot
             @ zero_pad 2 (unat mins) @ '':'' @ zero_pad 2 (unat secs) @ dropped)))"

text \<open>A line of the cursor panel.\<close>

definition cursor_value :: "channel_kind \<Rightarrow> f64 option \<Rightarrow> string option" where
  "cursor_value kind v =
     (case v of
        None \<Rightarrow> None
      | Some x \<Rightarrow>
          (case kind of
             CK_Scalar \<Rightarrow> Some (fmt_fixed 6 x)
           | CK_State labels \<Rightarrow>
               Some (unwrap_or (show_int (f64_to_i64 x)) (get_at labels (unat (f64_to_u64 x))))
           | CK_Text \<Rightarrow> None))"

end
