(* ===== verification/App.thy ===== *)
theory App
  imports Session
begin

text \<open>
  The frame loop of \<open>viewer/crates/btelem-viewer/src/app.rs\<close>: construction of the application, the first
  frame, the dialogs, the cursor panel, and the session as a transition system whose steps are what
  a user, the network and the clock can do between two frames.
\<close>

section \<open>Start\<close>

text \<open>
  The initial connection: each attempt is what the addresses answer and whether the deadline has
  passed afterwards. \<open>None\<close> means that the list of attempts ended before the loop did.
\<close>

fun connect_retry :: "nat \<Rightarrow> (connect_result list \<times> bool) list \<Rightarrow> 'd viewer \<Rightarrow> 'd viewer option run" where
  "connect_retry now [] v = Ok None"
| "connect_retry now ((addrs, late) # attempts) v =
     obind (connect_source now addrs v) (\<lambda>v.
     if vw_handle v \<noteq> None \<or> late then Ok (Some v) else connect_retry now attempts v)"

record args =
  ar_addr :: string
  ar_file :: "string option"
  ar_layout :: "string option"

definition viewer_blank :: "('d, 'u, 'v) dock_lib \<Rightarrow> (plot_id list \<Rightarrow> 'd \<Rightarrow> 'd) \<Rightarrow> args \<Rightarrow> 'd viewer" where
  "viewer_blank lib split_right args =
     (let connection = (case connection_parse (ar_addr args) of Ok c \<Rightarrow> c | _ \<Rightarrow> connection_default);
          (plots, dock) = make_default_dock lib split_right registry_new
      in \<lparr>vw_store = store_new, vw_capture = capture_new DEFAULT_RING_BYTES, vw_handle = None,
          vw_status = Status_empty, vw_connection = connection, vw_connection_dialog_open = False,
          vw_pending_connection = connection, vw_dock = dock, vw_plots = plots, vw_next_plot_num = 3,
          vw_xy_drag = \<lparr>xa_first = None\<rparr>, vw_tree_selection = {}, vw_tree_anchor = None,
          vw_cam = camera_default, vw_cursor_t = None, vw_pending_g = False, vw_markers = markers_new,
          vw_marker_mode = False, vw_last_revision = 0, vw_rate = rate_new (Fin 2), vw_group_counts = [],
          vw_layout_name = None, vw_layout_path = None, vw_save_as_buffer = None, vw_delete_confirm = None,
          vw_confirm_clear_open = False, vw_pending_file = ar_file args, vw_pending_layout = ar_layout args,
          vw_rename_tab = None, vw_flash = None, vw_tree_query = [], vw_dragging_marker = None,
          vw_dragging_link = None, vw_log_highlights = {}, vw_pending_log_view = None\<rparr>)"

definition viewer_new :: "('d, 'u, 'v) dock_lib \<Rightarrow> (plot_id list \<Rightarrow> 'd \<Rightarrow> 'd) \<Rightarrow> nat
    \<Rightarrow> (connect_result list \<times> bool) list \<Rightarrow> args \<Rightarrow> 'd viewer option run" where
  "viewer_new lib split_right now attempts args =
     (case ar_file args of
        Some _ \<Rightarrow> Ok (Some (viewer_blank lib split_right args))
      | None \<Rightarrow> connect_retry now attempts (viewer_blank lib split_right args))"

text \<open>\<open>--file\<close> and \<open>--layout\<close>, on the first frame.\<close>

definition process_pending :: "bool \<Rightarrow> nat \<Rightarrow> ('d, 'u, 'v) dock_lib \<Rightarrow> (bytes \<Rightarrow> 'v layout option) \<Rightarrow> file_system
    \<Rightarrow> 'd viewer \<Rightarrow> 'd viewer run" where
  "process_pending chk now lib from_slice fs v =
     obind (case vw_pending_file v of
              None \<Rightarrow> Ok v
            | Some path \<Rightarrow> load_capture_file chk now lib from_slice path fs (v\<lparr>vw_pending_file := None\<rparr>)) (\<lambda>v.
     Ok (case vw_pending_layout v of
           None \<Rightarrow> v
         | Some path \<Rightarrow> load_layout_file lib from_slice path fs (v\<lparr>vw_pending_layout := None\<rparr>)))"

text \<open>\<open>idle\<close>: the cursor was last set more than \<open>CURSOR_IDLE_MS\<close> ago.\<close>

definition poll_redraw :: "bool \<Rightarrow> 'd viewer \<Rightarrow> 'd viewer" where
  "poll_redraw idle v =
     (let v = v\<lparr>vw_last_revision := st_revision (vw_store v)\<rparr>
      in if idle then v\<lparr>vw_cursor_t := None\<rparr> else v)"

definition sample_rate :: "nat \<Rightarrow> 'd viewer \<Rightarrow> f64 \<times> 'd viewer" where
  "sample_rate now v =
     (let r = rate_push now (st_revision (vw_store v)) (vw_rate v) in (rate_of r, v\<lparr>vw_rate := r\<rparr>))"

definition expire_flash :: "bool \<Rightarrow> 'd viewer \<Rightarrow> 'd viewer" where
  "expire_flash expired v = (if expired then v\<lparr>vw_flash := None\<rparr> else v)"

section \<open>Dialogs\<close>

text \<open>What the user did with a popup in this frame.\<close>

datatype popup = Stay | Commit | Dismiss

definition confirm_clear_dialog :: "popup \<Rightarrow> 'd viewer \<Rightarrow> 'd viewer" where
  "confirm_clear_dialog p v =
     (if \<not> vw_confirm_clear_open v then v
      else case p of
        Stay \<Rightarrow> v
      | Commit \<Rightarrow> (do_clear v)\<lparr>vw_confirm_clear_open := False\<rparr>
      | Dismiss \<Rightarrow> v\<lparr>vw_confirm_clear_open := False\<rparr>)"

definition rename_tab_dialog :: "popup \<Rightarrow> 'd viewer \<Rightarrow> 'd viewer" where
  "rename_tab_dialog p v =
     (case vw_rename_tab v of
        None \<Rightarrow> v
      | Some (pid, buf) \<Rightarrow>
          (case p of
             Stay \<Rightarrow> v
           | Commit \<Rightarrow> (rename_tab pid buf v)\<lparr>vw_rename_tab := None\<rparr>
           | Dismiss \<Rightarrow> v\<lparr>vw_rename_tab := None\<rparr>))"

definition save_as_dialog :: "('d, 'u, 'v) dock_lib \<Rightarrow> ('v layout \<Rightarrow> bytes option) \<Rightarrow> string option \<Rightarrow> popup
    \<Rightarrow> file_system \<Rightarrow> 'd viewer \<Rightarrow> (file_system \<times> 'd viewer) run" where
  "save_as_dialog lib to_vec config_dir p fs v =
     (case vw_save_as_buffer v of
        None \<Rightarrow> Ok (fs, v)
      | Some buf \<Rightarrow>
          (case p of
             Stay \<Rightarrow> Ok (fs, v)
           | Commit \<Rightarrow>
               let v = v\<lparr>vw_save_as_buffer := None\<rparr>; trimmed = str_trim buf in
               if trimmed = [] then Ok (fs, v) else do_save_layout lib to_vec config_dir trimmed fs v
           | Dismiss \<Rightarrow> Ok (fs, v\<lparr>vw_save_as_buffer := None\<rparr>)))"

definition delete_confirm_dialog :: "string option \<Rightarrow> popup \<Rightarrow> file_system \<Rightarrow> 'd viewer \<Rightarrow> (file_system \<times> 'd viewer) run" where
  "delete_confirm_dialog config_dir p fs v =
     (case vw_delete_confirm v of
        None \<Rightarrow> Ok (fs, v)
      | Some name \<Rightarrow>
          (case p of
             Stay \<Rightarrow> Ok (fs, v)
           | Commit \<Rightarrow> do_delete_layout config_dir name fs (v\<lparr>vw_delete_confirm := None\<rparr>)
           | Dismiss \<Rightarrow> Ok (fs, v\<lparr>vw_delete_confirm := None\<rparr>)))"

text \<open>\<open>edited\<close> is the connection as the fields of the dialog show it after this frame.\<close>

definition connection_dialog :: "nat \<Rightarrow> connect_result list \<Rightarrow> connection \<Rightarrow> popup \<Rightarrow> 'd viewer \<Rightarrow> 'd viewer run" where
  "connection_dialog now addrs edited p v =
     (if \<not> vw_connection_dialog_open v then Ok v
      else let v = v\<lparr>vw_pending_connection := edited\<rparr> in
        case p of
          Stay \<Rightarrow> Ok v
        | Commit \<Rightarrow>
            obind (reconnect now addrs (v\<lparr>vw_connection := edited\<rparr>)) (\<lambda>v.
            Ok (v\<lparr>vw_connection_dialog_open := False\<rparr>))
        | Dismiss \<Rightarrow> Ok (v\<lparr>vw_connection_dialog_open := False\<rparr>))"

definition open_connection_dialog :: "'d viewer \<Rightarrow> 'd viewer" where
  "open_connection_dialog v = v\<lparr>vw_pending_connection := vw_connection v, vw_connection_dialog_open := True\<rparr>"

text \<open>The entries of the Layouts menu that change state besides loading.\<close>

definition menu_save_layout :: "('d, 'u, 'v) dock_lib \<Rightarrow> ('v layout \<Rightarrow> bytes option) \<Rightarrow> string option
    \<Rightarrow> file_system \<Rightarrow> 'd viewer \<Rightarrow> (file_system \<times> 'd viewer) run" where
  "menu_save_layout lib to_vec config_dir fs v =
     (case vw_layout_name v of
        None \<Rightarrow> Ok (fs, v)
      | Some name \<Rightarrow> do_save_layout lib to_vec config_dir name fs v)"

definition menu_save_as :: "'d viewer \<Rightarrow> 'd viewer" where
  "menu_save_as v = v\<lparr>vw_save_as_buffer := Some (unwrap_or [] (vw_layout_name v))\<rparr>"

definition menu_delete :: "string \<Rightarrow> 'd viewer \<Rightarrow> 'd viewer" where
  "menu_delete name v = v\<lparr>vw_delete_confirm := Some name\<rparr>"

text \<open>The Clear entry of the Capture menu is enabled when there is something to clear.\<close>

definition menu_clear :: "'d viewer \<Rightarrow> 'd viewer" where
  "menu_clear v =
     (if has_data (vw_capture v) \<or> cp_schema (vw_capture v) \<noteq> None then v\<lparr>vw_confirm_clear_open := True\<rparr> else v)"

text \<open>The time base buttons and the window field of the top bar.\<close>

definition pick_time_base :: "time_base \<Rightarrow> camera \<Rightarrow> camera" where
  "pick_time_base mode cam =
     (if cam_mode cam = mode then cam
      else let cam = cam\<lparr>cam_mode := mode\<rparr> in if mode = Follow then cam\<lparr>cam_free_bounds_s := None\<rparr> else cam)"

definition pick_window :: "f64 \<Rightarrow> camera \<Rightarrow> camera" where
  "pick_window secs cam =
     (if cam_mode cam = Follow then cam\<lparr>cam_window_ns := f64_to_u64 (f64_mul secs (Fin (10 ^ 9)))\<rparr> else cam)"

text \<open>The channel tree: the groups with a match, their headers, and the rows that match.\<close>

definition tree_header :: "string \<Rightarrow> (string, u64) hashmap \<Rightarrow> string" where
  "tree_header head counts = head @ ''  ('' @ fmt_count (unwrap_or 0 (hm_get counts head)) @ '')''"

definition tree_leaf :: "string \<Rightarrow> string" where
  "tree_leaf path = (case position (\<lambda>c. c = CHR ''.'') path of Some i \<Rightarrow> drop (i + 1) path | None \<Rightarrow> path)"

definition tree_rows :: "string \<Rightarrow> (string, u64) hashmap \<Rightarrow> channel_info list \<Rightarrow> (string \<times> (string \<times> channel_id) list) list" where
  "tree_rows query counts channels =
     List.map_filter (\<lambda>(head, items).
       let hits = filter (\<lambda>c. matches_query (ci_path c) query) items in
       if hits = [] then None
       else Some (tree_header head counts, map (\<lambda>c. (tree_leaf (ci_path c), ci_id c)) hits))
       (group_by_struct channels)"

text \<open>The context menu of a tab.\<close>

definition request_rename :: "plot_id \<Rightarrow> 'd viewer \<Rightarrow> 'd viewer" where
  "request_rename pid v =
     v\<lparr>vw_rename_tab := Some (pid, (case registry_get (vw_plots v) pid of Some k \<Rightarrow> plot_title k | None \<Rightarrow> []))\<rparr>"

section \<open>The cursor panel\<close>

definition iter_plots :: "('d, 'u, 'v) dock_lib \<Rightarrow> 'd viewer \<Rightarrow> (plot_id \<times> plot_kind) list" where
  "iter_plots lib v =
     List.map_filter (\<lambda>i. map_option (Pair i) (registry_get (vw_plots v) i)) (concat (dl_leaves lib (vw_dock v)))"

definition cursor_row :: "bool \<Rightarrow> (channel_id \<rightharpoonup> channel_info) \<Rightarrow> u64 \<Rightarrow> store \<Rightarrow> channel_id
    \<Rightarrow> (string \<times> string option) option run" where
  "cursor_row chk by_id t g ch =
     (case by_id ch of
        None \<Rightarrow> Ok None
      | Some info \<Rightarrow>
          obind (sample_at chk g ch t) (\<lambda>x. Ok (Some (ci_path info, cursor_value (ci_kind info) x))))"

fun cursor_channels :: "plot_kind \<Rightarrow> channel_id list" where
  "cursor_channels (PK_Scalar p) = sp_channels p"
| "cursor_channels (PK_LogicAnalyser p) = map ll_ch (lp_lanes p)"
| "cursor_channels (PK_LogView p) = lv_columns p"
| "cursor_channels (PK_XY p) = [xy_x p, xy_y p]"

definition channels_by_id :: "store \<Rightarrow> channel_id \<rightharpoonup> channel_info" where
  "channels_by_id g = hm_get (hm_collect (map (\<lambda>c. (ci_id c, c)) (st_channels g)))"

text \<open>The titled blocks of rows; a channel that is gone has no row.\<close>

definition cursor_rows :: "bool \<Rightarrow> ('d, 'u, 'v) dock_lib \<Rightarrow> 'd viewer \<Rightarrow> (string \<times> (string \<times> string option) list) list run" where
  "cursor_rows chk lib v =
     (case vw_cursor_t v of
        None \<Rightarrow> Ok []
      | Some t \<Rightarrow>
          omap (\<lambda>(_, kind).
            obind (omap (cursor_row chk (channels_by_id (vw_store v)) t (vw_store v)) (cursor_channels kind)) (\<lambda>rows.
            Ok (plot_title kind, List.map_filter (\<lambda>r. r) rows))) (iter_plots lib v))"

definition seconds_between :: "u64 \<Rightarrow> u64 \<Rightarrow> f64" where
  "seconds_between a b = f64_div (f64_sub (f64_of_int (uint b)) (f64_of_int (uint a))) (Fin (10 ^ 9))"

text \<open>A line of the marker list: label, selected or not, the number that is printed, number of links.\<close>

definition marker_rows :: "u64 \<Rightarrow> marker_set \<Rightarrow> (string \<times> bool \<times> f64 \<times> usize) list" where
  "marker_rows t s =
     map (\<lambda>m. (mk_label m, Some (mk_id m) = ms_selected s, f64_neg (seconds_between t (mk_t_ns m)),
       length (links_for s (mk_id m)))) (ms_markers s)"

text \<open>A link: the two labels, the time between them, and the change of each signal known at both ends.\<close>

definition link_delta :: "bool \<Rightarrow> store \<Rightarrow> u64 \<Rightarrow> u64 \<Rightarrow> channel_id \<Rightarrow> (string \<times> f64) option run" where
  "link_delta chk g ta tb ch =
     obind (sample_at chk g ch ta) (\<lambda>va. obind (sample_at chk g ch tb) (\<lambda>vb.
     Ok (case (va, vb) of
           (Some x, Some y) \<Rightarrow>
             Some (case channels_by_id g ch of Some c \<Rightarrow> ci_path c | None \<Rightarrow> [], f64_sub y x)
         | _ \<Rightarrow> None)))"

definition link_rows :: "bool \<Rightarrow> store \<Rightarrow> marker_set \<Rightarrow> (string \<times> string \<times> f64 \<times> (string \<times> f64) list) list run" where
  "link_rows chk g s =
     omap (\<lambda>(a, b, l).
       obind (omap (link_delta chk g (mk_t_ns a) (mk_t_ns b)) (lk_signals l)) (\<lambda>ds.
       Ok (mk_label a, mk_label b, seconds_between (mk_t_ns a) (mk_t_ns b), List.map_filter (\<lambda>d. d) ds)))
       (time_ordered_pairs s)"

end
