(* ===== verification/Layout_Roundtrip.thy ===== *)
theory Layout_Roundtrip
  imports Layout
begin

text \<open>
  Applying a captured layout restores it: every plot comes back with its channels, styles, lanes,
  columns and filters, nothing is reported missing, and the tabs of the dock show the same plots. Also
  slugs, saving and loading, and the migration of chains.
\<close>

section \<open>Renaming the keys of a map\<close>

text \<open>A map whose keys are translated by an injective partial function, one entry after the other.\<close>

definition rekey :: "('a \<Rightarrow> 'b option) \<Rightarrow> ('v \<Rightarrow> 'w) \<Rightarrow> ('a, 'v) hashmap \<Rightarrow> ('b \<times> 'w) list" where
  "rekey f g m = List.map_filter (\<lambda>(k, v). map_option (\<lambda>j. (j, g v)) (f k)) m"

definition inj_partial :: "('a \<Rightarrow> 'b option) \<Rightarrow> bool" where
  "inj_partial f \<longleftrightarrow> (\<forall>a a' b. f a = Some b \<and> f a' = Some b \<longrightarrow> a = a')"

lemma rekey_simps [simp]:
  "rekey f g [] = []"
  "rekey f g ((k, v) # m) = (case f k of None \<Rightarrow> rekey f g m | Some j \<Rightarrow> (j, g v) # rekey f g m)"
  by (simp_all add: rekey_def split: option.splits)

lemma rekey_mem: "(b, w) \<in> set (rekey f g m) \<Longrightarrow> \<exists>a v. (a, v) \<in> set m \<and> f a = Some b"
proof (induction m)
  case (Cons kv m)
  then show ?case by (cases kv) (auto split: option.splits)
qed simp

lemma rekey_keys: "b \<in> fst ` set (rekey f g m) \<Longrightarrow> \<exists>a\<in>fst ` set m. f a = Some b"
  using rekey_mem[of b _ f g m] by (auto simp: image_iff) (metis fst_conv)

lemma rekey_distinct: "inj_partial f \<Longrightarrow> hm_ok m \<Longrightarrow> distinct (map fst (rekey f g m))"
proof (induction m)
  case (Cons kv m)
  obtain k v where kv: "kv = (k, v)" by (cases kv)
  show ?case
  proof (cases "f k")
    case (Some j)
    have "j \<notin> fst ` set (rekey f g m)"
    proof
      assume "j \<in> fst ` set (rekey f g m)"
      then obtain a where "a \<in> fst ` set m" "f a = Some j" using rekey_keys by metis
      then show False using Some Cons.prems kv by (auto simp: inj_partial_def)
    qed
    then show ?thesis using Some Cons kv by simp
  qed (use Cons kv in simp)
qed simp

lemma map_of_rekey:
  assumes "inj_partial f" and "f a = Some b"
  shows "map_of (rekey f g m) b = map_option g (map_of m a)"
  using assms by (induction m) (auto simp: inj_partial_def split: option.splits)

lemma map_of_rekey_None: "(\<And>a. f a \<noteq> Some b) \<Longrightarrow> map_of (rekey f g m) b = None"
  by (induction m) (auto split: option.splits)

lemma hm_get_collect_rekey:
  assumes "inj_partial f" "hm_ok m" "f a = Some b"
  shows "hm_get (hm_collect (rekey f g m)) b = map_option g (map_of m a)"
  unfolding hm_get_collect_unique[OF rekey_distinct[OF assms(1,2)]] by (rule map_of_rekey[OF assms(1,3)])

lemma hm_collect_rekey_None:
  "(\<And>a. f a \<noteq> Some b) \<Longrightarrow> hm_get (hm_collect (rekey f g m)) b = None"
  by (simp add: hm_get_collect map_of_eq_None_iff) (metis image_set rekey_keys)

lemma map_filter_map_opt:
  "(\<And>x. x \<in> set xs \<Longrightarrow> f x = Some (g x)) \<Longrightarrow> List.map_filter f xs = map g xs"
  by (induction xs) simp_all

section \<open>Channels by id and by path\<close>

text \<open>The channels of a store: ids and paths are unique.\<close>

definition channels_ok :: "channel_info list \<Rightarrow> bool" where
  "channels_ok channels \<longleftrightarrow> distinct (map ci_id channels) \<and> distinct (map ci_path channels)"

definition ids_of :: "channel_info list \<Rightarrow> channel_id \<rightharpoonup> channel_info" where
  "ids_of channels = map_of (map (\<lambda>c. (ci_id c, c)) channels)"

lemma ids_of_Some:
  assumes "channels_ok channels"
  shows "ids_of channels c = Some i \<longleftrightarrow> i \<in> set channels \<and> ci_id i = c"
  using assms by (auto simp: ids_of_def channels_ok_def map_of_eq_Some_iff comp_def)

lemma paths_of_Some:
  assumes "channels_ok channels"
  shows "paths_of channels p = Some i \<longleftrightarrow> i \<in> set channels \<and> ci_path i = p"
proof -
  have "distinct (map fst (map (\<lambda>c. (ci_path c, c)) channels))"
    using assms by (simp add: channels_ok_def comp_def)
  from hm_get_collect_unique[OF this, of p] show ?thesis
    using assms by (auto simp: paths_of_def channels_ok_def map_of_eq_Some_iff comp_def)
qed

lemma path_back:
  "channels_ok channels \<Longrightarrow> ids_of channels c = Some i \<Longrightarrow> paths_of channels (ci_path i) = Some i"
  by (simp add: ids_of_Some paths_of_Some)

lemma path_of_inj: "channels_ok channels \<Longrightarrow> inj_partial (path_of (ids_of channels))"
  by (auto simp: inj_partial_def path_of_def ids_of_Some channels_ok_def)
    (metis distinct_map inj_on_eq_iff)

lemma id_of_path_inj:
  "channels_ok channels \<Longrightarrow> inj_partial (\<lambda>path. Option.bind (paths_of channels path)
      (\<lambda>i. if P i then Some (ci_id i) else None))"
  by (auto simp: inj_partial_def paths_of_Some channels_ok_def bind_eq_Some_conv split: if_splits)
    (metis distinct_map inj_on_eq_iff)

section \<open>Panels\<close>

fun enum_finite :: "column_filter \<Rightarrow> bool" where
  "enum_finite (CF_EnumSet s) = finite s"
| "enum_finite _ = True"

text \<open>What a panel needs to be restored as it is: its channels are live, and a log view shows the columns
  of its group.\<close>

fun saveable :: "channel_info list \<Rightarrow> plot_kind \<Rightarrow> bool" where
  "saveable channels (PK_Scalar p) \<longleftrightarrow>
     panel_ok (ids_of channels) (PK_Scalar p) \<and> fst ` set (sp_styles p) \<subseteq> dom (ids_of channels)"
| "saveable channels (PK_LogicAnalyser p) \<longleftrightarrow> panel_ok (ids_of channels) (PK_LogicAnalyser p)"
| "saveable channels (PK_LogView p) \<longleftrightarrow>
     hm_ok (lv_filters p) \<and> lv_columns p = map ci_id (filter (in_group (lv_group p)) channels) \<and>
     (\<forall>i\<in>set (lv_visible p). i < length (lv_columns p)) \<and> (lv_visible p = [] \<longrightarrow> lv_columns p = []) \<and>
     fst ` set (lv_filters p) \<subseteq> set (lv_columns p) \<and> (\<forall>f\<in>snd ` set (lv_filters p). enum_finite f) \<and>
     set_option (lv_color_by p) \<subseteq> set (lv_columns p) \<and> set_option (lv_priority_by p) \<subseteq> set (lv_columns p) \<and>
     1 \<le> lv_max_rows p"
| "saveable channels (PK_XY p) \<longleftrightarrow> panel_ok (ids_of channels) (PK_XY p)"

text \<open>The same plot: equal but for the order inside hash maps and the selected signals, which are not saved.\<close>

fun same_plot :: "plot_kind \<Rightarrow> plot_kind \<Rightarrow> bool" where
  "same_plot (PK_Scalar p) (PK_Scalar q) \<longleftrightarrow>
     sp_title q = sp_title p \<and> sp_channels q = sp_channels p \<and> (\<forall>c. hm_get (sp_styles q) c = hm_get (sp_styles p) c)
     \<and> sp_selected_signals q = {}"
| "same_plot (PK_LogicAnalyser p) (PK_LogicAnalyser q) \<longleftrightarrow> q = p"
| "same_plot (PK_LogView p) (PK_LogView q) \<longleftrightarrow>
     q = p\<lparr>lv_filters := lv_filters q\<rparr> \<and> (\<forall>c. hm_get (lv_filters q) c = hm_get (lv_filters p) c)"
| "same_plot (PK_XY p) (PK_XY q) \<longleftrightarrow> q = p"
| "same_plot _ _ \<longleftrightarrow> False"

lemma filter_roundtrip: "enum_finite f \<Longrightarrow> to_filter (from_filter f) = f"
  by (cases f) simp_all

lemma add_scalar_paths:
  assumes "channels_ok channels" "distinct (sp_channels p @ cs)" "sp_styles p = []"
    and "\<forall>c\<in>set cs. \<exists>i. ids_of channels c = Some i \<and> is_scalar_kind (ci_kind i)"
  shows "fold (add_scalar_path (paths_of channels)) (map (\<lambda>c. the (path_of (ids_of channels) c)) cs) (p, report)
    = (p\<lparr>sp_channels := sp_channels p @ cs\<rparr>, report)"
  using assms(2-4)
proof (induction cs arbitrary: p)
  case (Cons c cs)
  obtain i where i: "ids_of channels c = Some i" "is_scalar_kind (ci_kind i)" using Cons.prems(3) by auto
  have ci: "ci_id i = c" using i(1) assms(1) by (simp add: ids_of_Some)
  let ?p = "p\<lparr>sp_channels := sp_channels p @ [c]\<rparr>"
  have "add_scalar_path (paths_of channels) (the (path_of (ids_of channels) c)) (p, report) = (?p, report)"
    using i ci path_back[OF assms(1) i(1)] Cons.prems(1,2)
    by (auto simp: path_of_def add_scalar_path_def scalar_panel_add_def Let_def split: list.splits)
  moreover have "fold (add_scalar_path (paths_of channels)) (map (\<lambda>c. the (path_of (ids_of channels) c)) cs) (?p, report)
      = (?p\<lparr>sp_channels := sp_channels ?p @ cs\<rparr>, report)"
    by (rule Cons.IH) (use Cons.prems in auto)
  ultimately show ?case by simp
qed simp

lemma lane_update_last: "cid \<notin> ll_ch ` set ls \<Longrightarrow> ll_ch l = cid \<Longrightarrow> lane_update cid f (ls @ [l]) = ls @ [f l]"
  by (induction ls) auto

lemma add_lane_specs:
  assumes "channels_ok channels" "distinct (map ll_ch (lp_lanes p @ ls))"
    and "\<forall>l\<in>set ls. \<exists>i. ids_of channels (ll_ch l) = Some i \<and> accepts_logic i
        \<and> (requires_labels (ll_mode l) \<longrightarrow> channel_has_labels i)"
  shows "fold (add_lane_spec (paths_of channels)) (map (\<lambda>l. \<lparr>lls_ch_path = the (path_of (ids_of channels) (ll_ch l)),
      lls_radix = ll_radix l, lls_mode = ll_mode l\<rparr>) ls) (p, report) = (p\<lparr>lp_lanes := lp_lanes p @ ls\<rparr>, report)"
  using assms(2,3)
proof (induction ls arbitrary: p)
  case (Cons l ls)
  let ?spec = "\<lambda>l. \<lparr>lls_ch_path = the (path_of (ids_of channels) (ll_ch l)), lls_radix = ll_radix l, lls_mode = ll_mode l\<rparr>"
  obtain i where i: "ids_of channels (ll_ch l) = Some i" "accepts_logic i"
    "requires_labels (ll_mode l) \<longrightarrow> channel_has_labels i" using Cons.prems(2) by auto
  have ci: "ci_id i = ll_ch l" using i(1) assms(1) by (simp add: ids_of_Some)
  have new: "ll_ch l \<notin> ll_ch ` set (lp_lanes p)" using Cons.prems(1) by auto
  have acc: "is_state_kind (ci_kind i) \<or> ci_integer_storage i" using i(2) by (auto simp: accepts_logic_def)
  have mode: "\<not> (ll_mode l = Named \<and> \<not> is_state_kind (ci_kind i))"
    using i(3) by (auto simp: channel_has_labels_def)
  let ?fresh = "\<lparr>ll_ch = ll_ch l, ll_mode = default_lane_mode (ci_kind i) (ci_integer_storage i), ll_radix = Hex\<rparr>"
  have add: "logic_panel_add i p = (True, p\<lparr>lp_lanes := lp_lanes p @ [?fresh]\<rparr>)"
  proof -
    have "\<not> list_ex (\<lambda>x. ll_ch x = ll_ch l) (lp_lanes p)" using new by (auto simp: list_ex_iff intro: rev_image_eqI)
    then show ?thesis using i(2) ci by (simp add: logic_panel_add_def)
  qed
  let ?p = "p\<lparr>lp_lanes := lp_lanes p @ [l]\<rparr>"
  have "add_lane_spec (paths_of channels) (?spec l) (p, report) = (?p, report)"
    using i(1) ci path_back[OF assms(1) i(1)] acc mode new
    by (auto simp: path_of_def add_lane_spec_def add Let_def set_mode_def set_radix_def lane_update_last)
  moreover have "fold (add_lane_spec (paths_of channels)) (map ?spec ls) (?p, report)
      = (?p\<lparr>lp_lanes := lp_lanes ?p @ ls\<rparr>, report)"
    by (rule Cons.IH) (use Cons.prems in auto)
  ultimately show ?case by simp
qed simp

section \<open>One plot\<close>

lemma apply_styles_rekey:
  "sp_styles (fold (apply_style by_path (\<lambda>_. True)) styles p) =
     fold (\<lambda>(j, w). hm_insert j w) (rekey (\<lambda>path. map_option ci_id (by_path path)) (\<lambda>st. st) styles) (sp_styles p)"
  "sp_title (fold (apply_style by_path (\<lambda>_. True)) styles p) = sp_title p"
  "sp_channels (fold (apply_style by_path (\<lambda>_. True)) styles p) = sp_channels p"
  "sp_selected_signals (fold (apply_style by_path (\<lambda>_. True)) styles p) = sp_selected_signals p"
  by (induction styles arbitrary: p) (auto simp: apply_style_def set_style_def split: option.splits)

lemma scalar_roundtrip:
  assumes "channels_ok channels" "saveable channels (PK_Scalar p)"
  shows "\<exists>k'. apply_spec (paths_of channels) channels (spec_from_kind (ids_of channels) (PK_Scalar p)) s
      = insert_plot k' (as_report s) s \<and> same_plot (PK_Scalar p) k'"
proof -
  let ?by = "ids_of channels" and ?bp = "paths_of channels"
  have cs: "distinct (sp_channels p)" "hm_ok (sp_styles p)"
    "\<forall>c\<in>set (sp_channels p). \<exists>i. ?by c = Some i \<and> is_scalar_kind (ci_kind i)" "fst ` set (sp_styles p) \<subseteq> dom ?by"
    using assms(2) by simp_all
  define S where "S = hm_collect (rekey (path_of ?by) (\<lambda>st. st) (sp_styles p))"
  have paths: "List.map_filter (path_of ?by) (sp_channels p) = map (\<lambda>c. the (path_of ?by c)) (sp_channels p)"
    by (rule map_filter_map_opt) (use cs(3) in \<open>fastforce simp: path_of_def\<close>)
  have "fold (\<lambda>(c, st) styles. case ?by c of None \<Rightarrow> styles | Some info \<Rightarrow> hm_insert (ci_path info) st styles) m acc
      = fold (\<lambda>(j, w). hm_insert j w) (rekey (path_of ?by) (\<lambda>st. st) m) acc" for m acc
    by (induction m arbitrary: acc) (auto simp: path_of_def split: option.splits)
  from this[of "sp_styles p" "[]"] have spec: "spec_from_kind ?by (PK_Scalar p) =
      PS_Scalar (sp_title p) (map (\<lambda>c. the (path_of ?by c)) (sp_channels p)) S"
    unfolding spec_from_kind.simps paths styles_iter_def S_def hm_collect_def by (simp only:)
  define q where "q = fold (apply_style ?bp (\<lambda>_. True)) S ((scalar_panel_new (sp_title p))\<lparr>sp_channels := sp_channels p\<rparr>)"
  have "fold (add_scalar_path ?bp) (map (\<lambda>c. the (path_of ?by c)) (sp_channels p)) (scalar_panel_new (sp_title p), as_report s)
      = ((scalar_panel_new (sp_title p))\<lparr>sp_channels := sp_channels p\<rparr>, as_report s)"
    using add_scalar_paths[OF assms(1), of "scalar_panel_new (sp_title p)" "sp_channels p" "as_report s"] cs
    by (simp add: scalar_panel_new_def)
  then have "apply_spec ?bp channels (spec_from_kind ?by (PK_Scalar p)) s = insert_plot (PK_Scalar q) (as_report s) s"
    unfolding spec q_def by simp
  moreover have "hm_get (sp_styles q) c = hm_get (sp_styles p) c" for c
  proof (cases "?by c")
    case None
    then have "hm_get (sp_styles p) c = None" using cs(4) by (auto simp: map_of_eq_None_iff)
    moreover have "map_option ci_id (?bp a) \<noteq> Some c" for a
      using None assms(1) by (auto simp: paths_of_Some) (metis ids_of_Some option.distinct(1))
    ultimately show ?thesis
      using hm_collect_rekey_None[of "\<lambda>path. map_option ci_id (?bp path)" c "\<lambda>st. st" S]
      by (simp add: q_def apply_styles_rekey(1) scalar_panel_new_def hm_collect_def)
  next
    case (Some i)
    have f: "path_of ?by c = Some (ci_path i)" "map_option ci_id (?bp (ci_path i)) = Some c"
      using Some path_back[OF assms(1) Some] ids_of_Some[OF assms(1), of c i] by (simp_all add: path_of_def)
    have b: "map_option ci_id x = Option.bind x (\<lambda>i. if True then Some (ci_id i) else None)" for x by (cases x) simp_all
    have inj: "inj_partial (\<lambda>path. map_option ci_id (?bp path))"
      unfolding b by (rule id_of_path_inj[OF assms(1), of "\<lambda>_. True"])
    have "hm_get S (ci_path i) = hm_get (sp_styles p) c"
      unfolding S_def hm_get_collect_rekey[OF path_of_inj[OF assms(1)] cs(2) f(1)] by (simp add: option.map_ident)
    moreover have "hm_get (hm_collect (rekey (\<lambda>path. map_option ci_id (?bp path)) (\<lambda>st. st) S)) c = hm_get S (ci_path i)"
      by (subst hm_get_collect_rekey[OF inj _ f(2)]) (simp_all add: S_def option.map_ident)
    ultimately show ?thesis by (simp add: q_def apply_styles_rekey(1) scalar_panel_new_def hm_collect_def)
  qed
  ultimately show ?thesis
    by (intro exI[of _ "PK_Scalar q"]) (simp add: q_def apply_styles_rekey(2-4) scalar_panel_new_def)
qed

lemma logic_roundtrip:
  assumes "channels_ok channels" "saveable channels (PK_LogicAnalyser p)"
  shows "apply_spec (paths_of channels) channels (spec_from_kind (ids_of channels) (PK_LogicAnalyser p)) s
      = insert_plot (PK_LogicAnalyser p) (as_report s) s"
proof -
  let ?by = "ids_of channels"
  let ?spec = "\<lambda>l. \<lparr>lls_ch_path = the (path_of ?by (ll_ch l)), lls_radix = ll_radix l, lls_mode = ll_mode l\<rparr>"
  have "List.map_filter (\<lambda>l. map_option (\<lambda>c. \<lparr>lls_ch_path = ci_path c, lls_radix = ll_radix l, lls_mode = ll_mode l\<rparr>)
      (?by (ll_ch l))) (lp_lanes p) = map ?spec (lp_lanes p)"
    by (rule map_filter_map_opt) (use assms(2) in \<open>fastforce simp: path_of_def\<close>)
  moreover have "lp_lanes (logic_panel_new (lp_title p)) = []"
    "(logic_panel_new (lp_title p))\<lparr>lp_lanes := lp_lanes p\<rparr> = p" by (simp_all add: logic_panel_new_def)
  ultimately show ?thesis
    using add_lane_specs[OF assms(1), of "logic_panel_new (lp_title p)" "lp_lanes p" "as_report s"] assms(2)
    by simp
qed

lemma xy_roundtrip:
  assumes "channels_ok channels" "saveable channels (PK_XY p)"
  shows "apply_spec (paths_of channels) channels (spec_from_kind (ids_of channels) (PK_XY p)) s
      = insert_plot (PK_XY p) (as_report s) s"
proof -
  obtain i j where ij: "ids_of channels (xy_x p) = Some i" "is_scalar_kind (ci_kind i)"
    "ids_of channels (xy_y p) = Some j" "is_scalar_kind (ci_kind j)" using assms(2) by auto
  then have "ci_id i = xy_x p" "ci_id j = xy_y p" using assms(1) by (simp_all add: ids_of_Some)
  moreover have "\<lparr>xy_title = xy_title p, xy_x = xy_x p, xy_y = xy_y p, xy_trail_ns = xy_trail_ns p\<rparr> = p" by simp
  ultimately show ?thesis
    using ij path_back[OF assms(1) ij(1)] path_back[OF assms(1) ij(3)] by (simp only: path_of_def spec_from_kind.simps
        apply_spec.simps option.map option.sel unwrap_or.simps Let_def prod.case option.case simp_thms if_True)
qed

lemma position_distinct: "distinct xs \<Longrightarrow> i < length xs \<Longrightarrow> position (\<lambda>c. c = xs ! i) xs = Some i"
proof (induction xs arbitrary: i)
  case (Cons x xs)
  then show ?case by (cases i) auto
qed simp

lemma log_view_roundtrip:
  assumes "channels_ok channels" "saveable channels (PK_LogView p)"
  shows "\<exists>k'. apply_spec (paths_of channels) channels (spec_from_kind (ids_of channels) (PK_LogView p)) s
      = insert_plot k' (as_report s) s \<and> same_plot (PK_LogView p) k'"
proof -
  let ?by = "ids_of channels" and ?bp = "paths_of channels" and ?cols = "lv_columns p"
  have v: "hm_ok (lv_filters p)" "?cols = map ci_id (filter (in_group (lv_group p)) channels)"
    "\<forall>i\<in>set (lv_visible p). i < length ?cols" "lv_visible p = [] \<longrightarrow> ?cols = []"
    "fst ` set (lv_filters p) \<subseteq> set ?cols" "\<forall>f\<in>snd ` set (lv_filters p). enum_finite f"
    "set_option (lv_color_by p) \<subseteq> set ?cols" "set_option (lv_priority_by p) \<subseteq> set ?cols" "1 \<le> lv_max_rows p"
    using assms(2) unfolding saveable.simps by blast+
  have dist: "distinct ?cols" using assms(1) v(2) by (simp add: channels_ok_def distinct_map_filter)
  have live: "\<exists>i. ?by c = Some i \<and> ?bp (ci_path i) = Some i \<and> ci_id i = c \<and> path_of ?by c = Some (ci_path i)"
    if c: "c \<in> set ?cols" for c
  proof -
    obtain i where i: "i \<in> set channels" "ci_id i = c" using c v(2) by auto
    then have "?by c = Some i" using ids_of_Some[OF assms(1)] by blast
    then show ?thesis using i path_back[OF assms(1)] by (auto simp: path_of_def)
  qed
  define cp where "cp c = the (path_of ?by c)" for c
  define resolve where "resolve path = Option.bind (Option.bind path (\<lambda>p. map_option ci_id (?bp p)))
      (\<lambda>c. if c \<in> set ?cols then Some c else None)" for path
  have res: "resolve (Option.bind x (path_of ?by)) = x" if "set_option x \<subseteq> set ?cols" for x
    using that live by (cases x) (fastforce simp: resolve_def)+
  have g: "List.map_filter (get_at ?cols) (lv_visible p) = map (\<lambda>i. ?cols ! i) (lv_visible p)"
    by (rule map_filter_map_opt) (use v(3) in \<open>simp add: get_at_def\<close>)
  have paths: "List.map_filter (path_of ?by) (map (\<lambda>i. ?cols ! i) (lv_visible p)) = map (\<lambda>i. cp (?cols ! i)) (lv_visible p)"
  proof -
    have "path_of ?by c = Some (cp c)" if "c \<in> set (map (\<lambda>i. ?cols ! i) (lv_visible p))" for c
      using live[of c] that v(3) by (auto simp: cp_def)
    then have "List.map_filter (path_of ?by) (map (\<lambda>i. ?cols ! i) (lv_visible p)) = map cp (map (\<lambda>i. ?cols ! i) (lv_visible p))"
      by (rule map_filter_map_opt)
    then show ?thesis by (simp add: comp_def)
  qed
  have vis: "List.map_filter (\<lambda>path. Option.bind (?bp path) (\<lambda>info. position (\<lambda>c. c = ci_id info) ?cols))
      (map (\<lambda>i. cp (?cols ! i)) (lv_visible p)) = lv_visible p"
  proof -
    have "Option.bind (?bp (cp (?cols ! i))) (\<lambda>info. position (\<lambda>c. c = ci_id info) ?cols) = Some i"
      if "i \<in> set (lv_visible p)" for i
      using live[of "?cols ! i"] v(3) that position_distinct[OF dist, of i] by (auto simp: cp_def)
    then have "List.map_filter (\<lambda>i. Option.bind (?bp (cp (?cols ! i))) (\<lambda>info. position (\<lambda>c. c = ci_id info) ?cols))
        (lv_visible p) = map (\<lambda>i. i) (lv_visible p)" by (intro map_filter_map_opt)
    then show ?thesis by (simp add: map_filter_def filter_map comp_def)
  qed
  define F0 where "F0 = hm_collect (rekey (path_of ?by) from_filter (lv_filters p))"
  define rid where "rid path = Option.bind (?bp path) (\<lambda>i. if ci_id i \<in> set ?cols then Some (ci_id i) else None)" for path
  define F where "F = hm_collect (rekey rid to_filter F0)"
  have fget: "hm_get F c = hm_get (lv_filters p) c" for c
  proof (cases "c \<in> set ?cols")
    case False
    then have "rid path \<noteq> Some c" for path by (auto simp: rid_def bind_eq_Some_conv split: if_splits)
    moreover have "hm_get (lv_filters p) c = None" using False v(5) by (auto simp: map_of_eq_None_iff)
    ultimately show ?thesis using hm_collect_rekey_None[of rid c] by (simp add: F_def)
  next
    case True
    then obtain i where i: "?by c = Some i" "?bp (ci_path i) = Some i" "ci_id i = c" "path_of ?by c = Some (ci_path i)"
      using live by blast
    have "hm_get F c = map_option to_filter (hm_get F0 (ci_path i))"
      unfolding F_def using i True by (intro hm_get_collect_rekey) (auto simp: F0_def rid_def[abs_def] intro: id_of_path_inj[OF assms(1)])
    moreover have "hm_get F0 (ci_path i) = map_option from_filter (hm_get (lv_filters p) c)"
      unfolding F0_def using path_of_inj[OF assms(1)] v(1) i(4) by (rule hm_get_collect_rekey)
    ultimately show ?thesis
      using v(6) by (cases "hm_get (lv_filters p) c") (auto dest!: map_of_SomeD simp: filter_roundtrip)
  qed
  have spec: "spec_from_kind ?by (PK_LogView p) = PS_LogView (lv_title p) (lv_group p)
      (map (\<lambda>i. cp (?cols ! i)) (lv_visible p)) F0 (Option.bind (lv_color_by p) (path_of ?by))
      (Option.bind (lv_priority_by p) (path_of ?by)) (Some (lv_max_rows p))"
    unfolding spec_from_kind.simps g paths F0_def rekey_def path_of_def option.map_comp comp_def by (rule refl)
  have "apply_log_view ?bp channels (lv_title p) (lv_group p) (map (\<lambda>i. cp (?cols ! i)) (lv_visible p)) F0
      (Option.bind (lv_color_by p) (path_of ?by)) (Option.bind (lv_priority_by p) (path_of ?by)) (Some (lv_max_rows p))
      = p\<lparr>lv_filters := F\<rparr>"
  proof -
    let ?f = "\<lambda>(path, spec). Option.bind (?bp path) (\<lambda>info. if ci_id info \<in> set ?cols then Some (ci_id info, to_filter spec) else None)"
    have "?f = (\<lambda>(path, spec). map_option (\<lambda>j. (j, to_filter spec)) (rid path))"
      by (auto simp: rid_def fun_eq_iff split: Option.bind_splits)
    then have F: "hm_collect (List.map_filter ?f F0) = F" by (simp only: F_def rekey_def)
    have vis': "(if map (\<lambda>i. cp (?cols ! i)) (lv_visible p) = [] then [0 ..< length ?cols]
        else List.map_filter (\<lambda>path. Option.bind (?bp path) (\<lambda>info. position (\<lambda>c. c = ci_id info) ?cols))
          (map (\<lambda>i. cp (?cols ! i)) (lv_visible p))) = lv_visible p"
      using vis v(4) by simp
    have m: "max (lv_max_rows p) 1 = lv_max_rows p" using v(9) by simp
    show ?thesis
      unfolding apply_log_view_def Let_def v(2)[symmetric] resolve_def[symmetric] F vis'
        res[OF v(7)] res[OF v(8)] option.case m
      by (simp add: log_view_new_def)
  qed
  then show ?thesis
    using fget spec by (intro exI[of _ "PK_LogView (p\<lparr>lv_filters := F\<rparr>)"]) (simp del: spec_from_kind.simps)
qed

section \<open>All plots\<close>

lemma plot_roundtrip:
  assumes "channels_ok channels" "saveable channels k"
  obtains k' where "apply_spec (paths_of channels) channels (spec_from_kind (ids_of channels) k) s
      = insert_plot k' (as_report s) s" and "same_plot k k'"
proof (cases k)
  case (PK_Scalar p)
  then show thesis using scalar_roundtrip[OF assms(1), of p s] assms(2) that by blast
next
  case (PK_LogicAnalyser p)
  then show thesis using logic_roundtrip[OF assms(1), of p s] assms(2) that[of k] by simp
next
  case (PK_LogView p)
  then show thesis using log_view_roundtrip[OF assms(1), of p s] assms(2) that by blast
next
  case (PK_XY p)
  then show thesis using xy_roundtrip[OF assms(1), of p s] assms(2) that[of k] by simp
qed

lemma plots_roundtrip:
  assumes "channels_ok channels" "\<forall>k\<in>set ks. saveable channels k"
  shows "\<exists>ks'. list_all2 same_plot ks ks' \<and>
    fold (apply_spec (paths_of channels) channels) (map (spec_from_kind (ids_of channels)) ks) s
      = fold (\<lambda>k s. insert_plot k (as_report s) s) ks' s"
  using assms(2)
proof (induction ks arbitrary: s)
  case (Cons k ks)
  obtain k' where k': "apply_spec (paths_of channels) channels (spec_from_kind (ids_of channels) k) s
      = insert_plot k' (as_report s) s" "same_plot k k'"
    by (rule plot_roundtrip[OF assms(1), of k s]) (use Cons.prems in auto)
  obtain ks' where "list_all2 same_plot ks ks'"
    "fold (apply_spec (paths_of channels) channels) (map (spec_from_kind (ids_of channels)) ks) (insert_plot k' (as_report s) s)
      = fold (\<lambda>k s. insert_plot k (as_report s) s) ks' (insert_plot k' (as_report s) s)"
    using Cons by fastforce
  then show ?case using k' by (intro exI[of _ "k' # ks'"]) simp
qed simp

definition apply_start :: apply_state where
  "apply_start = \<lparr>as_registry = registry_new, as_report = report_default, as_new_ids = [], as_companions = []\<rparr>"

lemma of_nat_u64_inj: "a < 2 ^ 64 \<Longrightarrow> b < 2 ^ 64 \<Longrightarrow> (of_nat a :: u64) = of_nat b \<longleftrightarrow> a = b"
proof -
  assume "a < 2 ^ 64" "b < 2 ^ 64"
  then have "unat (of_nat a :: u64) = a" "unat (of_nat b :: u64) = b" by (simp_all add: unat_of_nat)
  then show ?thesis by metis
qed

lemma insert_plots:
  assumes "length ks < 2 ^ 64"
  shows "fold (\<lambda>k s. insert_plot k (as_report s) s) ks apply_start =
    \<lparr>as_registry = \<lparr>pr_plots = zip (map of_nat [0 ..< length ks]) ks, pr_next_id = of_nat (length ks)\<rparr>,
     as_report = report_default, as_new_ids = map (Some \<circ> of_nat) [0 ..< length ks], as_companions = []\<rparr>"
  using assms
proof (induction ks rule: rev_induct)
  case Nil
  then show ?case by (simp add: apply_start_def registry_new_def)
next
  case (snoc k ks)
  have fresh: "(of_nat (length ks) :: u64) \<notin> fst ` set (zip (map of_nat [0 ..< length ks]) ks)"
  proof
    assume "(of_nat (length ks) :: u64) \<in> fst ` set (zip (map of_nat [0 ..< length ks]) ks)"
    then have "(of_nat (length ks) :: u64) \<in> set (map of_nat [0 ..< length ks])"
      by (auto dest: set_zip_leftD)
    then obtain j where j: "j < length ks" "(of_nat (length ks) :: u64) = of_nat j" by auto
    then show False using of_nat_u64_inj[of "length ks" j] snoc.prems by simp
  qed
  have upd: "hm_insert x v m = m @ [(x, v)]" if "x \<notin> fst ` set m" for x :: u64 and v m
    using that by (induction m) auto
  show ?case
    using snoc upd[OF fresh, of k] by (simp add: insert_plot_def registry_insert_def zip_append)
qed

lemma push_unseen_set: "distinct xs \<Longrightarrow> distinct (push_unseen xs ps) \<and> set (push_unseen xs ps) = set xs \<union> set ps"
  by (induction xs ps rule: push_unseen.induct) auto

section \<open>Docks\<close>

text \<open>
  What the code relies on of \<open>egui_dock\<close> and of its serde support: mapping, filtering and building keep
  the tabs in order, and a dock that is serialised reads back. \<open>utabs\<close> are the tabs of a dock of indices.
\<close>

definition dock_laws :: "('d, 'u, 'v) dock_lib \<Rightarrow> ('u \<Rightarrow> usize list) \<Rightarrow> bool" where
  "dock_laws lib utabs \<longleftrightarrow>
     (\<forall>f d. utabs (dl_map_tabs lib f d) = map f (dl_tabs lib d)) \<and>
     (\<forall>p u. utabs (dl_filter_tabs lib p u) = filter p (utabs u)) \<and>
     (\<forall>f u. dl_tabs lib (dl_filter_map_tabs lib f u) = List.map_filter f (utabs u)) \<and>
     (\<forall>u. \<exists>v. dl_to_value lib u = Some v \<and> dl_from_value lib v = Some u)"

definition dock_order :: "('d, 'u, 'v) dock_lib \<Rightarrow> 'd \<Rightarrow> plot_registry \<Rightarrow> plot_id list" where
  "dock_order lib dock plots = push_unseen (push_unseen [] (dl_tabs lib dock)) (registry_iter_ids plots)"

lemma capture_all:
  fixes lib :: "('d, 'u, 'v) dock_lib" and dock :: 'd and plots :: plot_registry
  defines "ord \<equiv> dock_order lib dock plots"
  assumes "distinct ord" and "\<And>pid. pid \<in> set ord \<Longrightarrow> registry_get plots pid \<noteq> None"
  shows "ly_plots (capture_layout lib name plots dock by_id markers) =
      map (\<lambda>pid. spec_from_kind by_id (the (registry_get plots pid))) ord" (is ?plots)
    and "\<exists>idx. (\<forall>i < length ord. idx (ord ! i) = i) \<and>
      ly_dock (capture_layout lib name plots dock by_id markers) = unwrap_or (dl_null lib)
        (dl_to_value lib (dl_filter_tabs lib (\<lambda>i. i \<noteq> USIZE_MAX) (dl_map_tabs lib idx dock)))" (is ?dock)
proof -
  have present: "filter (\<lambda>(i, pid). registry_get plots pid \<noteq> None) (zip [0 ..< length ord] ord) = zip [0 ..< length ord] ord"
    using assms(3) by (auto simp: filter_id_conv dest: set_zip_rightD)
  have "List.map_filter (\<lambda>(i, pid). map_option (spec_from_kind by_id) (registry_get plots pid)) (zip [0 ..< length ord] ord)
      = map (\<lambda>(i, pid). spec_from_kind by_id (the (registry_get plots pid))) (zip [0 ..< length ord] ord)"
    by (rule map_filter_map_opt) (use assms(3) in \<open>fastforce dest: set_zip_rightD\<close>)
  also have "\<dots> = map (\<lambda>pid. spec_from_kind by_id (the (registry_get plots pid))) (map snd (zip [0 ..< length ord] ord))"
    unfolding map_map by (rule map_cong) auto
  finally show ?plots
    by (simp add: capture_layout_def Let_def ord_def dock_order_def)
  let ?m = "map (\<lambda>(i, pid). (pid, i)) (zip [0 ..< length ord] ord)"
  let ?idx = "\<lambda>pid. unwrap_or USIZE_MAX (hm_get (hm_collect ?m) pid)"
  have m: "?m = zip ord [0 ..< length ord]" by (simp add: zip_commute[of ord])
  have "?idx (ord ! i) = i" if "i < length ord" for i
  proof -
    have "hm_get (hm_collect ?m) (ord ! i) = Some i"
      using that assms(2) map_of_zip_nth[of ord "[0 ..< length ord]" i]
      by (subst hm_get_collect_unique) (simp_all add: m)
    then show ?thesis unfolding m by (simp only: unwrap_or.simps)
  qed
  then have 1: "\<forall>i < length ord. ?idx (ord ! i) = i" by blast
  have 2: "ly_dock (capture_layout lib name plots dock by_id markers) = unwrap_or (dl_null lib)
        (dl_to_value lib (dl_filter_tabs lib (\<lambda>i. i \<noteq> USIZE_MAX) (dl_map_tabs lib ?idx dock)))"
    unfolding capture_layout_def Let_def dock_order_def[symmetric] ord_def[symmetric] present
    by (simp only: layout.select_convs)
  show ?dock by (rule exI[of _ ?idx]) (rule conjI[OF 1 2])
qed

lemma build_dock_renumbers:
  assumes "dock_laws lib utabs" and "dl_tabs lib dock \<noteq> []" and "set (dl_tabs lib dock) \<subseteq> set ord"
    and "\<forall>i < length ord. idx (ord ! i) = i" and "length ord < 2 ^ 64 - 1"
  shows "dl_tabs lib (build_dock lib (unwrap_or (dl_null lib) (dl_to_value lib
      (dl_filter_tabs lib (\<lambda>i. i \<noteq> USIZE_MAX) (dl_map_tabs lib idx dock)))) (map (Some \<circ> of_nat) [0 ..< length ord]))
    = map (\<lambda>pid. of_nat (idx pid)) (dl_tabs lib dock)"
proof -
  let ?u = "dl_filter_tabs lib (\<lambda>i. i \<noteq> USIZE_MAX) (dl_map_tabs lib idx dock)"
  have small: "idx pid < length ord" if "pid \<in> set (dl_tabs lib dock)" for pid
    using that assms(3,4) by (metis in_set_conv_nth subsetD)
  then have u: "utabs ?u = map idx (dl_tabs lib dock)"
    using assms(1,5) by (force simp: dock_laws_def filter_id_conv USIZE_MAX_def)
  obtain v where v: "dl_to_value lib ?u = Some v" "dl_from_value lib v = Some ?u"
    using assms(1) unfolding dock_laws_def by blast
  let ?f = "\<lambda>i. Option.bind (get_at (map (Some \<circ> of_nat) [0 ..< length ord]) i) (\<lambda>x. x)"
  have "dl_tabs lib (dl_filter_map_tabs lib ?f ?u) = List.map_filter ?f (map idx (dl_tabs lib dock))"
    using assms(1) u by (simp add: dock_laws_def)
  also have "\<dots> = map of_nat (map idx (dl_tabs lib dock))"
    by (rule map_filter_map_opt) (use small in \<open>auto simp: get_at_def\<close>)
  finally have t: "dl_tabs lib (dl_filter_map_tabs lib ?f ?u) = map (\<lambda>pid. of_nat (idx pid)) (dl_tabs lib dock)"
    by (simp add: comp_def)
  then have "dl_tabs lib (dl_filter_map_tabs lib ?f ?u) \<noteq> []" using assms(2) by simp
  with t show ?thesis unfolding build_dock_def v(1) unwrap_or.simps v(2) option.case Let_def by simp
qed


text \<open>A dock with one leaf, its serialised form the list of its tabs.\<close>

definition one_leaf :: "(plot_id list, usize list, usize list) dock_lib" where
  "one_leaf = \<lparr>dl_new = (\<lambda>ids. ids), dl_tabs = (\<lambda>d. d), dl_map_tabs = map, dl_filter_tabs = filter,
     dl_filter_map_tabs = List.map_filter, dl_leaves = (\<lambda>d. [d]), dl_push_leaf = (\<lambda>_ x d. d @ [x]),
     dl_push_focused = (\<lambda>x d. d @ [x]), dl_to_value = Some, dl_from_value = Some, dl_null = []\<rparr>"

definition layout_channels_ex :: "channel_info list" where
  "layout_channels_ex = [speed_info, \<lparr>ci_id = 8, ci_path = ''imu.mode'', ci_kind = CK_State [''idle'', ''run''],
     ci_integer_storage = True\<rparr>]"

definition layout_plots_ex :: plot_registry where
  "layout_plots_ex = \<lparr>pr_plots =
     [(3, PK_Scalar \<lparr>sp_title = ''a'', sp_channels = [7], sp_styles = [(7, signal_style_default)], sp_selected_signals = {7}\<rparr>),
      (5, PK_LogicAnalyser \<lparr>lp_title = ''b'', lp_lanes = [\<lparr>ll_ch = 8, ll_mode = Named, ll_radix = Hex\<rparr>,
         \<lparr>ll_ch = 7, ll_mode = Numeric, ll_radix = Dec\<rparr>]\<rparr>)], pr_next_id = 6\<rparr>"


section \<open>Slugs\<close>

text \<open>The characters a slug consists of.\<close>

definition slug_char :: "char \<Rightarrow> bool" where
  "slug_char b \<longleftrightarrow> (is_ascii_alphanumeric b \<and> \<not> is_ascii_upper b) \<or> b = CHR ''_'' \<or> b = CHR ''-''"

lemma to_ascii_lower_alnum: "is_ascii_alphanumeric b \<Longrightarrow> is_ascii_alphanumeric (to_ascii_lower b)"
  by (auto simp: is_ascii_alphanumeric_def to_ascii_lower_def is_ascii_upper_def Let_def)

lemma slug_ok_iff: "slug_ok c \<longleftrightarrow> (\<exists>b. c = [b] \<and> (is_ascii_alphanumeric b \<or> b = CHR ''_'' \<or> b = CHR ''-''))"
  by (auto simp: slug_ok_def split: list.splits)

lemma dash_lower: "to_ascii_lower CHR ''_'' = CHR ''_''" "to_ascii_lower CHR ''-'' = CHR ''-''"
  by (simp_all add: to_ascii_lower_def is_ascii_upper_def)

lemma slug_loop_chars: "b \<in> set (slug_loop cs d) \<Longrightarrow> slug_char b"
proof (induction cs arbitrary: d)
  case (Cons c cs)
  show ?case
  proof (cases "slug_ok c")
    case True
    then obtain x where x: "c = [x]" "is_ascii_alphanumeric x \<or> x = CHR ''_'' \<or> x = CHR ''-''"
      by (auto simp: slug_ok_iff)
    then have "slug_char (to_ascii_lower x)"
      using to_ascii_lower_alnum[of x] to_ascii_lower_not_upper[of x] by (auto simp: slug_char_def dash_lower)
    then show ?thesis using Cons True x by (auto simp: to_ascii_lowercase_def)
  next
    case False
    then show ?thesis using Cons by (auto simp: slug_char_def split: if_splits)
  qed
qed simp

lemma slug_char_ascii: "slug_char b \<Longrightarrow> of_char b < (128 :: nat)"
  by (auto simp: slug_char_def is_ascii_alphanumeric_def Let_def)

lemma str_chars_ascii: "(\<And>b. b \<in> set s \<Longrightarrow> of_char b < (128 :: nat)) \<Longrightarrow> str_chars s = map (\<lambda>b. [b]) s"
proof (induction s)
  case Nil
  then show ?case by (simp add: str_chars_def bytes_of_str_def chars.simps)
next
  case (Cons b s)
  have "unat (of_nat (of_char b) :: u8) = of_char b" by (simp add: unat_of_nat of_char_less)
  then have "utf8_head (bytes_of_str (b # s)) = (True, 1)"
    using Cons.prems[of b] by (simp add: bytes_of_str_def utf8_width_def)
  moreover have "bytes_of_str (b # s) = of_nat (of_char b) # bytes_of_str s" by (simp add: bytes_of_str_def)
  ultimately have "chars (bytes_of_str (b # s)) = [of_nat (of_char b)] # chars (bytes_of_str s)"
    by (subst chars.simps) (simp add: Let_def)
  then show ?case using Cons
    by (simp add: str_chars_def str_of_bytes_def unat_of_nat of_char_less)
qed

lemma slug_loop_id:
  "(\<And>b. b \<in> set s \<Longrightarrow> slug_char b) \<Longrightarrow> slug_loop (map (\<lambda>b. [b]) s) d = s"
proof (induction s arbitrary: d)
  case (Cons b s)
  have "slug_char b" using Cons.prems by simp
  then have "slug_ok [b]" "to_ascii_lowercase [b] = [b]"
    by (auto simp: slug_ok_iff slug_char_def to_ascii_lowercase_def to_ascii_lower_id dash_lower)
  then show ?case using Cons by simp
qed simp

lemma dropWhile_id: "s = [] \<or> \<not> p (hd s) \<Longrightarrow> dropWhile p s = s"
  by (cases s) auto

lemma trim_matches_props:
  fixes s :: string and c :: char
  defines "t \<equiv> trim_matches c s"
  shows "set t \<subseteq> set s" and "t \<noteq> [] \<Longrightarrow> hd t \<noteq> c \<and> last t \<noteq> c"
proof -
  let ?a = "dropWhile (\<lambda>x. x = c) s"
  have t: "t = rev (dropWhile (\<lambda>x. x = c) (rev ?a))" by (simp add: t_def trim_matches_def)
  show "set t \<subseteq> set s" unfolding t by (auto dest!: set_dropWhileD)
  assume ne: "t \<noteq> []"
  have l: "last t \<noteq> c" using ne hd_dropWhile[of "\<lambda>x. x = c" "rev ?a"] unfolding t by (simp add: last_rev)
  have pf: "prefix t ?a" unfolding t using suffix_dropWhile[of "\<lambda>x. x = c" "rev ?a"] by (simp add: suffix_to_prefix)
  then have "hd t = hd ?a" using ne by (auto simp: prefix_def)
  moreover have "?a \<noteq> []" using pf ne by (metis prefix_Nil)
  ultimately show "hd t \<noteq> c \<and> last t \<noteq> c" using l hd_dropWhile[of "\<lambda>x. x = c" s] by simp
qed

text \<open>
  File names of layouts: a slug is never empty, uses lower-case letters, digits, underscores and
  dashes only (so it names a file inside the layout directory), neither starts nor ends with a dash,
  and is its own slug.
\<close>

theorem slug_filename:
  "slug name \<noteq> [] \<and> list_all slug_char (slug name) \<and> hd (slug name) \<noteq> CHR ''-'' \<and> last (slug name) \<noteq> CHR ''-''
    \<and> slug (slug name) = slug name"
proof -
  let ?t = "trim_matches CHR ''-'' (slug_loop (str_chars name) False)"
  have p: "slug name \<noteq> [] \<and> (\<forall>b\<in>set (slug name). slug_char b) \<and> hd (slug name) \<noteq> CHR ''-'' \<and> last (slug name) \<noteq> CHR ''-''"
  proof (cases "?t = []")
    case True
    then have "slug name = ''untitled''" by (simp add: slug_def)
    then show ?thesis by (simp add: slug_char_def is_ascii_alphanumeric_def is_ascii_upper_def)
  next
    case False
    then have "slug name = ?t" by (simp add: slug_def)
    moreover have "\<forall>b\<in>set ?t. slug_char b"
      using trim_matches_props(1)[of "CHR ''-''" "slug_loop (str_chars name) False"] slug_loop_chars by blast
    ultimately show ?thesis using False trim_matches_props(2)[OF False] by simp
  qed
  have "slug_loop (str_chars (slug name)) False = slug name"
    using p slug_char_ascii by (simp add: str_chars_ascii slug_loop_id)
  moreover have "trim_matches CHR ''-'' (slug name) = slug name"
    using p by (simp add: trim_matches_def dropWhile_id hd_rev)
  ultimately have "slug (slug name) = slug name" using p by (simp add: slug_def[of "slug name"])
  then show ?thesis using p by (simp add: list_all_iff)
qed

section \<open>Saving, loading, migrating\<close>

text \<open>A saved layout of the current version is loaded back under its name, and no layout of another slug changes.\<close>

lemma save_then_load:
  assumes "save_layout writable to_vec config layout fs = Ok fs'" and "to_vec layout = Some b" "from_slice b = Some layout"
    and "ly_version layout = SCHEMA_VERSION"
  shows "load_layout hash_order from_slice config fs' (ly_name layout) = Ok layout"
    and "slug name \<noteq> slug (ly_name layout) \<Longrightarrow>
      load_layout hash_order from_slice config fs' name = load_layout hash_order from_slice config fs name"
  using assms
  by (auto simp: save_layout_def load_layout_def path_for_def version_supported_def SCHEMA_VERSION_def MIN_VERSION_def
      split: if_splits)

lemma windows2_simps [simp]:
  "windows2 [] = []" "windows2 [x] = []" "windows2 (x # y # zs) = (x, y) # windows2 (y # zs)"
  by (simp_all add: windows2_def)

lemma windows2_snoc: "windows2 (xs @ [y]) = windows2 xs @ (if xs = [] then [] else [(last xs, y)])"
  by (induction xs rule: induct_list012) simp_all

lemma last_filter_upt:
  assumes "filter P [0 ..< n] \<noteq> []"
  shows "last (filter P [0 ..< n]) < n \<and> P (last (filter P [0 ..< n])) \<and> (\<forall>k. last (filter P [0 ..< n]) < k \<and> k < n \<longrightarrow> \<not> P k)"
  using assms
proof (induction n)
  case (Suc n)
  show ?case
  proof (cases "P n")
    case False
    then have e: "filter P [0 ..< Suc n] = filter P [0 ..< n]" by simp
    then have "filter P [0 ..< n] \<noteq> []" using Suc.prems by simp
    from Suc.IH[OF this] show ?thesis unfolding e using False less_Suc_eq by blast
  qed (auto simp: less_Suc_eq_le)
qed simp

text \<open>\<open>j\<close> is the next index after \<open>i\<close> at which the predicate holds.\<close>

definition next_in :: "(nat \<Rightarrow> bool) \<Rightarrow> nat \<Rightarrow> nat \<Rightarrow> bool" where
  "next_in P i j \<longleftrightarrow> i < j \<and> P i \<and> P j \<and> (\<forall>k. i < k \<and> k < j \<longrightarrow> \<not> P k)"

lemma next_in_last:
  assumes "P n"
  shows "next_in P i n \<longleftrightarrow> filter P [0 ..< n] \<noteq> [] \<and> i = last (filter P [0 ..< n])"
proof (cases "filter P [0 ..< n] = []")
  case True
  then show ?thesis by (auto simp: filter_empty_conv next_in_def)
next
  case False
  note l = last_filter_upt[OF False]
  have "i = last (filter P [0 ..< n])" if h: "next_in P i n"
  proof (rule ccontr)
    assume "i \<noteq> last (filter P [0 ..< n])"
    then consider "i < last (filter P [0 ..< n])" | "last (filter P [0 ..< n]) < i" by linarith
    then show False using h l unfolding next_in_def by cases blast+
  qed
  moreover have "next_in P (last (filter P [0 ..< n])) n"
    unfolding next_in_def using l assms by blast
  ultimately show ?thesis using False by blast
qed

lemma set_windows2_upt: "set (windows2 (filter P [0 ..< n])) = {(i, j). next_in P i j \<and> j < n}"
proof (induction n)
  case (Suc n)
  show ?case
  proof (cases "P n")
    case False
    then have "\<not> next_in P i n" for i by (simp add: next_in_def)
    then show ?thesis using Suc False by (auto simp: less_Suc_eq)
  next
    case True
    then have "set (windows2 (filter P [0 ..< Suc n])) = {(i, j). next_in P i j \<and> j < n} \<union> {(i, j). next_in P i n \<and> j = n}"
      using Suc next_in_last[of P n] by (auto simp: windows2_snoc)
    then show ?thesis by (auto simp: less_Suc_eq)
  qed
qed simp

lemma chains_of_snoc:
  "chains_of (ms @ [m]) = (case mks_chain m of None \<Rightarrow> chains_of ms
     | Some cid \<Rightarrow> hm_insert cid (unwrap_or [] (hm_get (chains_of ms) cid) @ [length ms]) (chains_of ms))"
  by (simp add: chains_of_def split: option.splits)

lemma chains_of_get:
  "hm_ok (chains_of ms) \<and> hm_get (chains_of ms) c =
     (let js = filter (\<lambda>i. mks_chain (ms ! i) = Some c) [0 ..< length ms] in if js = [] then None else Some js)"
proof (induction ms rule: rev_induct)
  case Nil
  then show ?case by (simp add: chains_of_def)
next
  case (snoc m ms)
  have f: "filter (\<lambda>i. mks_chain ((ms @ [m]) ! i) = Some c) [0 ..< length ms]
      = filter (\<lambda>i. mks_chain (ms ! i) = Some c) [0 ..< length ms]"
    by (rule filter_cong) (auto simp: nth_append)
  show ?case using snoc f by (cases "mks_chain m") (auto simp: chains_of_snoc Let_def)
qed

text \<open>
  Migrating a version 4 layout links each marker of a chain to the next marker of the same chain, and
  creates no other link, whatever order the hash map of the chains is visited in.
\<close>

theorem chains_migrate:
  assumes "\<And>m. set (hash_order m) = set m"
  shows "(\<lambda>l. (lks_a_index l, lks_b_index l)) ` set (migrate_chains_to_links hash_order ms) =
    {(i, j). j < length ms \<and> (\<exists>c. next_in (\<lambda>k. mks_chain (ms ! k) = Some c) i j)}"
proof -
  define js where "js c = filter (\<lambda>i. mks_chain (ms ! i) = Some c) [0 ..< length ms]" for c
  have entry: "(c, is) \<in> set (chains_of ms) \<longleftrightarrow> is = js c \<and> js c \<noteq> []" for c "is"
    using chains_of_get[of ms c] map_of_eq_Some_iff[of "chains_of ms" c "is"]
    by (auto simp: Let_def js_def split: if_splits)
  have sorted: "sort (js c) = js c" for c
    by (simp add: js_def sorted_sort_id sorted_filter[where f = "\<lambda>x. x", simplified])
  have "(\<lambda>l. (lks_a_index l, lks_b_index l)) ` set (migrate_chains_to_links hash_order ms) =
      (\<Union>p\<in>set (chains_of ms). set (windows2 (sort (snd p))))"
    unfolding migrate_chains_to_links_def set_concat set_map assms image_UN image_image
    by (simp add: split_beta image_image)
  also have "\<dots> = (\<Union>c. set (windows2 (js c)))"
  proof (intro equalityI subsetI)
    fix x assume "x \<in> (\<Union>p\<in>set (chains_of ms). set (windows2 (sort (snd p))))"
    then obtain c "is" where "(c, is) \<in> set (chains_of ms)" "x \<in> set (windows2 (sort is))" by auto
    then have "x \<in> set (windows2 (js c))" using entry[of c "is"] sorted by simp
    then show "x \<in> (\<Union>c. set (windows2 (js c)))" by blast
  next
    fix x assume "x \<in> (\<Union>c. set (windows2 (js c)))"
    then obtain c where c: "x \<in> set (windows2 (js c))" by blast
    then have "js c \<noteq> []" by auto
    then have "(c, js c) \<in> set (chains_of ms)" using entry by blast
    moreover have "x \<in> set (windows2 (sort (snd (c, js c))))" using c sorted by simp
    ultimately show "x \<in> (\<Union>p\<in>set (chains_of ms). set (windows2 (sort (snd p))))" by blast
  qed
  also have "\<dots> = {(i, j). j < length ms \<and> (\<exists>c. next_in (\<lambda>k. mks_chain (ms ! k) = Some c) i j)}"
    unfolding js_def set_windows2_upt by blast
  finally show ?thesis .
qed

definition chain_ex :: "marker_spec list" where
  "chain_ex = map (\<lambda>c. \<lparr>mks_t_ns = 0, mks_label = [], mks_color = (0, 0, 0), mks_chain = Some c\<rparr>) [1, 2, 1]"

theorem chains_migrate_witness:
  "(0, 2) \<in> (\<lambda>l. (lks_a_index l, lks_b_index l)) ` set (migrate_chains_to_links (\<lambda>m. m) chain_ex)"
proof -
  have e: "mks_chain (chain_ex ! 0) = Some 1" "mks_chain (chain_ex ! 2) = Some 1" "mks_chain (chain_ex ! 1) = Some 2"
    "length chain_ex = 3" by code_simp+
  have "mks_chain (chain_ex ! k) \<noteq> Some 1" if k: "0 < k \<and> k < 2" for k
  proof -
    have "k = 1" using k by simp
    then show ?thesis using e(3) by simp
  qed
  then have "next_in (\<lambda>k. mks_chain (chain_ex ! k) = Some 1) 0 2"
    unfolding next_in_def using e(1,2) by (intro conjI allI impI) (assumption | simp)+
  then have "\<exists>c. next_in (\<lambda>k. mks_chain (chain_ex ! k) = Some c) 0 2" by (rule exI)
  moreover have "2 < length chain_ex" using e(4) by simp
  ultimately have "(0, 2) \<in> {(i, j). j < length chain_ex \<and> (\<exists>c. next_in (\<lambda>k. mks_chain (chain_ex ! k) = Some c) i j)}"
    unfolding mem_Collect_eq prod.case by (rule conjI[rotated])
  then show ?thesis using chains_migrate[of "\<lambda>m. m" chain_ex, OF refl] by (rule ssubst[rotated])
qed

end
