(* ===== verification/Replay.thy ===== *)
theory Replay
  imports App Layout_Roundtrip
begin

text \<open>
  Opening a saved capture repeats the session. The revision counter of the store is the only part
  that a reset does not bring back, so the development first shows that registering channels and
  dispatching records commute with a shift of it; then the loop of \<open>load_capture_file\<close> is compared with
  the ingest of the same packets, and the file on disk with the ring it was saved from.
\<close>

section \<open>The revision counter is inert\<close>

definition shift_revision :: "u64 \<Rightarrow> store \<Rightarrow> store" where
  "shift_revision d g = g\<lparr>st_revision := st_revision g + d\<rparr>"

lemma shift_simps [simp]:
  "st_channels (shift_revision d g) = st_channels g" "st_scalars (shift_revision d g) = st_scalars g"
  "st_states (shift_revision d g) = st_states g" "st_texts (shift_revision d g) = st_texts g"
  "st_word_to_bits (shift_revision d g) = st_word_to_bits g"
  by (simp_all add: shift_revision_def)

lemma store_clear_shift: "store_clear g = shift_revision (st_revision g - st_revision h) (store_clear h)"
  by (simp add: store_clear_def shift_revision_def)

lemma add_channel_shift: "add_channel p k i (shift_revision d g) = map_prod id (shift_revision d) (add_channel p k i g)"
  by (simp add: add_channel_def shift_revision_def Let_def)

lemma register_word_bits_shift: "register_word_bits w bs (shift_revision d g) = shift_revision d (register_word_bits w bs g)"
  by (simp add: register_word_bits_def shift_revision_def)

lemma store_step_shift: "store_step op (shift_revision d g) = shift_revision d (store_step op g)"
  by (cases op)
    (simp_all add: add_defs push_defs register_word_bits_def store_clear_def shift_revision_def)

lemma fold_step_shift: "fold store_step ops (shift_revision d g) = shift_revision d (fold store_step ops g)"
  by (induction ops arbitrary: g) (simp_all add: store_step_shift)

fun outcome_map :: "('a \<Rightarrow> 'b) \<Rightarrow> ('a, 'e) outcome \<Rightarrow> ('b, 'e) outcome" where
  "outcome_map f (Ok x) = Ok (f x)"
| "outcome_map f (Err e) = Err e"
| "outcome_map f Panic = Panic"

lemma dispatch_shift:
  "dispatch chk m i t pl (shift_revision d g) = outcome_map (shift_revision d) (dispatch chk m i t pl g)"
  by (cases "record_ops chk m i t pl") (simp_all add: dispatch_ops fold_step_shift)

lemma dispatch_entries_shift:
  "dispatch_entries chk m es (shift_revision d g) = outcome_map (shift_revision d) (dispatch_entries chk m es g)"
  unfolding dispatch_entries_def
proof (induction es arbitrary: g)
  case (Cons e es)
  then show ?case
    by (cases "dispatch chk m (de_id e) (de_timestamp e) (de_payload e) g") (simp_all add: dispatch_shift)
qed simp

subsection \<open>Registration\<close>

lemmas add_shift = add_scalar_int_def add_scalar_def add_scalar_with_def add_state_def add_text_def add_channel_shift

lemma add_numeric_shift: "add_numeric ty p (shift_revision d g) = map_prod id (shift_revision d) (add_numeric ty p g)"
  by (simp add: add_numeric_def add_shift)

lemma add_each_shift:
  assumes "\<And>p g. add p (shift_revision d g) = map_prod id (shift_revision d) (add p g)"
  shows "add_each add ps (shift_revision d g) = map_prod id (shift_revision d) (add_each add ps g)"
proof (induction ps arbitrary: g)
  case (Cons p ps)
  then show ?case by (simp add: assms split_beta Let_def map_prod_def)
qed simp

lemma build_numeric_shift: "build_numeric i f s (shift_revision d g) = map_prod id (shift_revision d) (build_numeric i f s g)"
  by (simp add: build_numeric_def add_numeric_shift add_each_shift[where add = "add_numeric (fd_ty f)", OF add_numeric_shift] split_beta map_prod_def Let_def)

lemma build_bitfield_shift:
  "build_bitfield i f bf s (shift_revision d g) = map_prod id (shift_revision d) (build_bitfield i f bf s g)"
proof -
  have a: "add_scalar_int p (shift_revision d g) = map_prod id (shift_revision d) (add_scalar_int p g)" for p g
    by (simp add: add_shift)
  show ?thesis
    by (simp add: build_bitfield_def a add_each_shift[where add = add_scalar_int, OF a] split_beta map_prod_def Let_def register_word_bits_shift)
qed

lemma build_field_shift: "build_field i k f s (shift_revision d g) = map_prod id (shift_revision d) (build_field i k f s g)"
  by (auto simp: build_field_def build_numeric_shift build_bitfield_shift add_shift split_beta map_prod_def Let_def
      split: field_type.split option.split)

lemma build_fields_shift:
  "build_fields i k fs s (shift_revision d g) = map_prod id (shift_revision d) (build_fields i k fs s g)"
  by (induction fs arbitrary: k g) (simp_all add: build_field_shift split_beta map_prod_def Let_def)

lemma build_loop_shift: "build_loop es s m (shift_revision d g) = map_prod id (shift_revision d) (build_loop es s m g)"
  by (induction es arbitrary: m g) (simp_all add: build_entry_def build_fields_shift split_beta map_prod_def Let_def)

lemma channel_map_build_shift:
  "channel_map_build s (shift_revision d g) = map_prod id (shift_revision d) (channel_map_build s g)"
  by (simp add: channel_map_build_def build_loop_shift)

section \<open>The clock only sets the epoch\<close>

definition at_epoch :: "nat \<Rightarrow> capture \<Rightarrow> capture" where
  "at_epoch now c = c\<lparr>cp_epoch := Some now\<rparr>"

lemma push_packet_epoch:
  assumes "cp_epoch c \<noteq> None"
  shows "push_packet now' bs (at_epoch e c) = outcome_map (at_epoch e) (push_packet now bs c)"
proof (cases "extract_meta bs")
  case (Ok meta)
  let ?p = "evict_loop (cp_cap_bytes c) (cp_packets c @ [(bs, meta)]) (cp_bytes c + length bs) (cp_packets_dropped c)"
  show ?thesis
    using assms Ok by (cases ?p) (auto simp: push_packet_def start_epoch_def evict_to_fit_def at_epoch_def Let_def)
qed (simp_all add: push_packet_def)

lemma push_packet_keeps:
  assumes "push_packet now bs c = Ok c'"
  shows "cp_schema c' = cp_schema c" and "cp_epoch c' \<noteq> None"
  using assms
  by (auto simp: push_packet_def evict_to_fit_def start_epoch_def Let_def outcome_simps split: if_splits)

section \<open>Replaying packets\<close>

lemma capture_packet_epoch:
  assumes "cp_epoch c \<noteq> None" and "capture_packet now p (Some c) = Some c'"
  shows "(case push_packet now' p (at_epoch e c) of Ok x \<Rightarrow> x | _ \<Rightarrow> at_epoch e c) = at_epoch e c'"
    and "cp_epoch c' \<noteq> None" and "cp_schema c' = cp_schema c"
proof -
  note keeps = push_packet_keeps[of now p c] and ep = push_packet_epoch[OF assms(1), of now' p e now]
  have c': "c' = (case push_packet now p c of Ok x \<Rightarrow> x | _ \<Rightarrow> c)" using assms(2) by (simp add: capture_packet_def)
  show "(case push_packet now' p (at_epoch e c) of Ok x \<Rightarrow> x | _ \<Rightarrow> at_epoch e c) = at_epoch e c'"
    unfolding ep c' by (cases "push_packet now p c") simp_all
  show "cp_epoch c' \<noteq> None" "cp_schema c' = cp_schema c"
    using assms(1) keeps unfolding c' by (cases "push_packet now p c", simp_all only: outcome.case)+
qed

lemma replay_packets:
  assumes "ingest_all chk m now ps (g, Some c) = Ok (g2, Some c2)" and "cp_epoch c \<noteq> None"
  shows "\<exists>n. ofold (replay_packet chk m now') ps (shift_revision d g, at_epoch e c, pkts, entries, skipped)
      = Ok (shift_revision d g2, at_epoch e c2, pkts + of_nat (length ps), n, skipped)
    \<and> cp_schema c2 = cp_schema c"
  using assms
proof (induction ps arbitrary: g c pkts entries)
  case (Cons p ps)
  obtain pk g' where pk: "decode_packet p = Ok pk" "dispatch_entries chk m (pk_entries pk) g = Ok g'"
    "ingest_all chk m now ps (g', capture_packet now p (Some c)) = Ok (g2, Some c2)"
    using ingest_all_ConsD[OF Cons.prems(1)] by blast
  obtain c' where c': "capture_packet now p (Some c) = Some c'" by (simp add: capture_packet_def)
  note ep = capture_packet_epoch[OF Cons.prems(2) c']
  have "replay_packet chk m now' p (shift_revision d g, at_epoch e c, pkts, entries, skipped)
      = Ok (shift_revision d g', at_epoch e c', pkts + 1, entries + of_nat (length (pk_entries pk)), skipped)"
    using pk(1,2) ep(1) by (simp add: replay_packet_def dispatch_entries_shift)
  with Cons.IH[OF pk(3)[unfolded c'] ep(2), of "pkts + 1" "entries + of_nat (length (pk_entries pk))"] ep(3)
  show ?case by (simp add: add.assoc)
qed simp

section \<open>The file and its sidecar\<close>

lemma file_name_suffix: "\<exists>i. file_name path = drop i path"
proof (cases "rsplit_once CHR ''/'' path")
  case None
  then show ?thesis by (intro exI[of _ 0]) (simp add: file_name_def)
qed (auto simp: file_name_def rsplit_once_def split: option.splits)

text \<open>The sidecar never overwrites the capture, whatever the extension.\<close>

lemma layout_sidecar_path_neq: "layout_sidecar_path path \<noteq> path"
proof
  assume eq: "layout_sidecar_path path = path"
  define name where "name = file_name path"
  define k where "k = stem_length name"
  obtain i where i: "name = drop i path" using file_name_suffix name_def by blast
  have "drop (length path - length name) (take (length path - length name + k) path) = take k name"
    by (cases "i \<le> length path") (simp_all add: i take_drop add.commute)
  moreover have "drop (length path - length name) path = name"
    by (cases "i \<le> length path") (simp_all add: i)
  moreover have "k \<le> length name"
    by (auto simp: k_def stem_length_def rsplit_once_def split: option.splits)
  moreover have "length name \<le> length path" by (simp add: i)
  ultimately have n: "name = take k name @ ''.layout.json''"
    using arg_cong[OF eq, of "drop (length path - length name)"]
    by (simp add: layout_sidecar_path_def Let_def flip: name_def k_def)
  have "rsplit_once CHR ''.'' ((take k name @ ''.layout'') @ CHR ''.'' # ''json'') = Some (take k name @ ''.layout'', ''json'')"
    by (rule rsplit_once_last) simp
  then have "rsplit_once CHR ''.'' name = Some (take k name @ ''.layout'', ''json'')" using n by simp
  then have "stem_length name = length (take k name) + 7" by (simp add: stem_length_def)
  then show False using \<open>k \<le> length name\<close> by (simp add: k_def)
qed

lemma save_capture_files:
  assumes "cp_schema (vw_capture v) = Some schema" and "has_data (vw_capture v)"
    and "fs_writable fs (with_btlm_extension path)" "fs_writable fs (layout_sidecar_path (with_btlm_extension path))"
    and "to_vec (snapshot lib (sidecar_name (with_btlm_extension path) v) v) = Some b"
  obtains fs' v' where "do_save_capture lib to_vec (Some path) fs v = Ok (fs', v')"
    and "fs_files fs' (with_btlm_extension path) = Some (write_btlm_inner [] schema (cp_packets (vw_capture v)))"
    and "fs_files fs' (layout_sidecar_path (with_btlm_extension path)) = Some b"
  using assms layout_sidecar_path_neq[of "with_btlm_extension path"]
  by (simp add: do_save_capture_def save_btlm_def write_sidecar_layout_def Let_def fun_upd_other)

lemma snapshot_version [simp]:
  "version_supported (ly_version (snapshot lib name v))" "ly_name (snapshot lib name v) = name"
  by (simp_all add: snapshot_def capture_layout_def Let_def version_supported_def SCHEMA_VERSION_def MIN_VERSION_def)

lemma sidecar_applies:
  assumes "fs_files fs (layout_sidecar_path path) = Some b" and "from_slice b = Some layout"
    and "version_supported (ly_version layout)"
    and "apply_layout lib layout (st_channels (vw_store w)) = (plots, dock, report)"
  obtains w' where "try_apply_sidecar_layout lib from_slice path fs w = (Some (Sidecar_applied (ly_name layout) report), w')"
    and "vw_plots w' = plots" "vw_dock w' = dock" "vw_store w' = vw_store w" "vw_capture w' = vw_capture w"
  using assms by (simp add: try_apply_sidecar_layout_def install_layout_def Let_def)

section \<open>Save, reopen\<close>

text \<open>
  C5. A saved session reopens as it was. Take a viewer whose store and ring were filled from a stream
  (schema, then packets, none evicted yet), save the capture, and open the file in any viewer with a
  ring of the same size: the store holds the same channels and samples (only its revision counter
  differs), the ring the same schema and packets, every packet is counted and none skipped, and the
  workspace is the saved layout applied to the channels of the session. \<open>to_vec\<close> and \<open>from_slice\<close> are the
  JSON serialiser and parser; the parser inverts the serialiser on the saved layout.
\<close>

theorem saved_session_reopens:
  assumes schema: "schema_decode schema = Ok sch" and build: "channel_map_build sch (store_clear g0) = (Ok m, g1)"
    and ingest: "ingest_all chk m now ps (g1, Some (snd (set_schema now schema (capture_clear c0))))
      = Ok (vw_store v, Some (vw_capture v))"
    and kept: "map fst (cp_packets (vw_capture v)) = ps" "ps \<noteq> []"
    and fits: "length schema < 2 ^ 32" "length ps < 2 ^ 32" "10 + length schema + length (concat ps) < 2 ^ 63"
    and disk: "fs_writable fs (with_btlm_extension path)"
      "fs_writable fs (layout_sidecar_path (with_btlm_extension path))"
    and json: "to_vec (snapshot lib (sidecar_name (with_btlm_extension path) v) v) = Some b"
      "from_slice b = Some (snapshot lib (sidecar_name (with_btlm_extension path) v) v)"
    and ring: "cp_cap_bytes (vw_capture w) = cp_cap_bytes c0"
  shows "\<exists>fs' v' w' n d report. do_save_capture lib to_vec (Some path) fs v = Ok (fs', v')
    \<and> load_capture_file chk now' lib from_slice (with_btlm_extension path) fs' w = Ok w'
    \<and> vw_store w' = shift_revision d (vw_store v) \<and> vw_capture w' = at_epoch now' (vw_capture v)
    \<and> apply_layout lib (snapshot lib (sidecar_name (with_btlm_extension path) v) v) (st_channels (vw_store v))
        = (vw_plots w', vw_dock w', report)
    \<and> vw_flash w' = Some (Loaded (of_nat (length ps)) n 0
        (Some (Sidecar_applied (sidecar_name (with_btlm_extension path) v) report)))"
proof -
  let ?path = "with_btlm_extension path"
  let ?snap = "snapshot lib (sidecar_name ?path v) v"
  define c1 where "c1 = snd (set_schema now schema (capture_clear c0))"
  define d where "d = st_revision (vw_store w) - st_revision g0"
  define w0 where "w0 = reset_data (w\<lparr>vw_handle := None\<rparr>)"
  have c1: "cp_epoch c1 \<noteq> None" "cp_schema c1 = Some schema"
    and w0: "snd (set_schema now' schema (vw_capture w0)) = at_epoch now' c1"
      "vw_store w0 = shift_revision d (store_clear g0)"
    using ring store_clear_shift[of "vw_store w" g0]
    by (simp_all add: c1_def w0_def d_def reset_data_def set_schema_def start_epoch_def capture_clear_def at_epoch_def Let_def)
  obtain n where n: "ofold (replay_packet chk m now') ps (shift_revision d g1, at_epoch now' c1, 0, 0, 0)
      = Ok (shift_revision d (vw_store v), at_epoch now' (vw_capture v), of_nat (length ps), n, 0)"
    and sch: "cp_schema (vw_capture v) = Some schema"
    using replay_packets[OF ingest[folded c1_def] c1(1), of now' d now' 0 0 0] c1(2) by auto
  have "has_data (vw_capture v)" using kept by (auto simp: has_data_def)
  then obtain fs' v' where fs': "do_save_capture lib to_vec (Some path) fs v = Ok (fs', v')"
    "fs_files fs' ?path = Some (write_btlm_inner [] schema (cp_packets (vw_capture v)))"
    "fs_files fs' (layout_sidecar_path ?path) = Some b"
    using save_capture_files[where to_vec = to_vec and lib = lib, OF sch _ disk json(1)] by blast
  have "length (cp_packets (vw_capture v)) < 2 ^ 32" using fits(2) kept(1) by (metis length_map)
  moreover have "10 + length schema + packet_bytes (cp_packets (vw_capture v)) < 2 ^ 63"
    using fits(3) kept(1) packet_bytes_concat[of "cp_packets (vw_capture v)"] by simp
  ultimately have rd: "read_btlm ?path fs' = Ok \<lparr>lc_schema = schema, lc_packets = ps\<rparr>"
    using btlm_roundtrip[OF fits(1)] fs'(2) kept(1) by (simp add: read_btlm_def)
  obtain plots dock report where ap: "apply_layout lib ?snap (st_channels (vw_store v)) = (plots, dock, report)"
    by (metis prod_cases3)
  let ?w1 = "w0\<lparr>vw_store := shift_revision d (vw_store v), vw_capture := at_epoch now' (vw_capture v),
    vw_status := Status_loaded (file_name ?path) (of_nat (length ps))\<rparr>"
  have "apply_layout lib ?snap (st_channels (vw_store ?w1)) = (plots, dock, report)" using ap by simp
  from sidecar_applies[where from_slice = from_slice and w = ?w1, OF fs'(3) json(2) snapshot_version(1) this]
  obtain w2 where w2: "try_apply_sidecar_layout lib from_slice ?path fs' ?w1
      = (Some (Sidecar_applied (sidecar_name ?path v) report), w2)"
    "vw_plots w2 = plots" "vw_dock w2 = dock" "vw_store w2 = vw_store ?w1" "vw_capture w2 = vw_capture ?w1"
    unfolding snapshot_version(2) by blast
  have "load_capture_file chk now' lib from_slice ?path fs' w = Ok (flash (Loaded (of_nat (length ps)) n 0
      (Some (Sidecar_applied (sidecar_name ?path v) report))) w2)"
    using rd schema build n w0 w2(1)
    by (simp add: load_capture_file_def Let_def channel_map_build_shift flip: w0_def)
  then show ?thesis using fs'(1) ap w2 by (simp add: flash_def) blast
qed

section \<open>An example\<close>

definition empty_packet :: bytes where
  "empty_packet = replicate 16 0"

lemma empty_packet_decodes: "\<exists>h. decode_packet empty_packet = Ok \<lparr>pk_header = h, pk_entries = []\<rparr>"
proof -
  have w: "wire_packet 0 0 [] = empty_packet"
    by (simp add: empty_packet_def wire_packet_def wire_payload_def word_le_zero flip: replicate_add)
  show ?thesis using decode_wire_packet_raw[of "[]" 0 0] unfolding w by (simp add: packable_def wire_payload_def)
qed

lemma empty_packet_pushed:
  assumes "cp_packets c = []" "cp_bytes c = 0" "16 \<le> cp_cap_bytes c"
  obtains meta c' where "push_packet now empty_packet c = Ok c'" "cp_packets c' = [(empty_packet, meta)]"
proof -
  have "extract_meta empty_packet = Ok \<lparr>pm_ts_min = 0, pm_ts_max = 0, pm_entry_count = 0\<rparr>"
    unfolding empty_packet_def by code_simp
  then have "\<exists>c'. push_packet now empty_packet c = Ok c' \<and>
      cp_packets c' = [(empty_packet, \<lparr>pm_ts_min = 0, pm_ts_max = 0, pm_entry_count = 0\<rparr>)]"
    using assms
    by (simp add: push_packet_def evict_to_fit_def start_epoch_def evict_loop.simps empty_packet_def Let_def)
  then show thesis using that by blast
qed

lemma example_session:
  obtains m g1 c where "channel_map_build wire_schema_ex (store_clear store_new) = (Ok m, g1)"
    and "ingest_all False m 0 [empty_packet]
      (g1, Some (snd (set_schema 0 (enc_schema wire_schema_ex) (capture_clear (capture_new DEFAULT_RING_BYTES))))) = Ok (g1, Some c)"
    and "map fst (cp_packets c) = [empty_packet]"
proof -
  obtain m g1 where b: "channel_map_build wire_schema_ex (store_clear store_new) = (Ok m, g1)"
    by (simp add: channel_map_build_def wire_schema_ex_def split_beta)
  obtain h where h: "decode_packet empty_packet = Ok \<lparr>pk_header = h, pk_entries = []\<rparr>"
    using empty_packet_decodes by blast
  let ?c = "snd (set_schema 0 (enc_schema wire_schema_ex) (capture_clear (capture_new DEFAULT_RING_BYTES)))"
  obtain meta c where c: "push_packet 0 empty_packet ?c = Ok c" "cp_packets c = [(empty_packet, meta)]"
    by (rule empty_packet_pushed[of ?c 0])
      (simp_all add: set_schema_def start_epoch_def capture_clear_def capture_new_def DEFAULT_RING_BYTES_def Let_def)
  have "ingest_all False m 0 [empty_packet] (g1, Some ?c) = Ok (g1, Some c)"
    using h c(1) by (simp add: dispatch_entries_def capture_packet_def)
  with b c(2) show thesis using that by simp
qed

lemma enc_schema_ex_length: "length (enc_schema wire_schema_ex) = 3378"
  by code_simp

theorem saved_session_reopens_witness:
  "\<exists>v fs' v' w'. do_save_capture one_leaf (\<lambda>_. Some []) (Some ''run'') \<lparr>fs_files = Map.empty, fs_writable = \<lambda>_. True\<rparr> v
      = Ok (fs', v')
    \<and> load_capture_file False 7 one_leaf (\<lambda>_. Some (snapshot one_leaf ''run'' v)) ''run.btlm'' fs'
        (viewer_blank one_leaf (\<lambda>_ d. d) \<lparr>ar_addr = [], ar_file = None, ar_layout = None\<rparr>) = Ok w'
    \<and> map fst (cp_packets (vw_capture w')) = [empty_packet]"
proof -
  define w where "w = viewer_blank one_leaf (\<lambda>_ d. d) \<lparr>ar_addr = [], ar_file = None, ar_layout = None\<rparr>"
  have w: "vw_layout_name w = None" "cp_cap_bytes (vw_capture w) = cp_cap_bytes (capture_new DEFAULT_RING_BYTES)"
    by (simp_all add: w_def viewer_blank_def make_default_dock_def split_beta Let_def)
  obtain m g1 c where e: "channel_map_build wire_schema_ex (store_clear store_new) = (Ok m, g1)"
    "ingest_all False m 0 [empty_packet]
      (g1, Some (snd (set_schema 0 (enc_schema wire_schema_ex) (capture_clear (capture_new DEFAULT_RING_BYTES))))) = Ok (g1, Some c)"
    "map fst (cp_packets c) = [empty_packet]"
    by (rule example_session)
  define v where "v = w\<lparr>vw_store := g1, vw_capture := c\<rparr>"
  have v: "vw_store v = g1" "vw_capture v = c" by (simp_all add: v_def)
  have p: "with_btlm_extension ''run'' = ''run.btlm''" "file_name ''run.btlm'' = ''run.btlm''"
    "stem_length ''run.btlm'' = 3" by code_simp+
  have n: "sidecar_name ''run.btlm'' v = ''run''" by (simp add: sidecar_name_def v_def w p)
  have l: "length (enc_schema wire_schema_ex) < 2 ^ 32" "length [empty_packet] < 2 ^ 32"
    "10 + length (enc_schema wire_schema_ex) + length (concat [empty_packet]) < 2 ^ 63"
    using enc_schema_ex_length by (simp_all add: empty_packet_def)
  have "\<exists>fs' v' w'. do_save_capture one_leaf (\<lambda>_. Some []) (Some ''run'') \<lparr>fs_files = Map.empty, fs_writable = \<lambda>_. True\<rparr> v
      = Ok (fs', v')
    \<and> load_capture_file False 7 one_leaf (\<lambda>_. Some (snapshot one_leaf ''run'' v)) ''run.btlm'' fs' w = Ok w'
    \<and> vw_capture w' = at_epoch 7 c"
    using saved_session_reopens[where v = v and path = "''run''" and b = "[]" and to_vec = "\<lambda>_. Some []"
        and from_slice = "\<lambda>_. Some (snapshot one_leaf ''run'' v)" and lib = one_leaf and now' = 7
        and fs = "\<lparr>fs_files = Map.empty, fs_writable = \<lambda>_. True\<rparr>" and w = w, unfolded p v n,
        OF schema_roundtrip_raw[OF wire_schema_ex_ok] e _ l _ _ _ _ w(2)]
    by auto
  then show ?thesis using e(3) unfolding w_def by (intro exI[of _ v]) (auto simp: at_epoch_def)
qed

end
