(* ===== verification/Float32.thy ===== *)
theory Float32
  imports Float64
begin

text \<open>
  The arithmetic of Rust's \<open>f32\<close> (IEEE 754 binary32) that the renderers use for colours and sizes. A
  value is the exact number it denotes, as for \<open>f64\<close>; an operation rounds the exact result once.
\<close>

section \<open>Operations\<close>

text \<open>\<open>n as f32\<close>, and a literal.\<close>

definition f32_of_int :: "int \<Rightarrow> f64" where
  "f32_of_int n = f64_to_f32 (Fin (of_int n))"

definition f32_lit :: "rat \<Rightarrow> f64" where
  "f32_lit x = f64_to_f32 (Fin x)"

fun f32_add :: "f64 \<Rightarrow> f64 \<Rightarrow> f64" where
  "f32_add (Fin x) (Fin y) = f64_to_f32 (Fin (x + y))"
| "f32_add a b = f64_add a b"

definition f32_sub :: "f64 \<Rightarrow> f64 \<Rightarrow> f64" where
  "f32_sub a b = f32_add a (f64_neg b)"

fun f32_mul :: "f64 \<Rightarrow> f64 \<Rightarrow> f64" where
  "f32_mul (Fin x) (Fin y) = f64_to_f32 (Fin (x * y))"
| "f32_mul a b = f64_mul a b"

fun f32_div :: "f64 \<Rightarrow> f64 \<Rightarrow> f64" where
  "f32_div (Fin x) (Fin y) = (if y = 0 then f64_div (Fin x) (Fin y) else f64_to_f32 (Fin (x / y)))"
| "f32_div a b = f64_div a b"

text \<open>\<open>round\<close>: to the nearest integer, halves away from zero.\<close>

fun f32_round_away :: "f64 \<Rightarrow> f64" where
  "f32_round_away (Fin x) = Fin (if 0 \<le> x then of_int \<lfloor>x + 1 / 2\<rfloor> else - of_int \<lfloor>- x + 1 / 2\<rfloor>)"
| "f32_round_away a = a"

section \<open>Rounding\<close>

definition rnd32 :: "rat \<Rightarrow> rat" where
  "rnd32 x = (if x = 0 then 0 else if 0 < x then f32_round_pos x else - f32_round_pos (- x))"

lemma rnd32_0 [simp]: "rnd32 0 = 0"
  by (simp add: rnd32_def)

lemma rnd32_minus: "rnd32 (- x) = - rnd32 x"
  by (simp add: rnd32_def)

lemma rnd32_mono: "x \<le> y \<Longrightarrow> rnd32 x \<le> rnd32 y"
proof -
  assume le: "x \<le> y"
  have p: "0 < z \<Longrightarrow> 0 \<le> f32_round_pos z" for z by (rule binary32.nonneg)
  consider "0 < x" | "y < 0" | "x \<le> 0" "0 \<le> y" by linarith
  then show ?thesis
  proof cases
    case 1
    then show ?thesis using le binary32.mono[of x y] by (simp add: rnd32_def)
  next
    case 2
    then show ?thesis using le binary32.mono[of "- y" "- x"] by (simp add: rnd32_def)
  next
    case 3
    then have "rnd32 x \<le> 0" "0 \<le> rnd32 y" using p[of "- x"] p[of y] by (auto simp: rnd32_def)
    then show ?thesis by simp
  qed
qed

lemma rnd32_int: "\<bar>n\<bar> \<le> 2 ^ 24 \<Longrightarrow> rnd32 (of_int n) = of_int n"
  using binary32.integer[of n] binary32.integer[of "- n"] by (auto simp: rnd32_def)

lemma rnd32_of_int_mono: "m \<le> n \<Longrightarrow> rnd32 (of_int m) \<le> rnd32 (of_int n)"
  by (rule rnd32_mono) simp

lemma rnd32_of_int_nonneg: "0 \<le> n \<Longrightarrow> 0 \<le> rnd32 (of_int n)"
  using rnd32_of_int_mono[of 0 n] by simp

lemma rnd32_between:
  assumes "of_int a \<le> x" and "x \<le> of_int b" and "\<bar>a\<bar> \<le> 2 ^ 24" and "\<bar>b\<bar> \<le> 2 ^ 24"
  shows "of_int a \<le> rnd32 x \<and> rnd32 x \<le> of_int b"
  using rnd32_mono[OF assms(1)] rnd32_mono[OF assms(2)] rnd32_int[OF assms(3)] rnd32_int[OF assms(4)] by simp

text \<open>Up to \<open>2 ^ 64\<close> in size nothing overflows.\<close>

lemma f64_to_f32_Fin:
  assumes "\<bar>x\<bar> \<le> 2 ^ 64"
  shows "f64_to_f32 (Fin x) = Fin (rnd32 x)"
proof -
  have "\<not> 2 powi 128 \<le> f32_round_pos y" if y: "0 < y" "y \<le> 2 ^ 64" for y
  proof -
    have "f32_round_pos y \<le> 2 powi 64" using binary32.mono[of y "2 powi 64"] binary32.powi[of 64] y by simp
    also have "(2::rat) powi 64 < 2 powi 128" by (simp only: powi2_less)
    finally show ?thesis by simp
  qed
  from this[of x] this[of "- x"] show ?thesis using assms
    by (auto simp: rnd32_def simp del: power_int_numeral)
qed

lemma f32_of_int_Fin: "\<bar>n\<bar> \<le> 2 ^ 64 \<Longrightarrow> f32_of_int n = Fin (rnd32 (of_int n))"
proof -
  assume "\<bar>n\<bar> \<le> 2 ^ 64"
  then have "\<bar>of_int n :: rat\<bar> \<le> of_int (2 ^ 64)" by (simp only: of_int_abs[symmetric] of_int_le_iff)
  then show ?thesis unfolding f32_of_int_def by (intro f64_to_f32_Fin) simp
qed

lemma f32_of_int_small: "\<bar>n\<bar> \<le> 2 ^ 24 \<Longrightarrow> f32_of_int n = Fin (of_int n)"
  using f32_of_int_Fin[of n] rnd32_int[of n] by simp

end
