(* ===== verification/Colours.thy ===== *)
theory Colours
  imports Lanes Float32
begin

text \<open>
  The colours of \<open>viewer/crates/btelem-viewer/src/plot_renderers.rs\<close>: the palette, the hash of a channel
  name, the colour of a state, the heat map, and the text colour that goes with a background.

  The colour type belongs to egui. A colour is the call that makes it; what the library knows of it
  (its channels, whether it is the transparent colour) is an argument where the code asks.
\<close>

datatype colour =
    from_rgb u8 u8 u8
  | from_rgba_unmultiplied u8 u8 u8 u8
  | linear_multiply colour f64
  | gamma_multiply colour f64
  | BLACK
  | WHITE
  | TRANSPARENT

record paint_lib =
  pl_rgb :: "colour \<Rightarrow> u8 \<times> u8 \<times> u8"
  pl_is_transparent :: "colour \<Rightarrow> bool"

text \<open>An instance in which only opaque colours have components.\<close>

definition plain_paint :: paint_lib where
  "plain_paint = \<lparr>pl_rgb = (\<lambda>c. case c of from_rgb r g b \<Rightarrow> (r, g, b) | _ \<Rightarrow> (0, 0, 0)), pl_is_transparent = (\<lambda>c. c = TRANSPARENT)\<rparr>"

section \<open>Colours of names and states\<close>

definition PALETTE :: "(u8 \<times> u8 \<times> u8) list" where
  "PALETTE = [(76, 114, 176), (221, 132, 82), (85, 168, 104), (196, 78, 82), (129, 114, 179),
     (147, 120, 96), (218, 139, 195), (140, 140, 140), (204, 185, 116), (100, 182, 205)]"

definition palette :: "usize \<Rightarrow> colour" where
  "palette i = (case PALETTE ! (i mod length PALETTE) of (r, g, b) \<Rightarrow> from_rgb r g b)"

text \<open>FNV-1a over the bytes of the leaf name.\<close>

definition name_seed :: "string \<Rightarrow> usize" where
  "name_seed path =
     unat (fold (\<lambda>b h. (h XOR ucast b) * 1099511628211) (bytes_of_str (strip_group_prefix path))
       (1469598103934665603 :: u64))"

definition palette_for_name :: "string \<Rightarrow> colour" where
  "palette_for_name path = palette (name_seed path mod 10)"

text \<open>\<open>((r as u16 + 96) / 2) as u8\<close>.\<close>

definition soften :: "u8 \<Rightarrow> u8" where
  "soften r = ucast (((ucast r :: u16) + 96) div 2)"

definition state_colour :: "usize \<Rightarrow> u32 \<Rightarrow> colour" where
  "state_colour channel_idx value =
     (let h = of_nat channel_idx * 2654435761 + value * 40503;
          r = ucast (drop_bit 16 h AND 0xff); g = ucast (drop_bit 8 h AND 0xff); b = ucast (h AND 0xff)
      in from_rgb (soften r) (soften g) (soften b))"

definition contrast_text_colour :: "paint_lib \<Rightarrow> colour \<Rightarrow> colour" where
  "contrast_text_colour lib bg =
     (case pl_rgb lib bg of (r, g, b) \<Rightarrow>
        let lum = f32_add (f32_add (f32_mul (f32_lit (299 / 1000)) (f32_of_int (uint r)))
                                   (f32_mul (f32_lit (587 / 1000)) (f32_of_int (uint g))))
                          (f32_mul (f32_lit (114 / 1000)) (f32_of_int (uint b)))
        in if f64_lt (Fin 140) lum then BLACK else WHITE)"

section \<open>The heat map\<close>

definition ANCHORS :: "(u8 \<times> u8 \<times> u8) list" where
  "ANCHORS = [(68, 1, 84), (59, 82, 139), (33, 145, 140), (94, 201, 98), (253, 231, 37)]"

definition lerp :: "f64 \<Rightarrow> u8 \<Rightarrow> u8 \<Rightarrow> u8 run" where
  "lerp f x y =
     (let xf = f32_of_int (uint x); yf = f32_of_int (uint y) in
      obind (f64_clamp (f32_round_away (f32_add xf (f32_mul (f32_sub yf xf) f))) (Fin 0) (Fin 255)) (\<lambda>z.
      Ok (of_int (f64_to_int 0 255 z))))"

definition heatmap_color :: "f64 \<Rightarrow> colour run" where
  "heatmap_color t =
     obind (f64_clamp t (Fin 0) (Fin 1)) (\<lambda>t.
     let n = length ANCHORS - 1; scaled = f32_mul t (f32_of_int (int n));
         i = min (nat (f64_to_int 0 (2 ^ 64 - 1) (f64_floor scaled))) (n - 1);
         f = f32_sub scaled (f32_of_int (int i)) in
     obind (index_at ANCHORS i) (\<lambda>(ar, ag, ab).
     obind (index_at ANCHORS (i + 1)) (\<lambda>(br, bg, bb).
     obind (lerp f ar br) (\<lambda>r. obind (lerp f ag bg) (\<lambda>g. obind (lerp f ab bb) (\<lambda>b.
     Ok (from_rgb r g b)))))))"

section \<open>Names\<close>

text \<open>Channels of different groups with the same leaf have the same colour.\<close>

lemma palette_for_leaf:
  assumes "CHR ''.'' \<notin> set a" and "CHR ''.'' \<notin> set b"
  shows "palette_for_name (a @ ''.'' @ leaf) = palette_for_name (b @ ''.'' @ leaf)"
proof -
  have "strip_group_prefix (g @ ''.'' @ leaf) = leaf" if "CHR ''.'' \<notin> set g" for g
  proof -
    have "position (\<lambda>c. c = CHR ''.'') (g @ CHR ''.'' # leaf) = Some (length g)"
      by (rule position_append_not) (use that in auto)
    then show ?thesis by (simp add: strip_group_prefix_def)
  qed
  then show ?thesis using assms by (simp add: palette_for_name_def name_seed_def)
qed

section \<open>The heat map is total and ordered\<close>

definition lerp_value :: "rat \<Rightarrow> int \<Rightarrow> int \<Rightarrow> int" where
  "lerp_value q x y = \<lfloor>rnd32 (of_int x + rnd32 (of_int (y - x) * q)) + 1 / 2\<rfloor>"

lemma lerp_sum:
  assumes "0 \<le> q" "q \<le> 1" and "0 \<le> x" "x \<le> 255" "0 \<le> y" "y \<le> 255"
  shows "of_int (min x y) \<le> rnd32 (of_int x + rnd32 (of_int (y - x) * q))"
    and "rnd32 (of_int x + rnd32 (of_int (y - x) * q)) \<le> of_int (max x y)"
    and "\<bar>of_int (y - x) * q\<bar> \<le> 255" and "\<bar>of_int x + rnd32 (of_int (y - x) * q)\<bar> \<le> 255"
proof -
  let ?d = "of_int (y - x) :: rat"
  have d: "of_int (min 0 (y - x)) \<le> ?d * q" "?d * q \<le> of_int (max 0 (y - x))"
    using assms(1,2) mult_left_mono[of q 1 ?d] mult_left_mono_neg[of q 1 ?d]
    by (cases "x \<le> y"; simp add: min_def max_def mult_nonneg_nonneg mult_nonpos_nonneg)+
  have r: "of_int (min 0 (y - x)) \<le> rnd32 (?d * q) \<and> rnd32 (?d * q) \<le> of_int (max 0 (y - x))"
    by (rule rnd32_between[OF d]) (use assms(3-6) in auto)
  have s: "of_int (min x y) \<le> of_int x + rnd32 (?d * q)" "of_int x + rnd32 (?d * q) \<le> of_int (max x y)"
    using r by (auto simp: min_def max_def split: if_splits)
  show "of_int (min x y) \<le> rnd32 (of_int x + rnd32 (?d * q))" "rnd32 (of_int x + rnd32 (?d * q)) \<le> of_int (max x y)"
    using rnd32_between[OF s] assms(3-6) by auto
  have "\<bar>y - x\<bar> \<le> 255" using assms(3-6) by linarith
  then have "of_int \<bar>y - x\<bar> \<le> (of_int 255 :: rat)" by (simp only: of_int_le_iff)
  then show "\<bar>?d * q\<bar> \<le> 255" using assms(1,2) mult_mono[of "\<bar>?d\<bar>" 255 q 1] by (simp add: abs_mult)
  have "(of_int (max x y) :: rat) \<le> of_int 255" "(of_int 0 :: rat) \<le> of_int (min x y)"
    using assms(3-6) by (simp_all only: of_int_le_iff)
  then show "\<bar>of_int x + rnd32 (?d * q)\<bar> \<le> 255" using s unfolding abs_le_iff by linarith
qed

lemma lerp_value_eq:
  assumes "0 \<le> q" "q \<le> 1" and "0 \<le> x" "x \<le> 255" "0 \<le> y" "y \<le> 255"
  shows "f32_round_away (f32_add (f32_of_int x) (f32_mul (f32_sub (f32_of_int y) (f32_of_int x)) (Fin q)))
      = Fin (of_int (lerp_value q x y))"
    and "min x y \<le> lerp_value q x y" "lerp_value q x y \<le> max x y"
proof -
  note ls = lerp_sum[OF assms]
  let ?s = "rnd32 (of_int x + rnd32 (of_int (y - x) * q))"
  show "min x y \<le> lerp_value q x y" using ls(1) by (simp add: lerp_value_def le_floor_iff)
  have "?s + 1 / 2 < of_int (max x y + 1)" using ls(2) by simp
  then show "lerp_value q x y \<le> max x y"
    unfolding lerp_value_def by (simp add: floor_less_iff[symmetric] del: of_int_add)
  have "(of_int 0 :: rat) \<le> of_int (min x y)" using assms(3,5) by (simp only: of_int_le_iff)
  then have s0: "0 \<le> ?s" using ls(1) by linarith
  have small: "\<bar>n\<bar> \<le> 255 \<Longrightarrow> f32_of_int n = Fin (of_int n)" for n by (rule f32_of_int_small) simp
  have big: "\<bar>z\<bar> \<le> 255 \<Longrightarrow> f64_to_f32 (Fin z) = Fin (rnd32 z)" for z by (rule f64_to_f32_Fin) simp
  have "f64_to_f32 (Fin (of_int (y - x))) = Fin (of_int (y - x))"
    using small[of "y - x"] assms(3-6) unfolding f32_of_int_def by (simp only: abs_le_iff) linarith
  moreover have i: "f32_of_int x = Fin (of_int x)" "f32_of_int y = Fin (of_int y)" using small assms(3-6) by simp_all
  ultimately have sub: "f32_sub (f32_of_int y) (f32_of_int x) = Fin (of_int (y - x))"
    by (simp only: f32_sub_def f64_neg.simps f32_add.simps of_int_diff add_uminus_conv_diff)
  have "f32_mul (Fin (of_int (y - x))) (Fin q) = Fin (rnd32 (of_int (y - x) * q))"
    by (simp only: f32_mul.simps big[OF ls(3)])
  moreover have "f32_add (Fin (of_int x)) (Fin (rnd32 (of_int (y - x) * q))) = Fin ?s"
    by (simp only: f32_add.simps big[OF ls(4)])
  ultimately show "f32_round_away (f32_add (f32_of_int x) (f32_mul (f32_sub (f32_of_int y) (f32_of_int x)) (Fin q)))
      = Fin (of_int (lerp_value q x y))"
    unfolding sub unfolding i by (simp only: f32_round_away.simps s0 if_True lerp_value_def)
qed

lemma lerp_Fin:
  assumes "0 \<le> q" "q \<le> 1"
  shows "lerp (Fin q) x y = Ok (of_int (lerp_value q (uint x) (uint y)))"
    and "min (uint x) (uint y) \<le> lerp_value q (uint x) (uint y)" "lerp_value q (uint x) (uint y) \<le> max (uint x) (uint y)"
proof -
  have b: "0 \<le> uint w" "uint w \<le> 255" for w :: u8 using uint_lt2p[of w] by simp_all
  note lv = lerp_value_eq[OF assms b b, of x y]
  show "min (uint x) (uint y) \<le> lerp_value q (uint x) (uint y)" "lerp_value q (uint x) (uint y) \<le> max (uint x) (uint y)"
    by (fact lv(2), fact lv(3))
  then have "0 \<le> lerp_value q (uint x) (uint y)" "lerp_value q (uint x) (uint y) \<le> 255"
    using b[of x] b[of y] by linarith+
  then show "lerp (Fin q) x y = Ok (of_int (lerp_value q (uint x) (uint y)))"
    by (simp add: lerp_def lv(1) f64_clamp_def f64_le_def f64_to_int_def trunc_rat_def Let_def not_less)
qed

lemma lerp_value_mono: "x \<le> y \<Longrightarrow> q \<le> q' \<Longrightarrow> lerp_value q x y \<le> lerp_value q' x y"
  unfolding lerp_value_def
  by (intro floor_mono add_right_mono rnd32_mono add_left_mono mult_left_mono) simp_all

lemma lerp_total: "\<exists>z. lerp f x y = Ok z"
  by (simp add: lerp_def f64_clamp_def f64_le_def Let_def)

text \<open>The segment of the gradient and the position in it.\<close>

definition heat_pos :: "rat \<Rightarrow> rat" where
  "heat_pos t = rnd32 (max 0 (min 1 t) * 4)"

definition heat_seg :: "rat \<Rightarrow> nat" where
  "heat_seg t = min (nat \<lfloor>heat_pos t\<rfloor>) 3"

definition heat_frac :: "rat \<Rightarrow> rat" where
  "heat_frac t = rnd32 (heat_pos t - of_nat (heat_seg t))"

lemma heat_pos_range: "0 \<le> heat_pos t" "heat_pos t \<le> 4"
  using rnd32_between[of 0 "max 0 (min 1 t) * 4" 4] by (simp_all add: heat_pos_def)

lemma heat_pos_mono: "t \<le> u \<Longrightarrow> heat_pos t \<le> heat_pos u"
  unfolding heat_pos_def by (intro rnd32_mono mult_right_mono) auto

lemma heat_seg_offset: "0 \<le> heat_pos t - of_nat (heat_seg t)" "heat_pos t - of_nat (heat_seg t) \<le> 1"
proof -
  let ?s = "heat_pos t"
  have n: "(of_nat (nat \<lfloor>?s\<rfloor>) :: rat) = of_int \<lfloor>?s\<rfloor>" using heat_pos_range(1)[of t] by simp
  have f: "of_int \<lfloor>?s\<rfloor> \<le> ?s" "?s < of_int \<lfloor>?s\<rfloor> + 1" by linarith+
  show "0 \<le> ?s - of_nat (heat_seg t)"
    using n f(1) of_nat_mono[of "heat_seg t" "nat \<lfloor>?s\<rfloor>", where 'a = rat] unfolding heat_seg_def by linarith
  show "?s - of_nat (heat_seg t) \<le> 1"
    using n f(2) heat_pos_range(2)[of t] by (cases "nat \<lfloor>?s\<rfloor> \<le> 3") (auto simp: heat_seg_def min_def)
qed

lemma heat_frac_range: "0 \<le> heat_frac t" "heat_frac t \<le> 1"
  using rnd32_between[of 0 "heat_pos t - of_nat (heat_seg t)" 1] heat_seg_offset[of t] by (simp_all add: heat_frac_def)

definition anchor :: "nat \<Rightarrow> u8 \<times> u8 \<times> u8" where
  "anchor i = ANCHORS ! i"

definition heat_channel :: "(u8 \<times> u8 \<times> u8 \<Rightarrow> u8) \<Rightarrow> rat \<Rightarrow> int" where
  "heat_channel c t =
     lerp_value (heat_frac t) (uint (c (anchor (heat_seg t)))) (uint (c (anchor (heat_seg t + 1))))"

abbreviation red_of :: "u8 \<times> u8 \<times> u8 \<Rightarrow> u8" where "red_of c \<equiv> fst c"
abbreviation green_of :: "u8 \<times> u8 \<times> u8 \<Rightarrow> u8" where "green_of c \<equiv> fst (snd c)"
abbreviation blue_of :: "u8 \<times> u8 \<times> u8 \<Rightarrow> u8" where "blue_of c \<equiv> snd (snd c)"

lemma clamp_unit: "f64_clamp (Fin t) (Fin 0) (Fin 1) = Ok (Fin (max 0 (min 1 t)))"
  by (auto simp: f64_clamp_def f64_le_def)

lemma heatmap_Fin:
  "heatmap_color (Fin t) = Ok (from_rgb (of_int (heat_channel red_of t)) (of_int (heat_channel green_of t))
     (of_int (heat_channel blue_of t)))"
proof -
  let ?c = "max 0 (min 1 t)" and ?i = "heat_seg t"
  have i: "?i \<le> 3" by (simp add: heat_seg_def)
  have len: "length ANCHORS = 5" by (simp add: ANCHORS_def)
  have four: "f32_of_int 4 = Fin 4" using f32_of_int_small[of 4] by simp
  have sc: "f32_mul (Fin ?c) (f32_of_int 4) = Fin (heat_pos t)"
    using f64_to_f32_Fin[of "?c * 4"] unfolding four heat_pos_def f32_mul.simps by (simp add: abs_le_iff max_def min_def)
  have n4: "int (length ANCHORS - 1) = 4" by (simp add: len)
  have "f64_to_int 0 (2 ^ 64 - 1) (f64_floor (Fin (heat_pos t))) = \<lfloor>heat_pos t\<rfloor>"
    using heat_pos_range[of t] floor_mono[of "heat_pos t" 4] by (simp add: f64_to_int_def trunc_rat_def)
  then have seg: "min (nat (f64_to_int 0 (2 ^ 64 - 1) (f64_floor (Fin (heat_pos t))))) (length ANCHORS - 1 - 1) = ?i"
    by (simp only: heat_seg_def len)
  have fi: "f32_of_int (int ?i) = Fin (of_nat ?i)" using f32_of_int_small[of "int ?i"] i by simp
  have "f64_to_f32 (Fin (heat_pos t - of_nat ?i)) = Fin (heat_frac t)"
    unfolding heat_frac_def by (rule f64_to_f32_Fin) (use heat_seg_offset[of t] in \<open>simp add: abs_le_iff\<close>)
  then have fr: "f32_sub (Fin (heat_pos t)) (Fin (of_nat ?i)) = Fin (heat_frac t)"
    by (simp only: f32_sub_def f64_neg.simps f32_add.simps add_uminus_conv_diff)
  have a: "index_at ANCHORS ?i = Ok (anchor ?i)" "index_at ANCHORS (?i + 1) = Ok (anchor (?i + 1))"
    using i len by (simp_all add: index_at_def anchor_def)
  show ?thesis
    unfolding heatmap_color_def clamp_unit obind.simps Let_def n4 sc seg fi fr a split_beta lerp_Fin(1)[OF heat_frac_range[of t]]
    by (simp only: heat_channel_def)
qed

lemma heat_channel_between:
  "min (uint (c (anchor (heat_seg t)))) (uint (c (anchor (heat_seg t + 1)))) \<le> heat_channel c t"
  "heat_channel c t \<le> max (uint (c (anchor (heat_seg t)))) (uint (c (anchor (heat_seg t + 1))))"
  using lerp_Fin(2,3)[OF heat_frac_range[of t]] by (simp_all add: heat_channel_def)

lemma heatmap_total: "\<exists>r g b. heatmap_color t = Ok (from_rgb r g b)"
proof (cases t)
  case FNaN
  obtain z where z: "\<And>f x y. lerp f x y = Ok (z f x y)" using lerp_total by metis
  show ?thesis
    by (simp add: FNaN heatmap_color_def f64_clamp_def f64_le_def f64_to_int_def index_at_def ANCHORS_def z f32_of_int_small Let_def)
next
  case (FInf neg)
  then have "heatmap_color t = heatmap_color (Fin (if neg then 0 else 1))"
    by (simp add: heatmap_color_def f64_clamp_def f64_le_def)
  then show ?thesis using heatmap_Fin by auto
qed (use heatmap_Fin in auto)

text \<open>The green component grows along the gradient.\<close>

lemma anchor_green_mono: "i \<le> j \<Longrightarrow> j \<le> 4 \<Longrightarrow> uint (green_of (anchor i)) \<le> uint (green_of (anchor j))"
proof -
  assume ij: "i \<le> j" "j \<le> 4"
  have len: "length ANCHORS = 5" and "sorted (map (uint \<circ> green_of) ANCHORS)" by (simp_all add: ANCHORS_def)
  from sorted_nth_mono[OF this(2) ij(1)] show ?thesis using ij by (simp add: anchor_def len)
qed

lemma heat_green_mono:
  assumes "t \<le> u"
  shows "heat_channel green_of t \<le> heat_channel green_of u"
proof -
  have p: "heat_pos t \<le> heat_pos u" by (rule heat_pos_mono[OF assms])
  then have "heat_seg t \<le> heat_seg u" unfolding heat_seg_def by (intro min.mono nat_mono floor_mono) simp_all
  moreover have "heat_seg u \<le> 3" by (simp add: heat_seg_def)
  ultimately have seg: "heat_seg t \<le> heat_seg u" "heat_seg u \<le> 3" .
  note g = anchor_green_mono
  show ?thesis
  proof (cases "heat_seg t = heat_seg u")
    case True
    then have "heat_frac t \<le> heat_frac u" using p by (simp add: heat_frac_def rnd32_mono)
    then show ?thesis using True seg(2) g[of "heat_seg u" "heat_seg u + 1"]
      by (simp add: heat_channel_def lerp_value_mono)
  next
    case False
    then have "heat_seg t + 1 \<le> heat_seg u" using seg(1) by simp
    then have "uint (green_of (anchor (heat_seg t + 1))) \<le> uint (green_of (anchor (heat_seg u)))" using g seg(2) by simp
    moreover have "uint (green_of (anchor (heat_seg t))) \<le> uint (green_of (anchor (heat_seg t + 1)))"
      "uint (green_of (anchor (heat_seg u))) \<le> uint (green_of (anchor (heat_seg u + 1)))" using g seg by simp_all
    ultimately show ?thesis
      using heat_channel_between(2)[of green_of t] heat_channel_between(1)[of green_of u] by linarith
  qed
qed

end
