(* ===== verification/Drawing.thy ===== *)
theory Drawing
  imports Colours Interact
begin

text \<open>
  What the renderers of \<open>viewer/crates/btelem-viewer/src/plot_renderers.rs\<close> hand to the plotting library, as
  lists of drawing calls in the order in which they are made: signals, markers, link lines, lanes, XY
  curves, and the rows of a log table. Pixel sizes that the window decides are arguments.
\<close>

section \<open>Drawing calls\<close>

datatype text_anchor = CENTER_BOTTOM | LEFT_CENTER | CENTER_CENTER | RIGHT_TOP

text \<open>A bar of height one: centre, width, hover text, fill.\<close>

record bar =
  br_mid :: f64
  br_width :: f64
  br_name :: string
  br_fill :: colour

text \<open>
  A line has points, colour, an optional width, a dash flag and an optional legend name; points have a
  radius, a flag for crosses and an optional legend name; a text has its colour and its background.
\<close>

datatype item =
    Draw_line "(f64 \<times> f64) list" colour "f64 option" bool "string option"
  | Draw_points "(f64 \<times> f64) list" colour f64 bool "string option"
  | Draw_vline f64 colour f64 "string option"
  | Draw_text "f64 \<times> f64" string colour "colour option" text_anchor
  | Draw_bars "bar list"

section \<open>Signals\<close>

definition SCATTER_THRESHOLD :: usize where
  "SCATTER_THRESHOLD = 40"

fun width_px :: "line_width \<Rightarrow> f64" where
  "width_px Thin = Fin 1"
| "width_px Medium = Fin (3 / 2)"
| "width_px Thick = Fin 3"

definition mid_points :: "point3 list \<Rightarrow> (f64 \<times> f64) list" where
  "mid_points ps = map (\<lambda>(t, lo, hi). (t, midpoint lo hi)) ps"

definition draw_envelope :: "signal_data \<Rightarrow> item list" where
  "draw_envelope sig =
     (let envelope = linear_multiply (palette (sd_colour sig)) (f32_lit (6 / 10))
      in [Draw_line (map (\<lambda>(t, lo, _). (t, lo)) (sd_points sig)) envelope None True None,
          Draw_line (map (\<lambda>(t, _, hi). (t, hi)) (sd_points sig)) envelope None True None])"

definition draw_signal :: "signal_data \<Rightarrow> item list" where
  "draw_signal sig =
     (let style = sd_style sig; colour = palette (sd_colour sig); base_w = width_px (ss_width style);
          main_w = (if sd_selected sig then f32_add base_w (Fin (3 / 2)) else base_w);
          mids = (if ss_line style = Step then step_polyline (sd_points sig) else mid_points (sd_points sig));
          scatter = (ss_line style \<in> {Points, PointsLine} \<or> length (sd_points sig) < SCATTER_THRESHOLD)
      in (if ss_envelope style then draw_envelope sig else [])
         @ (if ss_line style \<in> {Line, Step, PointsLine}
            then [Draw_line mids colour (Some main_w) False (Some (sd_name sig))] else [])
         @ (if scatter
            then [Draw_points (mid_points (sd_points sig)) colour (Fin (5 / 2)) False
                    (if ss_line style = Points then Some (sd_name sig) else None)] else []))"

section \<open>Markers and links\<close>

definition rgb_colour :: "u8 \<times> u8 \<times> u8 \<Rightarrow> colour" where
  "rgb_colour = (\<lambda>(r, g, b). from_rgb r g b)"

definition render_markers :: "marker_set \<Rightarrow> item list" where
  "render_markers s =
     map (\<lambda>m. Draw_vline (ns_to_s (mk_t_ns m)) (rgb_colour (mk_color m))
       (if Some (mk_id m) = ms_selected s then Fin 3 else Fin (3 / 2)) (Some (mk_label m))) (ms_markers s)"

text \<open>The highlights come in the order of the hash set.\<close>

definition render_log_highlights :: "u64 list \<Rightarrow> item list" where
  "render_log_highlights highlights =
     map (\<lambda>t. Draw_vline (ns_to_s t) (from_rgba_unmultiplied 100 160 255 120) (Fin (3 / 2)) None) highlights"

text \<open>\<open>{:+.p}\<close>: a sign in front of every number; a NaN has none.\<close>

definition fmt_signed :: "nat \<Rightarrow> f64 \<Rightarrow> string" where
  "fmt_signed p x =
     (let s = fmt_fixed p x in if x = FNaN \<or> (s \<noteq> [] \<and> hd s = CHR ''-'') then s else ''+'' @ s)"

definition delta_sign :: string where
  "delta_sign = str_of_bytes [0xCE, 0x94]"

definition label_bg :: colour where
  "label_bg = from_rgba_unmultiplied 0 0 0 180"

text \<open>The legs of one signal of a link: nothing unless the signal has a value at both ends.\<close>

definition link_leg :: "bool \<Rightarrow> store \<Rightarrow> signal_data list \<Rightarrow> marker \<Rightarrow> marker \<Rightarrow> channel_id \<Rightarrow> item list run" where
  "link_leg chk g signals a b ch =
     (let xa = ns_to_s (mk_t_ns a); xb = ns_to_s (mk_t_ns b); col = rgb_colour (mk_color a);
          sig = find_first (\<lambda>s. sd_ch s = ch) signals;
          sig_col = (case sig of Some s \<Rightarrow> palette (sd_colour s) | None \<Rightarrow> col);
          sig_name = (case sig of Some s \<Rightarrow> short_name (sd_name s) | None \<Rightarrow> ''?'') in
      obind (sample_at chk g ch (mk_t_ns a)) (\<lambda>va.
      case va of
        None \<Rightarrow> Ok []
      | Some va \<Rightarrow>
          obind (sample_at chk g ch (mk_t_ns b)) (\<lambda>vb.
          Ok (case vb of
                None \<Rightarrow> []
              | Some vb \<Rightarrow>
                  [Draw_line [(xb, va), (xb, vb)] sig_col (Some (Fin (3 / 2))) False None,
                   Draw_points [(xa, va), (xb, vb)] sig_col (Fin 6) True None,
                   Draw_text (xb, midpoint va vb)
                     ('' '' @ delta_sign @ sig_name @ ''='' @ fmt_signed 4 (f64_sub vb va))
                     sig_col (Some label_bg) LEFT_CENTER]))))"

definition link_items :: "bool \<Rightarrow> store \<Rightarrow> signal_data list \<Rightarrow> f64 \<Rightarrow> f64 \<Rightarrow> marker \<times> marker \<times> link \<Rightarrow> item list run" where
  "link_items chk g signals ylo yhi = (\<lambda>(a, b, link).
     let xa = ns_to_s (mk_t_ns a); xb = ns_to_s (mk_t_ns b); col = rgb_colour (mk_color a);
         y = f64_add ylo (f64_mul (lk_y_frac link) (f64_sub yhi ylo)) in
     obind (omap (link_leg chk g signals a b) (lk_signals link)) (\<lambda>legs.
     Ok (Draw_line [(xa, y), (xb, y)] col (Some (Fin (3 / 2))) True None
       # Draw_text (midpoint xa xb, y) (delta_sign @ ''t='' @ fmt_signed 4 (f64_sub xb xa) @ ''s'')
           col (Some label_bg) CENTER_BOTTOM
       # concat legs)))"

definition render_link_deltas :: "bool \<Rightarrow> marker_set \<Rightarrow> store \<Rightarrow> signal_data list \<Rightarrow> f64 \<Rightarrow> f64 \<Rightarrow> item list run" where
  "render_link_deltas chk markers g signals ylo yhi =
     obind (omap (link_items chk g signals ylo yhi) (link_pairs markers)) (\<lambda>xs. Ok (concat xs))"

section \<open>Lanes\<close>

definition PX_PER_CHAR :: f64 where
  "PX_PER_CHAR = Fin 7"

text \<open>The part of a run inside the window, in seconds.\<close>

definition run_start :: "u64 \<Rightarrow> u64 \<Rightarrow> f64" where
  "run_start t0 t_start = ns_to_s (max t_start t0)"

definition run_end :: "u64 \<Rightarrow> u64 \<Rightarrow> f64" where
  "run_end t1 t_end = ns_to_s (min t_end t1)"

definition bar_mid :: "f64 \<Rightarrow> f64 \<Rightarrow> f64" where
  "bar_mid s e = f64_div (f64_add s e) (Fin 2)"

definition bar_width :: "f64 \<Rightarrow> f64 \<Rightarrow> f64" where
  "bar_width s e = f64_max (f64_sub e s) (f64_round (1 / 10 ^ 9))"

text \<open>How many characters fit into a bar.\<close>

definition bar_chars :: "f64 \<Rightarrow> usize" where
  "bar_chars bar_px = nat (max (f64_to_i64 (f64_floor (f64_div bar_px PX_PER_CHAR))) 0)"

definition bar_text :: "paint_lib \<Rightarrow> f64 \<Rightarrow> f64 \<Rightarrow> string \<Rightarrow> colour \<Rightarrow> item list" where
  "bar_text lib bar_px mid label fill =
     (let fitted = fit_label label (bar_chars bar_px)
      in if fitted = [] then []
         else [Draw_text (mid, Fin (1 / 2)) fitted (contrast_text_colour lib fill) None CENTER_CENTER])"

text \<open>The calls that follow the bars: name of the lane, and a note when there is nothing to draw.\<close>

definition lane_name :: "string \<Rightarrow> u64 \<times> u64 \<Rightarrow> item" where
  "lane_name path = (\<lambda>(t0, t1).
     let xmin = ns_to_s t0; pad_s = f64_mul (f64_sub (ns_to_s t1) xmin) (f64_round (5 / 1000))
     in Draw_text (f64_add xmin pad_s, Fin (1 / 2)) (strip_group_prefix path)
          (from_rgba_unmultiplied 255 255 255 220) (Some (from_rgba_unmultiplied 0 0 0 160)) LEFT_CENTER)"

definition heatmap_note :: "u64 \<times> u64 \<Rightarrow> item" where
  "heatmap_note = (\<lambda>(t0, t1).
     let xmax = ns_to_s t1; pad_s = f64_mul (f64_sub xmax (ns_to_s t0)) (f64_round (5 / 1000))
     in Draw_text (f64_sub xmax pad_s, f64_round (92 / 100)) ''[heatmap]''
          (from_rgba_unmultiplied 220 220 220 180) (Some (from_rgba_unmultiplied 0 0 0 140)) RIGHT_TOP)"

definition empty_note :: "u64 \<times> u64 \<Rightarrow> item" where
  "empty_note = (\<lambda>(t0, t1).
     Draw_text (midpoint (ns_to_s t0) (ns_to_s t1), Fin (1 / 2)) ''(no samples)''
       (from_rgba_unmultiplied 220 220 220 180) None CENTER_CENTER)"

subsection \<open>State lanes\<close>

text \<open>The position of a value in the range of its channel.\<close>

definition state_frac :: "bool \<Rightarrow> u32 \<times> u32 \<Rightarrow> u32 \<Rightarrow> f64 run" where
  "state_frac chk = (\<lambda>(vmin, vmax) v.
     if vmin < vmax
     then obind (sub_chk chk v vmin) (\<lambda>a. obind (sub_chk chk vmax vmin) (\<lambda>b.
          Ok (f32_div (f32_of_int (uint a)) (f32_of_int (uint b)))))
     else Ok (Fin (1 / 2)))"

definition state_fill :: "bool \<Rightarrow> string \<Rightarrow> state_lane_mode \<Rightarrow> u32 \<times> u32 \<Rightarrow> u32 \<Rightarrow> colour run" where
  "state_fill chk path mode rng v =
     (case mode of
        Labels \<Rightarrow> Ok (state_colour (name_seed path) v)
      | Heatmap \<Rightarrow> obind (state_frac chk rng v) heatmap_color)"

definition state_bar :: "bool \<Rightarrow> paint_lib \<Rightarrow> string \<Rightarrow> string list \<Rightarrow> state_lane_mode \<Rightarrow> u32 \<times> u32 \<Rightarrow> u64 \<times> u64
    \<Rightarrow> f64 \<Rightarrow> state_run \<Rightarrow> (bar \<times> item list) run" where
  "state_bar chk lib path labels mode rng = (\<lambda>(t0, t1) px_per_sec r.
     let s = run_start t0 (sr_t_start r); e = run_end t1 (sr_t_end r); mid = bar_mid s e; w = bar_width s e;
         label = state_value_text (sr_value r) labels in
     obind (state_fill chk path mode rng (sr_value r)) (\<lambda>fill.
     Ok (\<lparr>br_mid = mid, br_width = w, br_name = path @ '': '' @ label, br_fill = fill\<rparr>,
         if mode = Labels then bar_text lib (f64_mul w px_per_sec) mid label fill else [])))"

definition state_lane_items :: "bool \<Rightarrow> paint_lib \<Rightarrow> store \<Rightarrow> marker_set \<Rightarrow> channel_id \<Rightarrow> channel_info \<Rightarrow> string list
    \<Rightarrow> u64 \<times> u64 \<Rightarrow> f64 \<Rightarrow> item list run" where
  "state_lane_items chk lib g markers ch info labels win px_per_sec =
     obind (state_lane_runs chk g ch win) (\<lambda>runs.
     let mode = state_lane_style runs in
     obind (state_lane_range chk g ch runs) (\<lambda>rng.
     obind (omap (state_bar chk lib (ci_path info) labels mode rng win px_per_sec) runs) (\<lambda>bs.
     Ok (Draw_bars (map fst bs) # concat (map snd bs) @ [lane_name (ci_path info) win]
         @ (if mode = Heatmap then [heatmap_note win] else [])
         @ (if runs = [] then [empty_note win] else [])
         @ render_markers markers))))"

subsection \<open>Logic lanes\<close>

text \<open>Subtraction of \<open>i64\<close>.\<close>

definition sub_i64 :: "bool \<Rightarrow> int \<Rightarrow> int \<Rightarrow> int run" where
  "sub_i64 chk a b =
     (let d = a - b in
      if I64_MIN \<le> d \<and> d < - I64_MIN then Ok d
      else if chk then Panic else Ok ((d - I64_MIN) mod 2 ^ 64 + I64_MIN))"

definition logic_lane_range :: "bool \<Rightarrow> store \<Rightarrow> channel_id \<Rightarrow> logic_run list \<Rightarrow> (int \<times> int) run" where
  "logic_lane_range chk g ch runs =
     obind (value_bounds chk g ch) (\<lambda>b.
     Ok (case b of
           Some (lo, hi) \<Rightarrow> (f64_to_i64 lo, f64_to_i64 hi)
         | None \<Rightarrow> fold (\<lambda>r (lo, hi). (min lo (gr_value r), max hi (gr_value r))) runs (- I64_MIN - 1, I64_MIN)))"

text \<open>A bar and its label, or nothing when the run does not reach into the window.\<close>

definition logic_bar :: "bool \<Rightarrow> paint_lib \<Rightarrow> string \<Rightarrow> label_radix \<Rightarrow> int \<Rightarrow> f64 \<Rightarrow> u64 \<times> u64 \<Rightarrow> f64 \<Rightarrow> logic_run
    \<Rightarrow> (bar \<times> item list) option run" where
  "logic_bar chk lib path radix vmin spn = (\<lambda>(t0, t1) px_per_sec r.
     let s = run_start t0 (gr_t_start r); e = run_end t1 (gr_t_end r) in
     if f64_le e s then Ok None
     else let mid = bar_mid s e; w = bar_width s e; bar_px = f64_mul w px_per_sec in
       obind (if f64_lt (Fin 0) spn
              then obind (sub_i64 chk (gr_value r) vmin) (\<lambda>d. Ok (f32_div (f32_of_int d) spn))
              else Ok (Fin (1 / 2))) (\<lambda>frac.
       obind (heatmap_color frac) (\<lambda>fill.
       obind (format_logic_value chk (gr_value r) radix) (\<lambda>label.
       Ok (Some (\<lparr>br_mid = mid, br_width = w, br_name = path @ '': '' @ label, br_fill = fill\<rparr>,
                 if f64_le (Fin 20) bar_px then bar_text lib bar_px mid label fill else []))))))"

definition logic_lane_items :: "bool \<Rightarrow> paint_lib \<Rightarrow> store \<Rightarrow> marker_set \<Rightarrow> channel_id \<Rightarrow> string \<Rightarrow> label_radix
    \<Rightarrow> logic_run list \<Rightarrow> u64 \<times> u64 \<Rightarrow> f64 \<Rightarrow> item list run" where
  "logic_lane_items chk lib g markers ch path radix runs win px_per_sec =
     obind (logic_lane_range chk g ch runs) (\<lambda>(vmin, vmax).
     obind (sub_i64 chk vmax vmin) (\<lambda>d.
     let spn = f32_of_int (max d 0) in
     obind (omap (logic_bar chk lib path radix vmin spn win px_per_sec) runs) (\<lambda>bs.
     let bs = List.map_filter (\<lambda>b. b) bs in
     Ok (Draw_bars (map fst bs) # concat (map snd bs) @ [lane_name path win]
         @ (if runs = [] then [empty_note win] else [])
         @ render_markers markers))))"

subsection \<open>Heights\<close>

text \<open>The height of a lane, given the height of the panel and the spacing between widgets.\<close>

definition lane_height :: "f64 \<Rightarrow> f64 \<Rightarrow> usize \<Rightarrow> usize \<Rightarrow> f64 run" where
  "lane_height available spacing lanes group_count =
     (let lane_count = f32_of_int (int lanes);
          divider_budget = f32_mul (f32_of_int (int (group_count - 1))) (f32_add spacing (Fin 1));
          gaps = f32_mul (f64_max (f32_sub lane_count (Fin 1)) (Fin 0)) spacing
      in f64_clamp (f32_div (f32_sub (f32_sub available gaps) divider_budget) lane_count) (Fin 20) (Fin 60))"

definition group_height :: "f64 \<Rightarrow> f64 \<Rightarrow> usize \<Rightarrow> f64" where
  "group_height lane_h spacing lanes =
     (let n = f32_of_int (int lanes)
      in f32_add (f32_mul n lane_h) (f32_mul (f64_max (f32_sub n (Fin 1)) (Fin 0)) spacing))"

section \<open>XY plots\<close>

definition xy_items :: "bool \<Rightarrow> store \<Rightarrow> (channel_id \<rightharpoonup> channel_info) \<Rightarrow> xy_plot \<Rightarrow> u64 \<times> u64 \<Rightarrow> item list run" where
  "xy_items chk g by_id xy win =
     (let name = (\<lambda>ch. unwrap_or ''?'' (map_option ci_path (by_id ch))) in
      obind (xy_points chk g xy win) (\<lambda>points.
      Ok (if points = [] then []
          else [Draw_line points (palette 0) None False (Some (name (xy_x xy) @ '' vs '' @ name (xy_y xy)))])))"

section \<open>Log tables\<close>

text \<open>The line above the rows, and whether it warns that rows are missing.\<close>

definition shown_text :: "usize \<Rightarrow> usize \<Rightarrow> usize \<Rightarrow> string \<times> bool" where
  "shown_text shown matched_count in_window =
     (let truncated = shown < matched_count
      in (''showing '' @ show_nat shown @ '' of '' @ show_nat matched_count @ '' matched (''
            @ show_nat in_window @ '' in window)''
            @ (if truncated then '' '' @ str_of_bytes [0xE2, 0x80, 0x94] @ '' truncated'' else []), truncated))"

text \<open>The widths of text columns and of all others.\<close>

definition COMPACT_W :: f64 where
  "COMPACT_W = Fin 100"

definition text_width :: "f64 \<Rightarrow> log_column list \<Rightarrow> f64" where
  "text_width avail cols =
     (let text_count = f32_of_int (int (length (filter lcol_is_text cols)));
          others = f32_of_int (int (length (filter (\<lambda>c. \<not> lcol_is_text c) cols)));
          compact_total = f32_mul COMPACT_W (f32_add (Fin 1) others)
      in if f64_lt (Fin 0) text_count then f64_max (f32_div (f32_sub avail compact_total) text_count) COMPACT_W
         else COMPACT_W)"

definition row_fill :: "log_view_panel \<Rightarrow> bool \<Rightarrow> log_row \<Rightarrow> colour" where
  "row_fill panel selected row =
     (if selected then from_rgba_unmultiplied 100 160 255 60
      else case Option.bind (lv_color_by panel) (hm_get (lr_cells row)) of
             None \<Rightarrow> TRANSPARENT
           | Some cell \<Rightarrow>
               if lc_display cell = [] then TRANSPARENT
               else gamma_multiply (state_colour (name_seed (lc_display cell)) 0) (f32_lit (25 / 100)))"

text \<open>A row as drawn: time, fill, colour of the text if it is not the default, and the cells with widths.\<close>

record drawn_row =
  dr_time :: string
  dr_fill :: colour
  dr_text :: "colour option"
  dr_cells :: "(string \<times> f64) list"

definition draw_row :: "paint_lib \<Rightarrow> log_view_panel \<Rightarrow> log_column list \<Rightarrow> f64 \<Rightarrow> u64 set \<Rightarrow> log_row \<Rightarrow> drawn_row" where
  "draw_row lib panel cols text_w highlights row =
     (let fill = row_fill panel (lr_t row \<in> highlights) row
      in \<lparr>dr_time = fmt_fixed 6 (ns_to_s (lr_t row)), dr_fill = fill,
          dr_text = (if pl_is_transparent lib fill then None else Some (contrast_text_colour lib fill)),
          dr_cells = map (\<lambda>c. (case hm_get (lr_cells row) (lcol_id c) of Some cell \<Rightarrow> lc_display cell | None \<Rightarrow> [],
                               if lcol_is_text c then text_w else COMPACT_W)) cols\<rparr>)"

text \<open>A header, marked when its filter is active.\<close>

definition header_text :: "log_view_panel \<Rightarrow> log_column \<Rightarrow> string" where
  "header_text panel col =
     lcol_label col @ '' '' @ str_of_bytes [0xE2, 0x8F, 0xB7]
       @ (case hm_get (lv_filters panel) (lcol_id col) of
            Some f \<Rightarrow> if filter_is_active f then ''*'' else []
          | None \<Rightarrow> [])"

section \<open>Heat maps show the order of values\<close>

fun green :: "colour \<Rightarrow> u8" where
  "green (from_rgb r g b) = g"
| "green _ = 0"

lemma heatmap_green_mono:
  assumes "t \<le> u"
  shows "\<exists>c d. heatmap_color (Fin t) = Ok c \<and> heatmap_color (Fin u) = Ok d \<and> green c \<le> green d"
proof -
  have b: "0 \<le> uint w" "uint w < 256" for w :: u8 using uint_lt2p[of w] by simp_all
  have "0 \<le> heat_channel green_of t" "heat_channel green_of u < 256"
    using heat_channel_between[of green_of t] heat_channel_between[of green_of u]
      b[of "green_of (anchor (heat_seg t))"] b[of "green_of (anchor (heat_seg t + 1))"]
      b[of "green_of (anchor (heat_seg u))"] b[of "green_of (anchor (heat_seg u + 1))"] by linarith+
  moreover have "uint (of_int x :: u8) = x" if "0 \<le> x" "x < 256" for x
    using that by (simp add: unsigned_of_int take_bit_int_eq_self)
  ultimately have "(of_int (heat_channel green_of t) :: u8) \<le> of_int (heat_channel green_of u)"
    using heat_green_mono[OF assms] unfolding Word.word_le_def by simp
  then show ?thesis by (simp add: heatmap_Fin)
qed

lemma uint_diff: "a \<le> b \<Longrightarrow> uint (b - a) = uint b - uint a"
  using uint_sub_lem[of a b] by (simp add: Word.word_le_def)

lemma state_frac_Fin:
  assumes "vmin < vmax" "vmin \<le> v" "v \<le> vmax"
  shows "state_frac chk (vmin, vmax) v
    = Ok (Fin (rnd32 (rnd32 (of_int (uint (v - vmin))) / rnd32 (of_int (uint (vmax - vmin))))))"
proof -
  let ?n = "uint (v - vmin)" and ?d = "uint (vmax - vmin)"
  have le: "?n \<le> ?d" "1 \<le> ?d" using assms by (simp_all add: uint_diff Word.word_le_def word_less_def)
  have lt: "?d < 2 ^ 32" using uint_lt2p[of "vmax - vmin"] by simp
  have f: "f32_of_int ?n = Fin (rnd32 (of_int ?n))" "f32_of_int ?d = Fin (rnd32 (of_int ?d))"
    using le lt by (intro f32_of_int_Fin; simp)+
  have one: "1 \<le> rnd32 (of_int ?d)"
    using rnd32_mono[of 1 "of_int ?d"] rnd32_int[of 1] le(2) of_int_le_iff[of 1 ?d, where 'a = rat] by simp
  have n: "0 \<le> rnd32 (of_int ?n)" "rnd32 (of_int ?n) \<le> rnd32 (of_int ?d)"
    by (rule rnd32_of_int_nonneg, simp) (rule rnd32_of_int_mono[OF le(1)])
  have q: "\<bar>rnd32 (of_int ?n) / rnd32 (of_int ?d)\<bar> \<le> 2 ^ 64"
    using n one by (simp add: abs_of_nonneg divide_le_eq)
  have "f32_div (Fin (rnd32 (of_int ?n))) (Fin (rnd32 (of_int ?d))) = Fin (rnd32 (rnd32 (of_int ?n) / rnd32 (of_int ?d)))"
    using one f64_to_f32_Fin[OF q] unfolding f32_div.simps by auto
  then show ?thesis
    using assms by (simp only: state_frac_def case_prod_conv if_True sub_chk_Ok order_less_imp_le obind.simps f)
qed

text \<open>Values in the range of the channel do not overflow, and greater ones are drawn greener.\<close>

lemma state_fill_ordered:
  assumes "vmin \<le> v" "v \<le> w" "w \<le> vmax"
  shows "\<exists>c d. state_fill chk path Heatmap (vmin, vmax) v = Ok c \<and> state_fill chk path Heatmap (vmin, vmax) w = Ok d
    \<and> green c \<le> green d"
proof (cases "vmin < vmax")
  case True
  have vw: "v \<le> vmax" "vmin \<le> w" using assms by order+
  let ?f = "\<lambda>v. rnd32 (rnd32 (of_int (uint (v - vmin))) / rnd32 (of_int (uint (vmax - vmin))))"
  have "uint (v - vmin) \<le> uint (w - vmin)"
    using assms vw by (simp add: uint_diff Word.word_le_def)
  then have n: "rnd32 (of_int (uint (v - vmin))) \<le> rnd32 (of_int (uint (w - vmin)))"
    by (rule rnd32_of_int_mono)
  have "0 \<le> rnd32 (of_int (uint (vmax - vmin)))" by (rule rnd32_of_int_nonneg) simp
  then have "?f v \<le> ?f w" using rnd32_mono[OF divide_right_mono[OF n]] by blast
  from heatmap_green_mono[OF this] show ?thesis
    using state_frac_Fin[OF True assms(1) vw(1)] state_frac_Fin[OF True vw(2) assms(3)] by (simp add: state_fill_def)
next
  case False
  obtain r g b where "heatmap_color (Fin (1 / 2)) = Ok (from_rgb r g b)" using heatmap_total by blast
  then show ?thesis using False by (simp add: state_fill_def state_frac_def)
qed

end
