(* ===== verification/Heat.thy ===== *)
theory Heat
  imports Drawing
begin

text \<open>
  State lanes drawn as heat maps: the range of a channel encloses the values drawn, so that the
  subtraction that places a value in the range cannot underflow, and the gradient shows the order of
  the values. Without the condition on the timestamps the range can miss a value.
\<close>

section \<open>The range of a state channel\<close>

lemma runs_of_end: "obs \<noteq> [] \<Longrightarrow> sr_t_end (last (runs_of obs)) = fst (last obs)"
  by (cases obs rule: rev_cases) (auto simp: runs_of_snoc last_push_run)

lemma runs_of_strict:
  assumes "sorted (map fst obs)" and "distinct (map fst obs)"
  shows "sorted_wrt (<) (map sr_t_start (runs_of obs))"
proof -
  have "distinct (map fst (run_starts (runs_of obs)))"
    using assms(2)
  proof (induction obs rule: rev_induct)
    case (snoc ob obs)
    obtain t v where ob: "ob = (t, v)" by force
    have "fst ` set (run_starts (runs_of obs)) \<subseteq> fst ` set obs" by (rule image_mono[OF runs_of_starts_subset])
    moreover have "t \<notin> fst ` set obs" using snoc.prems ob by simp
    ultimately have "t \<notin> fst ` set (run_starts (runs_of obs))" by blast
    then show ?case using snoc ob by (auto simp: runs_of_snoc run_starts_push_run simp del: map_map)
  qed simp
  then show ?thesis using runs_of_sorted[OF assms(1)] by (simp add: strict_sorted_iff comp_def)
qed

lemma runs_of_starts_le:
  assumes "sorted (map fst obs)" and "r \<in> set (runs_of obs)"
  shows "sr_t_start r \<le> fst (last obs)"
proof -
  have "(sr_t_start r, sr_value r) \<in> set obs" using assms(2) runs_of_starts_subset[of obs] by auto
  then show ?thesis using assms(1) by (cases obs rule: rev_cases) (auto simp: sorted_append)
qed

lemma fold_widen_both: "(fst acc = None \<longleftrightarrow> snd acc = None) \<Longrightarrow>
    fst (fold (widen lo hi) xss acc) = None \<longleftrightarrow> snd (fold (widen lo hi) xss acc) = None"
proof (induction xss arbitrary: acc)
  case (Cons xs xss)
  then have "fst (widen lo hi xs acc) = None \<longleftrightarrow> snd (widen lo hi xs acc) = None"
    by (auto simp: widen_def case_prod_beta)
  then show ?case using Cons.IH by simp
qed simp

lemma time_bounds_states:
  assumes "s \<in> set (st_states g)" and "s \<noteq> []" and "time_bounds g = Some (a, b)"
  shows "a \<le> sr_t_start (hd s) \<and> sr_t_end (last s) \<le> b"
proof -
  obtain c d where "fold (widen sr_t_start sr_t_end) (st_states g)
        (fold (widen fst fst) (st_scalars g) (None, None)) = (Some c, Some d)"
      "c \<le> sr_t_start (hd s)" "sr_t_end (last s) \<le> d"
    using fold_widen_covers[OF assms(1,2) fold_widen_both[of "(None, None)"], of sr_t_start sr_t_end] by fastforce
  from fold_widen_keeps[OF this, of fst fst "st_texts g"] show ?thesis
    using assms(3) by (auto simp: time_bounds_def Let_def)
qed

lemma hold_last_values: "sr_value ` set (hold_last runs) = sr_value ` set runs"
  by (cases runs rule: rev_cases) (auto simp: hold_last_def image_Un)

lemma query_state_all:
  assumes "get_at (st_states g) (unat ch) = Some (runs_of obs)" and "sorted (map fst obs)" "distinct (map fst obs)"
    and "obs \<noteq> []" and "time_bounds g = Some (a, b)" and "b \<noteq> - 1"
  shows "query_state g ch a (b + 1) = hold_last (runs_of obs)"
proof -
  let ?rs = "runs_of obs"
  have mem: "?rs \<in> set (st_states g)" using assms(1) by (metis get_at_def nth_mem option.distinct(1) option.inject)
  have ends: "a \<le> sr_t_start (hd ?rs)" "fst (last obs) \<le> b"
    using time_bounds_states[OF mem _ assms(5)] assms(4) by (auto simp: runs_of_end)
  have strict: "sorted_wrt (<) (map sr_t_start ?rs)" by (rule runs_of_strict[OF assms(2,3)])
  have b1: "x < b + 1" if "x \<le> b" for x using that less_plus1[OF assms(6)] by order
  have starts: "sr_t_start (?rs ! i) < b + 1" if "i < length ?rs" for i
    using runs_of_starts_le[OF assms(2), of "?rs ! i"] ends(2) that b1 nth_mem[OF that] by (meson order_trans)
  have first: "a \<le> sr_t_start (?rs ! i)" if "i < length ?rs" for i
  proof -
    have "sr_t_start (?rs ! 0) \<le> sr_t_start (?rs ! i)"
      using sorted_nth_mono[OF runs_of_sorted[OF assms(2)], of 0 i] that by (simp add: assms(4))
    then show ?thesis using ends(1) that by (simp add: hd_conv_nth assms(4))
  qed
  have z: "0 < length ?rs" using assms(4) by simp
  have ab: "a \<le> b" using first[OF z] runs_of_starts_le[OF assms(2) nth_mem[OF z]] ends(2) by order
  then have a: "a < - 1" using assms(6) word_n1_ge[of b] by order
  have after: "a < effective_end ?rs i" if "i < length ?rs" for i
  proof (cases "Suc i < length ?rs")
    case True
    then have "effective_end ?rs i = sr_t_start (?rs ! Suc i)"
      using runs_of_linked[of obs] by (auto simp: effective_end_def runs_linked_nth)
    moreover have "sr_t_start (?rs ! i) < sr_t_start (?rs ! Suc i)"
      using strict True sorted_wrt_nth_less[of "(<)" "map sr_t_start ?rs" i "Suc i"] by simp
    ultimately show ?thesis using first[OF that] by order
  next
    case False
    then have "i = length ?rs - 1" using that by linarith
    then show ?thesis using a by (simp add: effective_end_def)
  qed
  have "a < sr_t_end r \<and> sr_t_start r < b + 1" if "r \<in> set (hold_last ?rs)" for r
    using that after starts by (auto simp: in_set_conv_nth hold_last_nth)
  then have "filter (\<lambda>r. a < sr_t_end r \<and> sr_t_start r < b + 1) (hold_last ?rs) = hold_last ?rs"
    by (simp add: filter_id_conv)
  moreover have "a < b + 1" by (rule b1[OF ab])
  ultimately show ?thesis
    using query_state_overlap[OF assms(1) _ runs_of_sorted[OF assms(2)] runs_of_linked, of a "b + 1"] by simp
qed

lemma fold_range:
  assumes "fold (\<lambda>r (lo, hi). (min lo (sr_value r), max hi (sr_value r))) rs (l, h) = (lo, hi)"
  shows "lo \<le> l \<and> h \<le> hi \<and> (\<forall>v\<in>sr_value ` set rs. lo \<le> v \<and> v \<le> hi)"
  using assms by (induction rs arbitrary: l h) fastforce+

lemma u32_through_f64: "f64_to_u32 (f64_of_int (uint (v :: u32))) = v"
proof -
  have v: "0 \<le> uint v" "uint v < 2 ^ 32" using uint_lt2p[of v] by simp_all
  then have "f64_of_int (uint v) = Fin (of_int (uint v))" by (intro f64_of_int_exact) simp
  then have "f64_to_u32 (f64_of_int (uint v)) = of_int (max 0 (min (2 ^ 32 - 1) (uint v)))"
    by (simp only: f64_to_u32_def f64_to_int_def f64.case trunc_rat_def of_int_0_le_iff v if_True floor_of_int)
  moreover have "max 0 (min (2 ^ 32 - 1) (uint v)) = uint v" using v by simp
  ultimately show ?thesis by simp
qed

lemma state_range_covers:
  assumes "ops_in_order ops log_new" and "get_at (lg_channels (log_run ops)) (unat ch) = Some info"
    and "lg_scalars (log_run ops) ! unat ch = []" and "distinct (map fst (lg_states (log_run ops) ! unat ch))"
    and "lg_states (log_run ops) ! unat ch \<noteq> []"
    and "time_bounds (store_run ops) = Some (a, b)" "b \<noteq> - 1"
  shows "\<exists>lo hi. value_bounds chk (store_run ops) ch = Ok (Some (f64_of_int (uint lo), f64_of_int (uint hi)))
    \<and> (\<forall>v\<in>sr_value ` set (runs_of (lg_states (log_run ops) ! unat ch)). lo \<le> v \<and> v \<le> hi)"
proof -
  let ?obs = "lg_states (log_run ops) ! unat ch" and ?g = "store_run ops"
  note lc = log_channel[OF assms(2)]
  have srt: "sorted (map fst ?obs)"
    using log_run_sorted[OF assms(1)] lc(6) by (auto simp: log_sorted_def series_sorted_def)
  have q: "query_state ?g ch a (b + 1) = hold_last (runs_of ?obs)"
    by (rule query_state_all[OF lc(3) srt assms(4,5,6,7)])
  have s: "query_scalar chk ?g ch a (b + 1) (Suc 0) = Ok []"
    using lc(2) assms(3) by (simp add: query_scalar_def time_window_def slice_range_def)
  obtain lo hi where f: "fold (\<lambda>r (lo, hi). (min lo (sr_value r), max hi (sr_value r))) (hold_last (runs_of ?obs)) (- 1, 0) = (lo, hi)"
    by force
  have "hold_last (runs_of ?obs) \<noteq> []" using assms(5) by (simp add: hold_last_def)
  then have "value_bounds chk ?g ch = Ok (Some (f64_of_int (uint lo), f64_of_int (uint hi)))"
    by (simp add: value_bounds_def default_value_bounds_def assms(6,7) s q f Let_def)
  then show ?thesis using fold_range[OF f] by (auto simp: hold_last_values)
qed

section \<open>What a state lane draws\<close>

lemma state_lane_values:
  assumes "ops_in_order ops log_new" and "get_at (lg_channels (log_run ops)) (unat ch) = Some info"
    and "ci_kind info = CK_State labels" and "t0 < t1"
  shows "\<exists>runs. state_lane_runs chk (store_run ops) ch (t0, t1) = Ok runs
    \<and> sr_value ` set runs \<subseteq> sr_value ` set (runs_of (lg_states (log_run ops) ! unat ch))"
proof -
  let ?g = "store_run ops" and ?rs = "runs_of (lg_states (log_run ops) ! unat ch)"
  note lc = log_channel[OF assms(2)]
  have srt: "sorted (map sr_t_start ?rs)"
    using log_run_sorted[OF assms(1)] lc(6) by (auto simp: log_sorted_def series_sorted_def intro: runs_of_sorted)
  have t: "t0 \<noteq> - 1" using assms(4) word_n1_ge[of t1] by auto
  let ?q = "query_state ?g ch t0 t1"
  have q: "sr_value ` set ?q \<subseteq> sr_value ` set ?rs"
    unfolding query_state_overlap[OF lc(3) assms(4) srt runs_of_linked] using hold_last_values[of ?rs] by auto
  have "sample_at chk ?g ch t0 = Ok (map_option (\<lambda>v. f64_of_int (uint v)) (held_value (run_starts ?rs) t0))"
    using sample_state_at_held[OF srt runs_of_linked t] by (simp add: sample_at_def lc(1) index_at_get[OF lc(3)] assms(3))
  moreover have "v \<in> sr_value ` set ?rs" if "held_value (run_starts ?rs) t0 = Some v" for v
  proof -
    let ?past = "filter (\<lambda>(u, _). u \<le> t0) (run_starts ?rs)"
    have "?past \<noteq> []" "v = snd (last ?past)" using that by (auto simp: held_value_def Let_def split: if_splits)
    then have "last ?past \<in> set (run_starts ?rs)" using last_in_set[of ?past] filter_is_subset[of "\<lambda>(u, _). u \<le> t0" "run_starts ?rs"] by blast
    then show ?thesis using \<open>v = _\<close> by auto
  qed
  ultimately have "\<exists>runs. (if ?q = [] then obind (sample_at chk ?g ch t0) (\<lambda>held. Ok (case held of
        Some v \<Rightarrow> [\<lparr>sr_t_start = t0, sr_t_end = t1, sr_value = f64_to_u32 v\<rparr>] | None \<Rightarrow> [])) else Ok ?q) = (Ok runs :: _ run)
      \<and> sr_value ` set runs \<subseteq> sr_value ` set ?rs"
    using q by (cases "held_value (run_starts ?rs) t0") (auto simp: u32_through_f64)
  then obtain runs where "(if ?q = [] then obind (sample_at chk ?g ch t0) (\<lambda>held. Ok (case held of
        Some v \<Rightarrow> [\<lparr>sr_t_start = t0, sr_t_end = t1, sr_value = f64_to_u32 v\<rparr>] | None \<Rightarrow> [])) else Ok ?q) = (Ok runs :: _ run)"
    "sr_value ` set runs \<subseteq> sr_value ` set ?rs" by blast
  moreover from this(2) have "sr_value ` set (butlast runs @ [(last runs)\<lparr>sr_t_end := t1\<rparr>]) \<subseteq> sr_value ` set ?rs" if "runs \<noteq> []"
    using that by (cases runs rule: rev_cases) auto
  ultimately show ?thesis by (simp add: state_lane_runs_def Let_def)
qed

lemma omap_Ok_map: "(\<And>x. x \<in> set xs \<Longrightarrow> f x = Ok (h x)) \<Longrightarrow> omap f xs = Ok (map h xs)"
  by (induction xs) auto

text \<open>Every value of the lane gets its colour, in an order that the heat map keeps.\<close>

lemma state_lane_fills:
  assumes "ops_in_order ops log_new" and "get_at (lg_channels (log_run ops)) (unat ch) = Some info"
    and "lg_scalars (log_run ops) ! unat ch = []" and "distinct (map fst (lg_states (log_run ops) ! unat ch))"
    and "time_bounds (store_run ops) = Some (a, b)" "b \<noteq> - 1"
    and "sr_value ` set runs \<subseteq> sr_value ` set (runs_of (lg_states (log_run ops) ! unat ch))"
  shows "\<exists>rng fill. state_lane_range chk (store_run ops) ch runs = Ok rng
    \<and> (\<forall>r\<in>set runs. state_fill chk path (state_lane_style runs) rng (sr_value r) = Ok (fill (sr_value r)))
    \<and> (state_lane_style runs = Heatmap \<longrightarrow> (\<forall>r\<in>set runs. \<forall>s\<in>set runs.
        sr_value r \<le> sr_value s \<longrightarrow> green (fill (sr_value r)) \<le> green (fill (sr_value s))))"
proof (cases "state_lane_style runs = Heatmap \<and> runs \<noteq> []")
  case True
  then have "lg_states (log_run ops) ! unat ch \<noteq> []" using assms(7) by (cases runs) auto
  from state_range_covers[OF assms(1-4) this assms(5,6)] obtain lo hi where
    b: "value_bounds chk (store_run ops) ch = Ok (Some (f64_of_int (uint lo), f64_of_int (uint hi)))"
    and v: "\<forall>v\<in>sr_value ` set (runs_of (lg_states (log_run ops) ! unat ch)). lo \<le> v \<and> v \<le> hi" by blast
  have rng: "state_lane_range chk (store_run ops) ch runs = Ok (lo, hi)"
    using True by (simp add: state_lane_range_def b u32_through_f64)
  have in_rng: "lo \<le> v \<and> v \<le> hi" if "v \<in> sr_value ` set runs" for v using that assms(7) v by blast
  let ?fill = "\<lambda>v. case state_fill chk path Heatmap (lo, hi) v of Ok c \<Rightarrow> c | _ \<Rightarrow> BLACK"
  have "state_fill chk path Heatmap (lo, hi) v = Ok (?fill v)" if "v \<in> sr_value ` set runs" for v
    using state_fill_ordered[of lo v v hi chk path] in_rng[OF that] by auto
  moreover have "green (?fill v) \<le> green (?fill w)" if "v \<in> sr_value ` set runs" "w \<in> sr_value ` set runs" "v \<le> w" for v w
    using state_fill_ordered[of lo v w hi chk path] in_rng[OF that(1)] in_rng[OF that(2)] that(3) by auto
  ultimately show ?thesis using rng True by (intro exI[of _ "(lo, hi)"] exI[of _ ?fill]) auto
next
  case False
  then have "state_lane_range chk (store_run ops) ch runs = Ok (0, 0)" by (auto simp: state_lane_range_def)
  moreover have "\<forall>r\<in>set runs. state_fill chk path (state_lane_style runs) (0, 0) (sr_value r) = Ok (state_colour (name_seed path) (sr_value r))"
    using False by (cases "state_lane_style runs") (auto simp: state_fill_def)
  ultimately show ?thesis using False by (intro exI[of _ "(0, 0)"] exI[of _ "state_colour (name_seed path)"]) auto
qed



section \<open>Where the ranges fail\<close>

text \<open>
  The condition on the timestamps is needed: a value that a channel holds for no time at the very first
  instant is outside the range that the store reports, and below it the subtraction underflows.
\<close>

definition instant_ops :: "store_op list" where
  "instant_ops = [Add_state ''m.mode'' [], Push_state 0 10 3, Push_state 0 10 5, Push_state 0 20 6]"

lemma state_range_misses:
  "value_bounds True (store_run instant_ops) 0 = Ok (Some (f64_of_int 5, f64_of_int 6))"
  "sr_value (hd (query_state (store_run instant_ops) 0 0 30)) = 3"
  "state_frac True (5, 6) 3 = Panic"
proof -
  have g: "st_states (store_run instant_ops) = [[\<lparr>sr_t_start = 10, sr_t_end = 10, sr_value = 3\<rparr>,
        \<lparr>sr_t_start = 10, sr_t_end = 20, sr_value = 5\<rparr>, \<lparr>sr_t_start = 20, sr_t_end = 20, sr_value = 6\<rparr>]]"
    "st_scalars (store_run instant_ops) = [[]]" "st_texts (store_run instant_ops) = [[]]"
    by (simp_all add: instant_ops_def store_run_def store_new_def add_defs push_defs push_run_def)
  have q: "query_state (store_run instant_ops) 0 a b = filter (\<lambda>r. a < sr_t_end r \<and> sr_t_start r < b)
      (hold_last (st_states (store_run instant_ops) ! 0))" if "a < b" for a b
    by (rule query_state_overlap[OF _ that]) (simp_all add: g get_at_def)
  show "sr_value (hd (query_state (store_run instant_ops) 0 0 30)) = 3" by (simp add: q) (simp add: g hold_last_def)
  have "time_bounds (store_run instant_ops) = Some (10, 20)" by (simp add: time_bounds_def widen_def g)
  moreover have "query_scalar True (store_run instant_ops) 0 10 21 (Suc 0) = Ok []"
    by (simp add: query_scalar_def g get_at_def time_window_def slice_range_def)
  moreover have "map sr_value (query_state (store_run instant_ops) 0 10 21) = [5, 6]" by (simp add: q) (simp add: g hold_last_def)
  ultimately show "value_bounds True (store_run instant_ops) 0 = Ok (Some (f64_of_int 5, f64_of_int 6))"
    by (auto simp: value_bounds_def default_value_bounds_def map_eq_Cons_conv Let_def)
  show "state_frac True (5, 6) 3 = Panic" by (simp add: state_frac_def sub_chk_def)
qed

text \<open>
  C39. A logic lane of a channel that has no samples yet, in any window: the lane has no runs, and the code
  has a note for this case. The range it computes first is that of no values, from the greatest to the
  least integer, whose length overflows: with overflow checks the renderer panics; without, the note is
  drawn.
\<close>

theorem empty_logic_lane_panics:
  assumes "get_at (lg_channels (log_run ops)) (unat ch) = Some info" and "ci_kind info = CK_Scalar"
    and "by_id ch = Some info" and "lg_scalars (log_run ops) ! unat ch = []" "lg_states (log_run ops) ! unat ch = []"
  shows "logic_lane_runs chk (store_run ops) by_id ch win width = Ok (Some [])
    \<and> logic_lane_items True lib (store_run ops) markers ch (ci_path info) radix [] win px_per_sec = Panic
    \<and> (\<exists>items. logic_lane_items False lib (store_run ops) markers ch (ci_path info) radix [] win px_per_sec = Ok items
        \<and> empty_note win \<in> set items)"
proof -
  let ?g = "store_run ops"
  note lc = log_channel[OF assms(1)]
  obtain t0 t1 where win: "win = (t0, t1)" by force
  have qs: "query_scalar c ?g ch a b k = Ok []" "query_state ?g ch a b = []" for c a b k
    using lc(2,3) assms(4,5) by (simp_all add: query_scalar_def query_state_def time_window_def slice_range_def)
  have vb: "value_bounds c ?g ch = Ok None" for c
    by (simp add: value_bounds_def default_value_bounds_def qs Let_def split: option.split prod.split)
  have "query_raw ?g ch t0 t1 k = Ok []" for k
    using lc(2) assms(4) by (simp add: query_raw_def query_series_def time_window_def slice_range_def)
  moreover have "sample_at chk ?g ch t = Ok None" for t
    using lc(1,2) assms(2,4) by (simp add: sample_at_def index_at_get sample_scalar_at_def)
  ultimately have "logic_scalar_runs chk ?g ch t0 t1 width = Ok []"
    by (simp add: logic_scalar_runs_def hold_to_def fill_leading_def hold_latest_def Let_def split: option.split prod.split)
  then have "logic_lane_runs chk ?g by_id ch win width = Ok (Some [])"
    using assms(2,3) by (simp add: logic_lane_runs_def win)
  moreover have "sub_i64 True I64_MIN (- I64_MIN - 1) = Panic" "\<exists>d. sub_i64 False I64_MIN (- I64_MIN - 1) = Ok d"
    by (simp_all add: sub_i64_def I64_MIN_def Let_def)
  ultimately show ?thesis
    by (auto simp: logic_lane_items_def logic_lane_range_def vb Let_def)
qed

theorem empty_logic_lane_panics_witness:
  "logic_lane_items True plain_paint (store_run [Add_scalar_int ''m.n'', Add_scalar ''m.x'', Push_scalar 1 10 (Fin 4)])
     markers_new 0 ''m.n'' Dec [] (5, 30) (Fin 100) = Panic"
proof -
  let ?ops = "[Add_scalar_int ''m.n'', Add_scalar ''m.x'', Push_scalar 1 10 (Fin 4)]"
    and ?info = "\<lparr>ci_id = 0, ci_path = ''m.n'', ci_kind = CK_Scalar, ci_integer_storage = True\<rparr>"
  have "get_at (lg_channels (log_run ?ops)) (unat (0 :: u32)) = Some ?info"
    "lg_scalars (log_run ?ops) ! unat (0 :: u32) = []" "lg_states (log_run ?ops) ! unat (0 :: u32) = []"
    by (simp_all add: log_run_def log_new_def log_add_def append_at_def get_at_def)
  from empty_logic_lane_panics[OF this(1) _ _ this(2,3), of "[0 \<mapsto> ?info]" True "(5, 30)" 100 plain_paint markers_new Dec "Fin 100"]
  show ?thesis by simp
qed

end
