(* ===== verification/Reachable.thy ===== *)
theory Reachable
  imports App Layout_Roundtrip
begin

text \<open>
  The session as a transition system: the steps are what the network thread, the file system and the
  user can do to the viewer. Every step keeps the state of each component among the states that the
  component's own operations reach, so that the theorems of the components hold of everything the
  viewer ever shows.
\<close>

section \<open>Steps\<close>

text \<open>A bound on the identifiers of markers, links and plots that a layout uses up.\<close>

fun layout_size :: "'v layout option \<Rightarrow> nat" where
  "layout_size None = 0"
| "layout_size (Some l) = length (ly_markers l) + length (ly_links l) + 2 * length (ly_plots l)"

definition layout_at :: "(bytes \<Rightarrow> 'v layout option) \<Rightarrow> file_system \<Rightarrow> string \<Rightarrow> 'v layout option" where
  "layout_at from_slice fs path = Option.bind (fs_files fs path) from_slice"

fun ok_of :: "('a, 'e) outcome \<Rightarrow> 'a option" where
  "ok_of (Ok x) = Some x"
| "ok_of _ = None"

definition drop_into :: "plot_id \<Rightarrow> drag_payload \<Rightarrow> plot_kind list \<Rightarrow> 'd viewer \<Rightarrow> plot_kind list \<times> 'd viewer" where
  "drop_into pid payload new_plots v =
     (let s = drop_on_plot (vw_store v) (hm_collect (map (\<lambda>c. (ci_id c, c)) (st_channels (vw_store v)))) pid payload
            \<lparr>ds_plots = vw_plots v, ds_new_plots = new_plots, ds_xy_drag = vw_xy_drag v\<rparr>
      in (ds_new_plots s, v\<lparr>vw_plots := ds_plots s, vw_xy_drag := ds_xy_drag s\<rparr>))"

text \<open>
  The state of a session: the disk, the plots waiting for the end of the frame, the viewer. The rule
  \<open>view\<close> covers what concerns neither data nor plots nor markers: camera, cursor, selection, dialogs,
  messages. Panels are edited one at a time, in any way (\<open>edit\<close>). The index counts the marker operations and
  the plots created.
\<close>

inductive session :: "bool \<Rightarrow> ('d, 'u, 'v) dock_lib \<Rightarrow> (plot_id list \<Rightarrow> 'd \<Rightarrow> 'd) \<Rightarrow> (bytes \<Rightarrow> 'v layout option)
    \<Rightarrow> nat \<Rightarrow> file_system \<times> plot_kind list \<times> 'd viewer \<Rightarrow> bool"
  for chk lib split_right from_slice where
  start: "viewer_new lib split_right now attempts args = Ok (Some v) \<Longrightarrow> session chk lib split_right from_slice 2 (fs, [], v)"
| disk: "session chk lib split_right from_slice n (fs, ps, v) \<Longrightarrow> session chk lib split_right from_slice n (fs', ps, v)"
| network: "session chk lib split_right from_slice n (fs, ps, v)
    \<Longrightarrow> run_with_reconnect chk now k s m attempts (vw_store v, Some (vw_capture v)) = (r, g, Some cap)
    \<Longrightarrow> session chk lib split_right from_slice n (fs, ps, v\<lparr>vw_store := g, vw_capture := cap\<rparr>)"
| view: "session chk lib split_right from_slice n (fs, ps, v)
    \<Longrightarrow> vw_store v' = vw_store v \<Longrightarrow> vw_capture v' = vw_capture v
    \<Longrightarrow> vw_plots v' = vw_plots v \<Longrightarrow> vw_markers v' = vw_markers v
    \<Longrightarrow> session chk lib split_right from_slice n (fs, ps, v')"
| open_capture: "session chk lib split_right from_slice n (fs, ps, v)
    \<Longrightarrow> load_capture_file chk now lib from_slice path fs v = Ok v'
    \<Longrightarrow> session chk lib split_right from_slice
      (n + layout_size (layout_at from_slice fs (layout_sidecar_path path))) (fs, ps, v')"
| open_layout: "session chk lib split_right from_slice n (fs, ps, v)
    \<Longrightarrow> session chk lib split_right from_slice (n + layout_size (layout_at from_slice fs path))
      (fs, ps, load_layout_file lib from_slice path fs v)"
| load_layout: "session chk lib split_right from_slice n (fs, ps, v)
    \<Longrightarrow> do_load_layout lib hash_order from_slice config_dir (fs_files fs) name v = Ok v'
    \<Longrightarrow> session chk lib split_right from_slice
      (n + layout_size (ok_of (load_layout hash_order from_slice config_dir (fs_files fs) name))) (fs, ps, v')"
| clear: "session chk lib split_right from_slice n (fs, ps, v)
    \<Longrightarrow> session chk lib split_right from_slice n (fs, ps, confirm_clear_dialog p v)"
| connect: "session chk lib split_right from_slice n (fs, ps, v)
    \<Longrightarrow> connection_dialog now addrs edited p v = Ok v'
    \<Longrightarrow> session chk lib split_right from_slice n (fs, ps, v')"
| keys: "session chk lib split_right from_slice n (fs, ps, v)
    \<Longrightarrow> handle_global_keys chk typing fresh ks v = Ok v'
    \<Longrightarrow> session chk lib split_right from_slice (n + 1) (fs, ps, v')"
| pointer: "session chk lib split_right from_slice n (fs, ps, v) \<Longrightarrow> mc_markers ctx = vw_markers v
    \<Longrightarrow> handle_marker_interaction chk ui (vw_marker_mode v) signals ylo yhi ctx = Ok ctx'
    \<Longrightarrow> session chk lib split_right from_slice (n + 5) (fs, ps, v\<lparr>vw_markers := mc_markers ctx'\<rparr>)"
| drop: "session chk lib split_right from_slice n (fs, ps, v) \<Longrightarrow> drop_into pid payload ps v = (ps', v')
    \<Longrightarrow> session chk lib split_right from_slice n (fs, ps', v')"
| edit: "session chk lib split_right from_slice n (fs, ps, v)
    \<Longrightarrow> session chk lib split_right from_slice n (fs, ps, v\<lparr>vw_plots := registry_modify pid f (vw_plots v)\<rparr>)"
| move: "session chk lib split_right from_slice n (fs, ps, v)
    \<Longrightarrow> session chk lib split_right from_slice n
      (fs, ps, v\<lparr>vw_plots := snd (try_move_channel src dst ch info radix (vw_plots v))\<rparr>)"
| add_plot: "session chk lib split_right from_slice n (fs, ps, v)
    \<Longrightarrow> session chk lib split_right from_slice (n + 1) (fs, ps, add_numbered lib ctor word v)"
| frame_end: "session chk lib split_right from_slice n (fs, ps, v)
    \<Longrightarrow> session chk lib split_right from_slice (n + length ps + 2) (fs, [], finish_frame lib split_right removed ps v)"

text \<open>Saving and the popups around it are steps of the kinds \<open>view\<close> and \<open>disk\<close>.\<close>

abbreviation core :: "'d viewer \<Rightarrow> store \<times> capture \<times> plot_registry \<times> marker_set" where
  "core v \<equiv> (vw_store v, vw_capture v, vw_plots v, vw_markers v)"

lemma saves_keep_core:
  "do_save_capture lib to_vec pick fs v = Ok (fs', v') \<Longrightarrow> core v' = core v"
  "do_save_layout lib to_vec config_dir name fs v = Ok (fs', v') \<Longrightarrow> core v' = core v"
  "do_delete_layout config_dir name fs v = Ok (fs', v') \<Longrightarrow> core v' = core v"
  by (auto simp: do_save_capture_def do_save_layout_def do_delete_layout_def flash_def Let_def
      split: if_splits option.splits outcome.splits prod.splits)

lemma dialogs_keep_core:
  "save_as_dialog lib to_vec config_dir p fs v = Ok (fs', v') \<Longrightarrow> core v' = core v"
  "delete_confirm_dialog config_dir p fs v = Ok (fs', v') \<Longrightarrow> core v' = core v"
  "menu_save_layout lib to_vec config_dir fs v = Ok (fs', v') \<Longrightarrow> core v' = core v"
  using saves_keep_core(2)[of lib to_vec config_dir _ fs "v\<lparr>vw_save_as_buffer := None\<rparr>" fs' v']
    saves_keep_core(3)[of config_dir _ fs "v\<lparr>vw_delete_confirm := None\<rparr>" fs' v']
    saves_keep_core(2)[of lib to_vec config_dir _ fs v fs' v']
  by (auto simp: save_as_dialog_def delete_confirm_dialog_def menu_save_layout_def Let_def
      split: option.splits popup.splits if_splits)

text \<open>The first frame is an opened file, an opened layout, or both.\<close>

lemma session_pending:
  assumes "session chk lib split_right from_slice n (fs, ps, v)" and "process_pending chk now lib from_slice fs v = Ok v'"
  shows "\<exists>n'. session chk lib split_right from_slice n' (fs, ps, v')"
proof -
  obtain v1 where v1: "(case vw_pending_file v of None \<Rightarrow> Ok v
      | Some path \<Rightarrow> load_capture_file chk now lib from_slice path fs (v\<lparr>vw_pending_file := None\<rparr>)) = Ok v1"
    "v' = (case vw_pending_layout v1 of None \<Rightarrow> v1
      | Some path \<Rightarrow> load_layout_file lib from_slice path fs (v1\<lparr>vw_pending_layout := None\<rparr>))"
    using assms(2) by (auto simp: process_pending_def outcome_simps)
  have "session chk lib split_right from_slice n (fs, ps, v\<lparr>vw_pending_file := None\<rparr>)"
    by (rule session.view[OF assms(1)]) simp_all
  then obtain n1 where n1: "session chk lib split_right from_slice n1 (fs, ps, v1)"
    using v1(1) assms(1) session.open_capture by (cases "vw_pending_file v") fastforce+
  have "session chk lib split_right from_slice n1 (fs, ps, v1\<lparr>vw_pending_layout := None\<rparr>)"
    by (rule session.view[OF n1]) simp_all
  then show ?thesis
    using v1(2) n1 session.open_layout by (cases "vw_pending_layout v1") fastforce+
qed

section \<open>Plots\<close>

text \<open>Distinct ids, all below the counter, and a counter that has not wrapped.\<close>

definition plots_ok :: "nat \<Rightarrow> plot_registry \<Rightarrow> bool" where
  "plots_ok n r \<longleftrightarrow> hm_ok (pr_plots r) \<and> plots.below r \<and> unat (pr_next_id r) \<le> n"

lemma plots_ok_mono: "plots_ok n r \<Longrightarrow> n \<le> n' \<Longrightarrow> plots_ok n' r"
  by (simp add: plots_ok_def)

lemma plots_ok_new: "plots_ok n registry_new"
  by (simp add: plots_ok_def registry_new_def plots.below_def)

lemma plots_ok_insert:
  assumes "plots_ok n r" and "n + 1 < 2 ^ 64"
  shows "plots_ok (n + 1) (snd (registry_insert k r))"
proof -
  have b: "unat (pr_next_id r) + 1 < 2 ^ 64" using assms by (simp add: plots_ok_def)
  show ?thesis
    using assms plots.step_below[of r "PO_Insert k"] plots.unat_succ[OF b] b
    by (simp add: plots_ok_def registry_insert_def)
qed

lemma plots_ok_same:
  assumes "plots_ok n r" and "map fst (pr_plots r') = map fst (pr_plots r)" and "pr_next_id r' = pr_next_id r"
  shows "plots_ok n r'"
  using assms unfolding plots_ok_def plots.below_def by (metis list.set_map)

lemma registry_modify_map_fst: "map fst (pr_plots (registry_modify pid f r)) = map fst (pr_plots r)"
  by (auto simp: registry_modify_def)

lemma plots_ok_modify: "plots_ok n r \<Longrightarrow> plots_ok n (registry_modify pid f r)"
  by (rule plots_ok_same) (simp_all add: registry_modify_map_fst)

lemma plots_ok_move: "plots_ok n r \<Longrightarrow> plots_ok n (snd (try_move_channel src dst ch info radix r))"
  by (simp add: try_move_channel_def plots_ok_modify)

lemma plots_ok_remove: "plots_ok n r \<Longrightarrow> plots_ok n (snd (registry_remove pid r))"
  by (auto simp: plots_ok_def plots.below_def registry_remove_def AList.delete_eq distinct_map_filter)

lemma plots_ok_removes: "plots_ok n r \<Longrightarrow> plots_ok n (fold (\<lambda>i r. snd (registry_remove i r)) is r)"
  by (induction "is" arbitrary: r) (simp_all add: plots_ok_remove)

lemma plots_ok_inserts:
  assumes "plots_ok n r" and "n + length ks < 2 ^ 64"
  shows "plots_ok (n + length ks) (fold (\<lambda>k r. snd (registry_insert k r)) ks r)"
  using assms
proof (induction ks arbitrary: n r)
  case (Cons k ks)
  have "plots_ok (n + 1) (snd (registry_insert k r))" using plots_ok_insert Cons.prems by simp
  from Cons.IH[OF this] show ?case using Cons.prems(2) by simp
qed simp

subsection \<open>Layouts\<close>

text \<open>Each saved plot becomes at most two.\<close>

lemma apply_spec_inserts:
  "\<exists>ks. length ks \<le> 2 \<and> as_registry (apply_spec by_path channels spec s) =
     fold (\<lambda>k r. snd (registry_insert k r)) ks (as_registry s)"
proof -
  let ?P = "\<lambda>ks r. length ks \<le> 2 \<and> r = fold (\<lambda>k r. snd (registry_insert k r)) ks (as_registry s)"
  have one: "\<exists>ks. ?P ks (as_registry (insert_plot k rep s))" for k rep
    by (rule exI[of _ "[k]"]) (simp add: insert_plot_def split_beta)
  have none: "\<exists>ks. ?P ks (as_registry s)" by (rule exI[of _ "[]"]) simp
  have two: "\<exists>ks. ?P ks (snd (registry_insert a (as_registry s)))"
    "\<exists>ks. ?P ks (snd (registry_insert b (snd (registry_insert a (as_registry s)))))" for a b
    by (rule exI[of _ "[a]"], simp) (rule exI[of _ "[a, b]"], simp)
  show ?thesis
    by (cases spec) (use one none two in \<open>auto simp: apply_time_series_def split_beta Let_def split: option.split\<close>)
qed

lemma apply_layout_plots:
  assumes "apply_layout lib layout channels = (r, dock, report)" and "2 * length (ly_plots layout) < 2 ^ 64"
  shows "plots_ok (2 * length (ly_plots layout)) r"
proof -
  have "plots_ok (n + 2 * length specs) (as_registry (fold (apply_spec by_path channels) specs s))"
    if "plots_ok n (as_registry s)" "n + 2 * length specs < 2 ^ 64" for n by_path specs s
    using that
  proof (induction specs arbitrary: n s)
    case (Cons spec specs)
    obtain ks where ks: "length ks \<le> 2" "as_registry (apply_spec by_path channels spec s) =
        fold (\<lambda>k r. snd (registry_insert k r)) ks (as_registry s)"
      using apply_spec_inserts by blast
    then have "plots_ok (n + length ks) (as_registry (apply_spec by_path channels spec s))"
      using plots_ok_inserts[OF Cons.prems(1)] Cons.prems(2) by simp
    then have "plots_ok (n + 2) (as_registry (apply_spec by_path channels spec s))"
      by (rule plots_ok_mono) (use ks(1) in simp)
    from Cons.IH[OF this] show ?case using Cons.prems(2) by (simp add: add.assoc)
  qed simp
  from this[of 0 _ "ly_plots layout" "paths_of channels"] show ?thesis
    using assms plots_ok_new by (auto simp: apply_layout_def Let_def)
qed

section \<open>Data\<close>

definition data_ok :: "'d viewer \<Rightarrow> bool" where
  "data_ok v \<longleftrightarrow> (\<exists>ops. vw_store v = store_run ops) \<and> (\<exists>cops. vw_capture v = capture_run DEFAULT_RING_BYTES cops)"

abbreviation data_of :: "'d viewer \<Rightarrow> ingest_state" where
  "data_of v \<equiv> (vw_store v, Some (vw_capture v))"

lemma data_ok_reaches: "data_ok v \<Longrightarrow> state_reaches (data_of v) (data_of v') \<Longrightarrow> data_ok v'"
  using state_reaches_runs[of _ DEFAULT_RING_BYTES _ "data_of v'"] by (auto simp: data_ok_def)

text \<open>What \<open>reset_data\<close>, a connection attempt and the replay of a file do to the data, and that they leave
  plots and markers alone.\<close>

lemma reset_data_reaches: "state_reaches (data_of v) (data_of (reset_data v))"
  using clear_state[of "vw_store v" "Some (vw_capture v)"] by (simp add: reset_data_def)

lemma reset_data_keeps [simp]: "vw_plots (reset_data v) = vw_plots v" "vw_markers (reset_data v) = vw_markers v"
  by (simp_all add: reset_data_def)

lemma tcp_connect_reaches:
  assumes "tcp_connect now addrs (g, Some cap) = (r, st)"
  shows "state_reaches (g, Some cap) st \<and> snd st \<noteq> None"
proof -
  obtain cr g' where co: "connect_once addrs None g = (cr, g')" by force
  have s1: "state_reaches (g, Some cap) (g', Some cap)" by (rule registers_state[OF connect_once_reaches[OF co]])
  have "state_reaches (g, Some cap) (g', set_capture_schema now b (Some cap))" for b
    using state_reaches_trans[OF s1 schema_state] .
  then show ?thesis
    using assms s1
    by (auto simp: tcp_connect_def co set_capture_schema_def split: if_splits outcome.splits)
qed

lemma connect_source_reaches:
  assumes "connect_source now addrs v = Ok v'"
  shows "state_reaches (data_of v) (data_of v')" and "vw_plots v' = vw_plots v" "vw_markers v' = vw_markers v"
proof -
  obtain r g cap where t: "tcp_connect now addrs (data_of v) = (r, g, cap)" by (metis prod_cases3)
  note re = tcp_connect_reaches[OF t]
  then obtain c where c: "cap = Some c" by auto
  show "state_reaches (data_of v) (data_of v')" "vw_plots v' = vw_plots v" "vw_markers v' = vw_markers v"
    using assms re unfolding c by (auto simp: connect_source_def t c Let_def split: outcome.splits)
qed

lemma reconnect_reaches:
  assumes "reconnect now addrs v = Ok v'"
  shows "state_reaches (data_of v) (data_of v')" and "vw_plots v' = vw_plots v" "vw_markers v' = vw_markers v"
proof -
  let ?v = "reset_data (v\<lparr>vw_handle := None\<rparr>)"
  have r: "state_reaches (data_of v) (data_of ?v)" using reset_data_reaches[of "v\<lparr>vw_handle := None\<rparr>"] by simp
  show "state_reaches (data_of v) (data_of v')" "vw_plots v' = vw_plots v" "vw_markers v' = vw_markers v"
    using assms connect_source_reaches[of now addrs ?v v'] state_reaches_trans[OF r]
    by (auto simp: reconnect_def split: if_splits)
qed

lemma replay_reaches:
  assumes "ofold (replay_packet chk m now) ps (g, cap, a, b, c) = Ok (g', cap', a', b', c')"
  shows "state_reaches (g, Some cap) (g', Some cap')"
  using assms
proof (induction ps arbitrary: g cap a b c)
  case (Cons p ps)
  obtain g1 cap1 a1 b1 c1 where s: "replay_packet chk m now p (g, cap, a, b, c) = Ok (g1, cap1, a1, b1, c1)"
    "ofold (replay_packet chk m now) ps (g1, cap1, a1, b1, c1) = Ok (g', cap', a', b', c')"
    using Cons.prems by (auto simp: outcome_simps)
  have "state_reaches (g, Some cap) (g1, Some cap1)"
  proof (cases "decode_packet p")
    case (Ok pk)
    then have "dispatch_entries chk m (pk_entries pk) g = Ok g1" "Some cap1 = capture_packet now p (Some cap)"
      using s(1) by (auto simp: replay_packet_def capture_packet_def outcome_simps)
    then show ?thesis using dispatch_entries_reaches state_reachesI capture_packet_step by metis
  qed (use s(1) in \<open>auto simp: replay_packet_def\<close>)
  then show ?case using Cons.IH[OF s(2)] state_reaches_trans by blast
qed simp

section \<open>The invariant\<close>

definition viewer_ok :: "bool \<Rightarrow> nat \<Rightarrow> 'd viewer \<Rightarrow> bool" where
  "viewer_ok chk n v \<longleftrightarrow> data_ok v \<and> plots_ok n (vw_plots v) \<and> (\<exists>k\<le>n. markers_reach chk k (vw_markers v))"

lemma viewer_ok_data:
  assumes "viewer_ok chk n v" and "state_reaches (data_of v) (data_of v')"
    and "vw_plots v' = vw_plots v" "vw_markers v' = vw_markers v"
  shows "viewer_ok chk n v'"
  using assms data_ok_reaches by (auto simp: viewer_ok_def)

lemma viewer_ok_plots:
  assumes "viewer_ok chk n v" and "plots_ok n' (vw_plots v')" and "n \<le> n'"
    and "vw_store v' = vw_store v" "vw_capture v' = vw_capture v" "vw_markers v' = vw_markers v"
  shows "viewer_ok chk n' v'"
  using assms le_trans by (fastforce simp: viewer_ok_def data_ok_def)

lemma viewer_ok_markers:
  assumes "viewer_ok chk n v" and "\<And>k. k \<le> n \<Longrightarrow> markers_reach chk k (vw_markers v) \<Longrightarrow> \<exists>k'\<le>n'. markers_reach chk k' (vw_markers v')"
    and "n \<le> n'" "vw_store v' = vw_store v" "vw_capture v' = vw_capture v" "vw_plots v' = vw_plots v"
  shows "viewer_ok chk n' v'"
  using assms plots_ok_mono[of n _ n'] by (auto simp: viewer_ok_def data_ok_def)

lemma viewer_ok_mono: "viewer_ok chk n v \<Longrightarrow> n \<le> n' \<Longrightarrow> viewer_ok chk n' v"
  by (rule viewer_ok_plots) (auto simp: viewer_ok_def intro: plots_ok_mono)

lemma install_layout_ok:
  assumes "viewer_ok chk n v" and "n + layout_size (Some layout) < 2 ^ 64"
  shows "viewer_ok chk (n + layout_size (Some layout)) (snd (install_layout lib layout v))"
proof -
  obtain r dock rep where a: "apply_layout lib layout (st_channels (vw_store v)) = (r, dock, rep)" by (metis prod_cases3)
  have p: "plots_ok (n + layout_size (Some layout)) r"
    using apply_layout_plots[OF a] assms(2) plots_ok_mono[of "2 * length (ly_plots layout)" r] by simp
  obtain k where k: "k \<le> n" "markers_reach chk k (vw_markers v)" using assms(1) by (auto simp: viewer_ok_def)
  have "markers_reach chk (k + (a + b)) (restore ms ls (vw_markers v))" if "length ms = a" "length ls = b" for a b ms ls
    using markers_reach.step[OF k(2), of "MO_Restore ms ls"] that by simp
  then have "\<exists>k\<le>n + layout_size (Some layout). markers_reach chk k (vw_markers (snd (install_layout lib layout v)))"
    using k(1) by (intro exI[of _ "k + (length (ly_markers layout) + length (ly_links layout))"])
      (auto simp: install_layout_def a)
  then show ?thesis
    using assms(1) p by (auto simp: viewer_ok_def data_ok_def install_layout_def a)
qed

lemma flash_keeps [simp]: "viewer_ok chk n (flash msg v) = viewer_ok chk n v"
  by (simp add: viewer_ok_def data_ok_def flash_def)

lemma sidecar_ok:
  assumes "viewer_ok chk n v" and "try_apply_sidecar_layout lib from_slice path fs v = (note, v')"
    and "n + layout_size (layout_at from_slice fs (layout_sidecar_path path)) < 2 ^ 64"
  shows "viewer_ok chk (n + layout_size (layout_at from_slice fs (layout_sidecar_path path))) v'"
proof (cases "layout_at from_slice fs (layout_sidecar_path path)")
  case None
  then have "v' = v" using assms(2) by (auto simp: try_apply_sidecar_layout_def layout_at_def split: option.splits)
  then show ?thesis using assms(1) None by simp
next
  case (Some layout)
  then have v': "v' = v \<or> v' = snd (install_layout lib layout v)"
    using assms(2) by (auto simp: try_apply_sidecar_layout_def layout_at_def split_beta split: option.splits if_splits)
  have "viewer_ok chk (n + layout_size (Some layout)) v" by (rule viewer_ok_mono[OF assms(1)]) simp
  then show ?thesis
    using v' Some assms(3) install_layout_ok[OF assms(1), of layout lib] by auto
qed

lemma load_capture_file_ok:
  assumes "viewer_ok chk n v" and "load_capture_file chk' now lib from_slice path fs v = Ok v'"
    and "n + layout_size (layout_at from_slice fs (layout_sidecar_path path)) < 2 ^ 64"
  shows "viewer_ok chk (n + layout_size (layout_at from_slice fs (layout_sidecar_path path))) v'"
proof -
  let ?n = "n + layout_size (layout_at from_slice fs (layout_sidecar_path path))"
  let ?v = "reset_data (v\<lparr>vw_handle := None\<rparr>)"
  have up: "viewer_ok chk ?n u" if "viewer_ok chk n u" for u :: "'a viewer" by (rule viewer_ok_mono[OF that]) simp
  have rs: "state_reaches (data_of v) (data_of ?v)" using reset_data_reaches[of "v\<lparr>vw_handle := None\<rparr>"] by simp
  show ?thesis
  proof (cases "read_btlm path fs")
    case (Ok loaded)
    show ?thesis
    proof (cases "schema_decode (lc_schema loaded)")
      case sch: (Ok schema)
      obtain r g where b: "channel_map_build schema (vw_store ?v) = (r, g)" by force
      have bs: "state_reaches (data_of v) (g, Some (vw_capture ?v))"
        using state_reaches_trans[OF rs registers_state[OF build_reaches[OF b]]] .
      show ?thesis
      proof (cases r)
        case (Ok m)
        let ?c = "snd (set_schema now (lc_schema loaded) (vw_capture ?v))"
        obtain g' cap a b' c where f: "ofold (replay_packet chk' m now) (lc_packets loaded) (g, ?c, 0, 0, 0) = Ok (g', cap, a, b', c)"
          using assms(2) b Ok sch \<open>read_btlm path fs = Ok loaded\<close>
          by (auto simp: load_capture_file_def Let_def outcome_simps)
        have "state_reaches (g, Some (vw_capture ?v)) (g, Some ?c)"
          using schema_state[of g "Some (vw_capture ?v)" now "lc_schema loaded"] by (simp add: set_capture_schema_def)
        then have "state_reaches (data_of v) (g', Some cap)"
          using bs replay_reaches[OF f] state_reaches_trans by blast
        then have "viewer_ok chk n (?v\<lparr>vw_store := g', vw_capture := cap, vw_status := Status_loaded (file_name path) a\<rparr>)"
          by (intro viewer_ok_data[OF assms(1)]) simp_all
        from sidecar_ok[OF this prod.collapse[symmetric] assms(3)] show ?thesis
          using assms(2) b Ok sch f \<open>read_btlm path fs = Ok loaded\<close>
          by (auto simp: load_capture_file_def Let_def split_beta)
      next
        case (Err e)
        have "viewer_ok chk n (?v\<lparr>vw_store := g\<rparr>)" using bs by (intro viewer_ok_data[OF assms(1)]) simp_all
        then show ?thesis using up assms(2) b Err sch \<open>read_btlm path fs = Ok loaded\<close>
          by (auto simp: load_capture_file_def Let_def)
      qed (use assms(2) b sch Ok in \<open>auto simp: load_capture_file_def Let_def\<close>)
    qed (use assms(1,2) Ok up in \<open>auto simp: load_capture_file_def\<close>)
  qed (use assms(1,2) up in \<open>auto simp: load_capture_file_def\<close>)
qed

lemma layout_path_keeps [simp]: "viewer_ok chk n (v\<lparr>vw_layout_path := p\<rparr>) = viewer_ok chk n v"
  by (simp add: viewer_ok_def data_ok_def)

lemma load_layout_file_ok:
  assumes "viewer_ok chk n v" and "n + layout_size (layout_at from_slice fs path) < 2 ^ 64"
  shows "viewer_ok chk (n + layout_size (layout_at from_slice fs path)) (load_layout_file lib from_slice path fs v)"
proof (cases "layout_at from_slice fs path")
  case None
  then show ?thesis
    using assms(1) by (auto simp: load_layout_file_def layout_at_def split: option.splits)
next
  case (Some layout)
  have "viewer_ok chk (n + layout_size (Some layout)) v" by (rule viewer_ok_mono[OF assms(1)]) simp
  then show ?thesis
    using Some assms(2) install_layout_ok[OF assms(1), of layout lib]
    by (auto simp: load_layout_file_def layout_at_def split_beta split: option.splits)
qed

lemma do_load_layout_ok:
  assumes "viewer_ok chk n v" and "do_load_layout lib hash_order from_slice config_dir files name v = Ok v'"
    and "n + layout_size (ok_of (load_layout hash_order from_slice config_dir files name)) < 2 ^ 64"
  shows "viewer_ok chk (n + layout_size (ok_of (load_layout hash_order from_slice config_dir files name))) v'"
  using assms install_layout_ok[OF assms(1), of _ lib]
  by (cases "load_layout hash_order from_slice config_dir files name") (auto simp: do_load_layout_def split_beta)

text \<open>What the steps of the key handler leave alone.\<close>

lemma press_keeps [simp]:
  "vw_store (press_g sh data view v) = vw_store v" "vw_capture (press_g sh data view v) = vw_capture v"
  "vw_plots (press_g sh data view v) = vw_plots v" "vw_markers (press_g sh data view v) = vw_markers v"
  "vw_store (press_delete v) = vw_store v" "vw_capture (press_delete v) = vw_capture v" "vw_plots (press_delete v) = vw_plots v"
  by (auto simp: press_g_def press_delete_def Let_def split: option.split)

lemma on_key_keep [simp]:
  "(\<And>v. vw_store (f v) = vw_store v) \<Longrightarrow> vw_store (on_key b f v) = vw_store v"
  "(\<And>v. vw_capture (f v) = vw_capture v) \<Longrightarrow> vw_capture (on_key b f v) = vw_capture v"
  "(\<And>v. vw_plots (f v) = vw_plots v) \<Longrightarrow> vw_plots (on_key b f v) = vw_plots v"
  "(\<And>v. vw_markers (f v) = vw_markers v) \<Longrightarrow> vw_markers (on_key b f v) = vw_markers v"
  by (simp_all add: on_key_def)

lemma press_delete_markers:
  "vw_markers (on_key b press_delete v) = vw_markers v \<or> (\<exists>i. vw_markers (on_key b press_delete v) = marker_remove i (vw_markers v))"
  by (auto simp: on_key_def press_delete_def split: option.split)

lemma handle_global_keys_core:
  assumes "handle_global_keys chk typing fresh ks v = Ok v'"
  shows "vw_store v' = vw_store v" "vw_capture v' = vw_capture v" "vw_plots v' = vw_plots v"
    "vw_markers v' = vw_markers v \<or> (\<exists>i. vw_markers v' = marker_remove i (vw_markers v))"
proof -
  have v': "v' = v \<or> (\<exists>data view. v' = on_key (k_escape ks) press_escape (on_key (k_delete ks) press_delete
      (on_key (k_m ks) (\<lambda>v. v\<lparr>vw_marker_mode := \<not> vw_marker_mode v\<rparr>) (on_key (k_home ks) (\<lambda>v. v\<lparr>vw_cam := camera_reset (vw_cam v)\<rparr>)
      (on_key (k_g ks) (press_g (k_shift ks) data view) (on_key (k_f ks) (\<lambda>v. v\<lparr>vw_cam := press_f (vw_cam v)\<rparr>)
      (on_key (\<not> fresh) (\<lambda>v. v\<lparr>vw_pending_g := False\<rparr>) v)))))))"
    using assms unfolding handle_global_keys_def Let_def by (auto simp: outcome_simps split: if_splits)
  then show "vw_store v' = vw_store v" "vw_capture v' = vw_capture v" "vw_plots v' = vw_plots v"
    by (elim disjE exE; simp add: press_escape_def)+
  show "vw_markers v' = vw_markers v \<or> (\<exists>i. vw_markers v' = marker_remove i (vw_markers v))"
    using v'
  proof (elim disjE exE)
    fix data view
    let ?u = "on_key (k_m ks) (\<lambda>v. v\<lparr>vw_marker_mode := \<not> vw_marker_mode v\<rparr>) (on_key (k_home ks) (\<lambda>v. v\<lparr>vw_cam := camera_reset (vw_cam v)\<rparr>)
      (on_key (k_g ks) (press_g (k_shift ks) data view) (on_key (k_f ks) (\<lambda>v. v\<lparr>vw_cam := press_f (vw_cam v)\<rparr>)
      (on_key (\<not> fresh) (\<lambda>v. v\<lparr>vw_pending_g := False\<rparr>) v))))"
    assume "v' = on_key (k_escape ks) press_escape (on_key (k_delete ks) press_delete ?u)"
    then have "vw_markers v' = vw_markers (on_key (k_delete ks) press_delete ?u)" by (simp add: press_escape_def)
    moreover have "vw_markers ?u = vw_markers v" by simp
    ultimately show ?thesis using press_delete_markers[of "k_delete ks" ?u] by metis
  qed simp
qed

lemma handle_global_keys_ok:
  assumes "viewer_ok chk n v" and "handle_global_keys chk' typing fresh ks v = Ok v'"
  shows "viewer_ok chk (n + 1) v'"
proof (rule viewer_ok_markers[OF assms(1)])
  note core = handle_global_keys_core[OF assms(2)]
  fix k assume k: "k \<le> n" "markers_reach chk k (vw_markers v)"
  have "markers_reach chk (k + 1) (marker_remove i (vw_markers v))" for i
    using markers_reach.step[OF k(2), of "MO_Remove i"] by simp
  then show "\<exists>k'\<le>n + 1. markers_reach chk k' (vw_markers v')" using core(4) k by (metis add_le_mono1 le_add1 le_trans)
qed (use handle_global_keys_core[OF assms(2)] in simp_all)

lemma drop_on_plot_plots:
  "plots_ok n (ds_plots s) \<Longrightarrow> plots_ok n (ds_plots (drop_on_plot g by_id pid payload s))"
  by (cases payload) (auto simp: plots_ok_modify split_beta Let_def split: option.split)

lemma add_tab_plots: "vw_plots (add_tab lib k v) = snd (registry_insert k (vw_plots v))"
  by (simp add: add_tab_def split_beta Let_def)

lemma add_tab_keeps [simp]:
  "vw_store (add_tab lib k v) = vw_store v" "vw_capture (add_tab lib k v) = vw_capture v" "vw_markers (add_tab lib k v) = vw_markers v"
  by (simp_all add: add_tab_def split_beta Let_def)

lemma fold_add_tab:
  "vw_plots (fold (add_tab lib) ks v) = fold (\<lambda>k r. snd (registry_insert k r)) ks (vw_plots v)"
  "vw_store (fold (add_tab lib) ks v) = vw_store v" "vw_capture (fold (add_tab lib) ks v) = vw_capture v"
  "vw_markers (fold (add_tab lib) ks v) = vw_markers v"
  by (induction ks arbitrary: v) (simp_all add: add_tab_plots)

lemma default_dock_plots:
  assumes "plots_ok n r" and "n + 2 < 2 ^ 64"
  shows "plots_ok (n + 2) (fst (make_default_dock lib split_right r))"
  using plots_ok_inserts[OF assms(1), of "[PK_Scalar (scalar_panel_new ''scalar 1''), PK_LogicAnalyser (logic_panel_new ''logic 2'')]"]
    assms(2) by (simp add: make_default_dock_def split_beta Let_def)

lemma default_dock_nonempty: "\<not> registry_is_empty (fst (make_default_dock lib split_right r))"
proof -
  have "AList.update k x m \<noteq> []" for k x and m :: "(plot_id, plot_kind) hashmap" by (cases m) auto
  then show ?thesis
    by (simp add: make_default_dock_def split_beta Let_def registry_is_empty_def registry_insert_def)
qed

lemma finish_frame_nonempty: "\<not> registry_is_empty (vw_plots (finish_frame lib split_right removed ps v))"
  by (simp add: finish_frame_def Let_def split_beta default_dock_nonempty)

lemma finish_frame_ok:
  assumes "viewer_ok chk n v" and "n + length ps + 2 < 2 ^ 64"
  shows "viewer_ok chk (n + length ps + 2) (finish_frame lib split_right removed ps v)"
proof (rule viewer_ok_plots[OF assms(1)])
  let ?r = "fold (\<lambda>k r. snd (registry_insert k r)) ps (fold (\<lambda>i r. snd (registry_remove i r)) removed (vw_plots v))"
  have r: "plots_ok (n + length ps) ?r"
    using assms by (intro plots_ok_inserts plots_ok_removes) (auto simp: viewer_ok_def)
  show "plots_ok (n + length ps + 2) (vw_plots (finish_frame lib split_right removed ps v))"
    using default_dock_plots[OF r assms(2), of lib split_right] plots_ok_mono[OF r]
    by (simp add: finish_frame_def Let_def split_beta fold_add_tab)
qed (simp_all add: finish_frame_def Let_def split_beta fold_add_tab)

lemma viewer_blank_ok: "viewer_ok chk 2 (viewer_blank lib split_right args)"
proof -
  let ?v = "viewer_blank lib split_right args"
  have "vw_store ?v = store_run []" "vw_capture ?v = capture_run DEFAULT_RING_BYTES []" "vw_markers ?v = markers_new"
    "vw_plots ?v = fst (make_default_dock lib split_right registry_new)"
    by (simp_all add: viewer_blank_def split_beta Let_def store_run_def capture_run_def)
  moreover have "plots_ok 2 (fst (make_default_dock lib split_right registry_new))"
    using default_dock_plots[OF plots_ok_new, of 0 lib split_right, unfolded add_0] by simp
  ultimately show ?thesis
    unfolding viewer_ok_def data_ok_def using markers_reach.start by (metis le0)
qed

lemma connect_retry_ok:
  "viewer_ok chk n v \<Longrightarrow> connect_retry now attempts v = Ok (Some v') \<Longrightarrow> viewer_ok chk n v'"
proof (induction now attempts v rule: connect_retry.induct)
  case (2 now addrs late attempts v)
  obtain u where u: "connect_source now addrs v = Ok u" using 2(3) by (auto simp: outcome_simps)
  have ok: "viewer_ok chk n u" by (rule viewer_ok_data[OF 2(2) connect_source_reaches[OF u]])
  show ?case using 2(1)[OF _ ok] 2(3) u ok by (auto split: if_splits)
qed simp

lemma viewer_new_ok: "viewer_new lib split_right now attempts args = Ok (Some v) \<Longrightarrow> viewer_ok chk 2 v"
  using viewer_blank_ok connect_retry_ok[OF viewer_blank_ok] by (auto simp: viewer_new_def split: option.splits)

lemma confirm_clear_ok: "viewer_ok chk n v \<Longrightarrow> viewer_ok chk n (confirm_clear_dialog p v)"
proof -
  assume v: "viewer_ok chk n v"
  have "data_ok (reset_data v)" using v data_ok_reaches[OF _ reset_data_reaches] unfolding viewer_ok_def by blast
  then have "viewer_ok chk n (do_clear v)"
    using v markers_reach.start[of chk] by (auto simp: viewer_ok_def data_ok_def do_clear_def flash_def)
  then show ?thesis
    using v by (cases p) (auto simp: confirm_clear_dialog_def viewer_ok_def data_ok_def)
qed

lemma connection_dialog_ok:
  assumes "viewer_ok chk n v" and "connection_dialog now addrs edited p v = Ok v'"
  shows "viewer_ok chk n v'"
proof -
  have keep: "viewer_ok chk n (u\<lparr>vw_connection_dialog_open := b\<rparr>) = viewer_ok chk n u"
    "viewer_ok chk n (u\<lparr>vw_pending_connection := c\<rparr>) = viewer_ok chk n u"
    "viewer_ok chk n (u\<lparr>vw_connection := c\<rparr>) = viewer_ok chk n u" for u :: "'a viewer" and b c
    by (simp_all add: viewer_ok_def data_ok_def)
  have rc: "viewer_ok chk n u'" if "reconnect now addrs u = Ok u'" "viewer_ok chk n u" for u u' :: "'a viewer"
    using viewer_ok_data[OF that(2) reconnect_reaches[OF that(1)]] .
  show ?thesis
    using assms keep rc
    by (cases p) (auto simp: connection_dialog_def outcome_simps split: if_splits)
qed

lemma pointer_ok:
  assumes "viewer_ok chk n v" and "mc_markers ctx = vw_markers v" and "n + 8 < 2 ^ 64"
    and "handle_marker_interaction chk ui mode signals ylo yhi ctx = Ok ctx'"
  shows "viewer_ok chk (n + 5) (v\<lparr>vw_markers := mc_markers ctx'\<rparr>)"
proof (rule viewer_ok_markers[OF assms(1)])
  fix k assume k: "k \<le> n" "markers_reach chk k (vw_markers v)"
  then have "markers_reach chk k (mc_markers ctx)" "k + 8 < 2 ^ 64" using assms(2,3) by simp_all
  from marker_interaction_reach[OF this, of ui mode signals ylo yhi] obtain j
    where "j \<le> 5" "markers_reach chk (k + j) (mc_markers ctx')"
    using assms(4) by auto
  then show "\<exists>k'\<le>n + 5. markers_reach chk k' (vw_markers (v\<lparr>vw_markers := mc_markers ctx'\<rparr>))"
    using k(1) by (intro exI[of _ "k + j"]) simp
qed simp_all

lemma edits_ok:
  assumes "viewer_ok chk n v"
  shows "viewer_ok chk n (v\<lparr>vw_plots := registry_modify pid f (vw_plots v)\<rparr>)"
    and "viewer_ok chk n (v\<lparr>vw_plots := snd (try_move_channel src dst ch info radix (vw_plots v))\<rparr>)"
    and "drop_into pid payload ps v = (ps', v') \<Longrightarrow> viewer_ok chk n v'"
    and "n + 1 < 2 ^ 64 \<Longrightarrow> viewer_ok chk (n + 1) (add_numbered lib ctor word v)"
proof -
  have p: "plots_ok n (vw_plots v)" using assms by (simp add: viewer_ok_def)
  show "viewer_ok chk n (v\<lparr>vw_plots := registry_modify pid f (vw_plots v)\<rparr>)"
    "viewer_ok chk n (v\<lparr>vw_plots := snd (try_move_channel src dst ch info radix (vw_plots v))\<rparr>)"
    using plots_ok_modify[OF p] plots_ok_move[OF p] by (intro viewer_ok_plots[OF assms]; simp)+
  show "viewer_ok chk n v'" if "drop_into pid payload ps v = (ps', v')"
    using that p
    by (intro viewer_ok_plots[OF assms]) (auto simp: drop_into_def Let_def intro!: drop_on_plot_plots)
  show "viewer_ok chk (n + 1) (add_numbered lib ctor word v)" if "n + 1 < 2 ^ 64"
    using plots_ok_insert[OF p that]
    by (intro viewer_ok_plots[OF assms]) (simp_all add: add_numbered_def add_tab_plots)
qed

lemma session_ok:
  assumes "session chk lib split_right from_slice n s" and "n + 8 < 2 ^ 64"
  shows "viewer_ok chk n (snd (snd s))"
  using assms
proof (induction rule: session.induct)
  case (start now attempts args v fs)
  then show ?case using viewer_new_ok by simp
next
  case (network n fs ps v now k s m attempts r g cap)
  then have "viewer_ok chk n v" by simp
  then show ?case
    using run_with_reconnect_reaches[OF network.hyps(2)] by (auto intro: viewer_ok_data)
next
  case (view n fs ps v v')
  then have "viewer_ok chk n v" by simp
  then show ?case using view.hyps by (simp add: viewer_ok_def data_ok_def)
next
  case (open_capture n fs ps v now path v')
  then show ?case using load_capture_file_ok[of chk n v chk now lib from_slice path fs v'] by simp
next
  case (open_layout n fs ps v path)
  then show ?case using load_layout_file_ok[of chk n v from_slice fs path lib] by simp
next
  case (load_layout n fs ps v hash_order config_dir name v')
  then show ?case using do_load_layout_ok[of chk n v lib hash_order from_slice config_dir "fs_files fs" name v'] by simp
next
  case (pointer n fs ps v ctx ui signals ylo yhi ctx')
  then show ?case using pointer_ok[of chk n v ctx] by simp
next
  case (frame_end n fs ps v removed)
  then show ?case using finish_frame_ok[of chk n v ps] by simp
next
  case (drop n fs ps v pid payload ps' v')
  then show ?case using edits_ok(3)[of chk n v pid payload ps ps' v'] by simp
next
  case (keys n fs ps v typing fresh ks v')
  then show ?case using handle_global_keys_ok[of chk n v] by simp
next
  case (add_plot n fs ps v ctor word)
  then show ?case using edits_ok(4)[of chk n v lib ctor word] by simp
qed (auto intro: confirm_clear_ok connection_dialog_ok edits_ok)

text \<open>
  C6. Whatever happens in a session, each component is in a state its own operations reach: after any
  sequence of network traffic, files opened, layouts loaded, clearing, reconnecting, keys, pointer
  input, drops, edits and frames (fewer than \<open>2 ^ 64\<close> identifiers used), the store and the ring are runs
  of their operations, the marker set is consistent, plot ids are distinct and the next one is free,
  and the workspace that the next frame shows has a plot.
\<close>

theorem session_sound:
  assumes "session chk lib split_right from_slice n (fs, ps, v)" and "n + 8 < 2 ^ 64"
  shows "(\<exists>ops. vw_store v = store_run ops) \<and> (\<exists>cops. vw_capture v = capture_run DEFAULT_RING_BYTES cops)
    \<and> markers_ok (vw_markers v) \<and> distinct (map fst (pr_plots (vw_plots v)))
    \<and> registry_get (vw_plots v) (pr_next_id (vw_plots v)) = None
    \<and> \<not> registry_is_empty (vw_plots (finish_frame lib split_right removed ps v))"
proof -
  have ok: "viewer_ok chk n v" using session_ok[OF assms] by simp
  then have "markers_ok (vw_markers v)" using markers_reach_ok assms(2) by (force simp: viewer_ok_def)
  moreover have "registry_get (vw_plots v) (pr_next_id (vw_plots v)) = None"
    using ok plots.counter_not_live by (auto simp: viewer_ok_def plots_ok_def registry_get_def map_of_eq_None_iff)
  ultimately show ?thesis
    using ok finish_frame_nonempty by (simp add: viewer_ok_def data_ok_def plots_ok_def)
qed

theorem session_sound_witness:
  "\<not> registry_is_empty (vw_plots (finish_frame one_leaf (\<lambda>ids d. d @ ids) [0, 1] []
      (viewer_blank one_leaf (\<lambda>ids d. d @ ids) \<lparr>ar_addr = [], ar_file = Some ''a.btlm'', ar_layout = None\<rparr>)))"
proof -
  let ?args = "\<lparr>ar_addr = [], ar_file = Some ''a.btlm'', ar_layout = None\<rparr>"
  have "viewer_new one_leaf (\<lambda>ids d. d @ ids) 0 [] ?args = Ok (Some (viewer_blank one_leaf (\<lambda>ids d. d @ ids) ?args))"
    by (simp add: viewer_new_def)
  then have "session False one_leaf (\<lambda>ids d. d @ ids) (\<lambda>_. None) 2
      (\<lparr>fs_files = Map.empty, fs_writable = \<lambda>_. True\<rparr>, [], viewer_blank one_leaf (\<lambda>ids d. d @ ids) ?args)"
    by (rule session.start)
  from session_sound[OF this] show ?thesis by simp
qed

end
