(* ===== verification/Frame.thy ===== *)
theory Frame
  imports Drawing
begin

text \<open>
  One plot in one frame: the renderers of \<open>viewer/crates/btelem-viewer/src/plot_renderers.rs\<close> as wholes. Each
  takes what the window system reports for the plot (pointer, buttons, menus) and the state that the
  renderers borrow from the application, and returns what is drawn and the state afterwards.
\<close>

section \<open>Context and input\<close>

text \<open>What the renderers only read, and what they change (\<open>PlotContext\<close>). The scroll of the frame is
  consumed by the first plot that zooms.\<close>

record plot_env =
  pe_store :: store
  pe_view :: "(u64 \<times> u64) option"
  pe_by_id :: "channel_id \<rightharpoonup> channel_info"
  pe_marker_mode :: bool

record plot_ctx =
  px_plots :: plot_registry
  px_cam :: camera
  px_marks :: marker_ctx
  px_cursor_t :: "u64 option"
  px_highlights :: "u64 set"
  px_scroll :: f64

text \<open>Libraries: the exponential function, colours, and the order of hash sets.\<close>

record frame_lib =
  fl_exp :: "f64 \<Rightarrow> f64"
  fl_paint :: paint_lib
  fl_times :: "u64 set \<Rightarrow> u64 list"
  fl_channels :: "channel_id set \<Rightarrow> channel_id list"

text \<open>
  The input on one plot area: the pointer, drags, the position of the pointer for zooming, the size of
  the area, the time under the pointer.
\<close>

record pane_ui =
  pa_pointer :: pointer_ui
  pa_middle :: bool
  pa_primary :: bool
  pa_delta :: f64
  pa_in_rect :: bool
  pa_offset :: "f64 option"
  pa_width :: f64
  pa_width_px :: usize
  pa_px_per_sec :: f64
  pa_bounds :: "f64 \<times> f64"
  pa_ctrl :: bool
  pa_hover_t :: "f64 option"
  pa_hovered :: bool

text \<open>
  What is drawn: a message, a title with a hint, drawing calls under a title, lanes by group, or a
  table. A group has a label in a gutter of its own when there are several.
\<close>

record lane_group =
  lg_gutter :: "(string option \<times> f64) option"
  lg_lanes_drawn :: "item list list"

record log_screen =
  lsc_headers :: "string list"
  lsc_status :: "string \<times> bool"
  lsc_note :: "string option"
  lsc_rows :: "drawn_row list"

datatype screen =
    Waiting
  | Hint string string
  | Plot_screen string "item list"
  | Lanes_screen string f64 "lane_group list"
  | Log_screen string log_screen
  | Gone

section \<open>Menus\<close>

text \<open>\<open>Move to plot\<close> offers the other plots that accept the channel.\<close>

definition menu_move :: "plot_env \<Rightarrow> plot_id \<Rightarrow> channel_id \<Rightarrow> label_radix option \<Rightarrow> plot_id option \<Rightarrow> plot_registry
    \<Rightarrow> plot_registry" where
  "menu_move env pid ch radix target plots =
     (case (pe_by_id env ch, target) of
        (Some info, Some tid) \<Rightarrow>
          if tid \<in> fst ` set (move_targets plots pid info)
          then snd (try_move_channel pid tid ch info radix plots) else plots
      | _ \<Rightarrow> plots)"

text \<open>The style menu of a signal: what its widgets leave of the style, a target, and removal.\<close>

record signal_menu =
  sm_ch :: channel_id
  sm_style :: "signal_style \<Rightarrow> signal_style"
  sm_move :: "plot_id option"
  sm_remove :: bool

definition signal_style_menu :: "plot_env \<Rightarrow> plot_id \<Rightarrow> signal_menu \<Rightarrow> plot_registry \<Rightarrow> plot_registry" where
  "signal_style_menu env pid m plots =
     (case registry_get plots pid of
        Some (PK_Scalar _) \<Rightarrow>
          let ch = sm_ch m;
              plots = registry_modify pid (on_scalar (\<lambda>p. set_style ch (sm_style m (style_for p ch)) p)) plots;
              plots = menu_move env pid ch None (sm_move m) plots
          in if sm_remove m then registry_modify pid (on_scalar (scalar_panel_remove ch)) plots else plots
      | _ \<Rightarrow> plots)"

record lane_menu =
  lm_move :: "plot_id option"
  lm_mode :: "lane_mode option"
  lm_radix :: "label_radix option"
  lm_remove :: bool

text \<open>\<open>Render as\<close>: names are offered only for channels that have them.\<close>

definition menu_mode :: "plot_env \<Rightarrow> plot_id \<Rightarrow> channel_id \<Rightarrow> lane_mode option \<Rightarrow> plot_registry \<Rightarrow> plot_registry" where
  "menu_mode env pid ch mode plots =
     (case mode of
        None \<Rightarrow> plots
      | Some m \<Rightarrow>
          if m = Named \<and> \<not> (case pe_by_id env ch of None \<Rightarrow> False | Some i \<Rightarrow> channel_has_labels i) then plots
          else registry_modify pid (on_logic (set_mode ch m)) plots)"

definition menu_remove :: "plot_id \<Rightarrow> channel_id \<Rightarrow> bool \<Rightarrow> plot_registry \<Rightarrow> plot_registry" where
  "menu_remove pid ch remove plots =
     (if remove then registry_modify pid (on_logic (logic_panel_remove ch)) plots else plots)"

definition menu_radix :: "plot_id \<Rightarrow> channel_id \<Rightarrow> label_radix option \<Rightarrow> plot_registry \<Rightarrow> plot_registry" where
  "menu_radix pid ch radix plots =
     (case radix of None \<Rightarrow> plots | Some r \<Rightarrow> registry_modify pid (on_logic (set_radix ch r)) plots)"

definition state_lane_menu :: "plot_env \<Rightarrow> plot_id \<Rightarrow> channel_id \<Rightarrow> lane_menu \<Rightarrow> plot_registry \<Rightarrow> plot_registry" where
  "state_lane_menu env pid ch m plots =
     menu_remove pid ch (lm_remove m) (menu_mode env pid ch (lm_mode m) (menu_move env pid ch None (lm_move m) plots))"

definition logic_lane_menu :: "plot_env \<Rightarrow> plot_id \<Rightarrow> channel_id \<Rightarrow> label_radix \<Rightarrow> lane_menu \<Rightarrow> plot_registry
    \<Rightarrow> plot_registry" where
  "logic_lane_menu env pid ch radix m plots =
     menu_radix pid ch (lm_radix m) (menu_mode env pid ch (lm_mode m) (menu_remove pid ch (lm_remove m)
       (menu_move env pid ch (Some radix) (lm_move m) plots)))"

section \<open>Scalar plots\<close>

text \<open>A click on the traces: select a signal with \<open>ctrl\<close> or \<open>shift\<close>, clear the selection beside the markers.\<close>

definition select_signal :: "plot_env \<Rightarrow> pane_ui \<Rightarrow> plot_id \<Rightarrow> signal_data list \<Rightarrow> marker_set \<Rightarrow> plot_registry
    \<Rightarrow> plot_registry run" where
  "select_signal env ui pid signals markers plots =
     (let ptr = pa_pointer ui; pos = or_else (pu_interact ptr) (pu_hover ptr) in
      if \<not> pu_clicked ptr \<or> pe_marker_mode env then Ok plots
      else if pa_ctrl ui \<or> pu_shift ptr
      then (case pos of
              None \<Rightarrow> Ok plots
            | Some p \<Rightarrow>
                obind (nearest_signal signals (pp_x p) (pp_y p)) (\<lambda>hit.
                Ok (case hit of
                      None \<Rightarrow> plots
                    | Some ch \<Rightarrow> registry_modify pid (on_scalar (click_signal (pa_ctrl ui) ch)) plots)))
      else if Option.bind pos (hit_marker markers) = None
      then Ok (registry_modify pid (on_scalar (\<lambda>p. p\<lparr>sp_selected_signals := {}\<rparr>)) plots)
      else Ok plots)"

text \<open>The scroll left after a plot has looked at it.\<close>

definition camera_scroll :: "bool \<Rightarrow> f64 \<Rightarrow> f64" where
  "camera_scroll in_rect scroll = (if in_rect \<and> f64_lt (Fin (1 / 2)) (f64_abs scroll) then Fin 0 else scroll)"

definition lane_scroll :: "bool \<Rightarrow> f64 \<Rightarrow> f64" where
  "lane_scroll in_rect scroll = (if in_rect \<and> \<not> f64_le (f64_abs scroll) (Fin (1 / 2)) then Fin 0 else scroll)"

definition drag_available :: "plot_env \<Rightarrow> marker_ctx \<Rightarrow> bool" where
  "drag_available env marks \<longleftrightarrow> mc_dragging_marker marks = None \<and> \<not> pe_marker_mode env"

definition set_cursor :: "pane_ui \<Rightarrow> u64 option \<Rightarrow> u64 option" where
  "set_cursor ui cursor = (case pa_hover_t ui of Some t \<Rightarrow> if pa_hovered ui then Some (s_to_ns t) else cursor | None \<Rightarrow> cursor)"

definition render_scalar_section :: "frame_lib \<Rightarrow> bool \<Rightarrow> plot_env \<Rightarrow> pane_ui \<Rightarrow> signal_menu option \<Rightarrow> plot_id \<Rightarrow> scalar_panel
    \<Rightarrow> u64 \<times> u64 \<Rightarrow> plot_ctx \<Rightarrow> (item list \<times> plot_ctx) run" where
  "render_scalar_section fl chk env ui menu pid panel win ctx =
     obind (scalar_signals chk (pe_store env) (pe_by_id env) panel win (pa_width_px ui)) (\<lambda>(signals, ymin, ymax).
     let (ylo, yhi) = y_range ymin ymax; interactive = (cam_mode (px_cam ctx) \<noteq> Follow);
         markers = mc_markers (px_marks ctx) in
     obind (render_link_deltas chk markers (pe_store env) signals ylo yhi) (\<lambda>links.
     let items = concat (map draw_signal signals) @ links @ render_markers markers
           @ render_log_highlights (fl_times fl (px_highlights ctx)) in
     obind (handle_marker_interaction chk (pa_pointer ui) (pe_marker_mode env)
              (fl_channels fl (sp_selected_signals panel)) ylo yhi (px_marks ctx)) (\<lambda>marks.
     obind (select_signal env ui pid signals (mc_markers marks) (px_plots ctx)) (\<lambda>plots.
     obind (handle_camera (fl_exp fl) (pa_middle ui) (pa_primary ui) (pa_delta ui) (pa_in_rect ui) (px_scroll ctx)
              (pa_offset ui) (pa_width ui) (pa_bounds ui) interactive (drag_available env marks) (px_cam ctx)) (\<lambda>cam.
     let plots = (case menu of
           Some m \<Rightarrow> if sm_ch m \<in> sd_ch ` set signals then signal_style_menu env pid m plots else plots
         | None \<Rightarrow> plots)
     in Ok (items, ctx\<lparr>px_plots := plots, px_cam := cam, px_marks := marks,
          px_cursor_t := set_cursor ui (px_cursor_t ctx), px_scroll := camera_scroll (pa_in_rect ui) (px_scroll ctx)\<rparr>))))))"

text \<open>The title is followed by the time base.\<close>

definition plot_header :: "string \<Rightarrow> camera \<Rightarrow> string" where
  "plot_header title cam = title @ ''['' @ time_base_label (cam_mode cam) @ '']''"

definition render_scalar_plot :: "frame_lib \<Rightarrow> bool \<Rightarrow> plot_env \<Rightarrow> pane_ui \<Rightarrow> signal_menu option \<Rightarrow> plot_id \<Rightarrow> scalar_panel
    \<Rightarrow> plot_ctx \<Rightarrow> (screen \<times> plot_ctx) run" where
  "render_scalar_plot fl chk env ui menu pid panel ctx =
     (case pe_view env of
        None \<Rightarrow> Ok (Waiting, ctx)
      | Some win \<Rightarrow>
          obind (render_scalar_section fl chk env ui menu pid panel win ctx) (\<lambda>(items, ctx').
          Ok (Plot_screen (plot_header (sp_title panel) (px_cam ctx)) items, ctx')))"

section \<open>Lanes\<close>

text \<open>After the menu of a lane: markers, panning, zooming.\<close>

definition lane_interact :: "frame_lib \<Rightarrow> bool \<Rightarrow> plot_env \<Rightarrow> pane_ui \<Rightarrow> u64 \<times> u64 \<Rightarrow> plot_ctx \<Rightarrow> plot_ctx run" where
  "lane_interact fl chk env ui = (\<lambda>(t0, t1) ctx.
     let cur = (ns_to_s t0, ns_to_s t1) in
     obind (handle_marker_interaction chk (pa_pointer ui) (pe_marker_mode env) [] (Fin 0) (Fin 1) (px_marks ctx)) (\<lambda>marks.
     let cam = drag_pan_x (pa_middle ui) (pa_primary ui) (pa_delta ui) (pa_width ui) cur (drag_available env marks) (px_cam ctx) in
     obind (scroll_zoom_x (fl_exp fl) (pa_in_rect ui) (px_scroll ctx) (pa_offset ui) (pa_width ui) cur cam) (\<lambda>cam.
     Ok (ctx\<lparr>px_marks := marks, px_cam := cam, px_scroll := lane_scroll (pa_in_rect ui) (px_scroll ctx)\<rparr>))))"

definition render_state_lane :: "frame_lib \<Rightarrow> bool \<Rightarrow> plot_env \<Rightarrow> pane_ui \<times> lane_menu \<Rightarrow> plot_id \<Rightarrow> channel_id
    \<Rightarrow> u64 \<times> u64 \<Rightarrow> plot_ctx \<Rightarrow> (item list \<times> plot_ctx) run" where
  "render_state_lane fl chk env = (\<lambda>(ui, menu) pid ch win ctx.
     case pe_by_id env ch of
       None \<Rightarrow> Ok ([], ctx)
     | Some info \<Rightarrow>
         (case ci_kind info of
            CK_State labels \<Rightarrow>
              obind (state_lane_items chk (fl_paint fl) (pe_store env) (mc_markers (px_marks ctx)) ch info labels win
                       (pa_px_per_sec ui)) (\<lambda>items.
              obind (lane_interact fl chk env ui win
                       (ctx\<lparr>px_plots := state_lane_menu env pid ch menu (px_plots ctx)\<rparr>)) (\<lambda>ctx.
              Ok (items, ctx)))
          | _ \<Rightarrow> Ok ([], ctx)))"

definition render_logic_lane :: "frame_lib \<Rightarrow> bool \<Rightarrow> plot_env \<Rightarrow> pane_ui \<times> lane_menu \<Rightarrow> plot_id \<Rightarrow> channel_id
    \<Rightarrow> label_radix \<Rightarrow> u64 \<times> u64 \<Rightarrow> plot_ctx \<Rightarrow> (item list \<times> plot_ctx) run" where
  "render_logic_lane fl chk env = (\<lambda>(ui, menu) pid ch radix win ctx.
     obind (logic_lane_runs chk (pe_store env) (pe_by_id env) ch win (pa_width_px ui)) (\<lambda>r.
     case (pe_by_id env ch, r) of
       (Some info, Some runs) \<Rightarrow>
         obind (logic_lane_items chk (fl_paint fl) (pe_store env) (mc_markers (px_marks ctx)) ch (ci_path info) radix
                  runs win (pa_px_per_sec ui)) (\<lambda>items.
         obind (lane_interact fl chk env ui win
                  (ctx\<lparr>px_plots := logic_lane_menu env pid ch radix menu (px_plots ctx)\<rparr>)) (\<lambda>ctx.
         Ok (items, ctx)))
     | _ \<Rightarrow> Ok ([], ctx)))"

definition render_lane_dispatch :: "frame_lib \<Rightarrow> bool \<Rightarrow> plot_env \<Rightarrow> pane_ui \<times> lane_menu \<Rightarrow> plot_id \<Rightarrow> logic_lane
    \<Rightarrow> u64 \<times> u64 \<Rightarrow> plot_ctx \<Rightarrow> (item list \<times> plot_ctx) run" where
  "render_lane_dispatch fl chk env ui pid lane win ctx =
     (case ll_mode lane of
        Named \<Rightarrow> render_state_lane fl chk env ui pid (ll_ch lane) win ctx
      | Numeric \<Rightarrow> render_logic_lane fl chk env ui pid (ll_ch lane) (ll_radix lane) win ctx)"

text \<open>The body of the loop over the lanes of a group.\<close>

definition render_lane :: "frame_lib \<Rightarrow> bool \<Rightarrow> plot_env \<Rightarrow> (usize \<Rightarrow> pane_ui \<times> lane_menu) \<Rightarrow> plot_id \<Rightarrow> logic_lane list
    \<Rightarrow> u64 \<times> u64 \<Rightarrow> usize \<Rightarrow> item list list \<times> plot_ctx \<Rightarrow> (item list list \<times> plot_ctx) run" where
  "render_lane fl chk env uis pid lanes win lane_idx = (\<lambda>(out, ctx).
     obind (index_at lanes lane_idx) (\<lambda>lane.
     obind (render_lane_dispatch fl chk env (uis lane_idx) pid lane win ctx) (\<lambda>(items, ctx).
     Ok (out @ [items], ctx))))"

text \<open>The label of a group: lanes that resolve to no channel have none.\<close>

definition paint_group_label :: "string \<Rightarrow> string option" where
  "paint_group_label key = (if key = [] then None else Some key)"

definition render_group :: "frame_lib \<Rightarrow> bool \<Rightarrow> plot_env \<Rightarrow> (usize \<Rightarrow> pane_ui \<times> lane_menu) \<Rightarrow> plot_id \<Rightarrow> logic_lane list
    \<Rightarrow> u64 \<times> u64 \<Rightarrow> (usize \<Rightarrow> f64) option \<Rightarrow> string \<times> usize list \<Rightarrow> lane_group list \<times> plot_ctx
    \<Rightarrow> (lane_group list \<times> plot_ctx) run" where
  "render_group fl chk env uis pid lanes win height = (\<lambda>(key, indices) (out, ctx).
     obind (ofold (render_lane fl chk env uis pid lanes win) indices ([], ctx)) (\<lambda>(drawn, ctx).
     Ok (out @ [\<lparr>lg_gutter = map_option (\<lambda>h. (paint_group_label key, h (length indices))) height,
                 lg_lanes_drawn = drawn\<rparr>], ctx)))"

text \<open>\<open>available\<close> and \<open>spacing\<close>: the height of the panel and the gap between widgets.\<close>

definition render_logic_analyser :: "frame_lib \<Rightarrow> bool \<Rightarrow> plot_env \<Rightarrow> f64 \<Rightarrow> f64 \<Rightarrow> pane_ui \<Rightarrow> (usize \<Rightarrow> pane_ui \<times> lane_menu)
    \<Rightarrow> plot_id \<Rightarrow> logic_analyser_panel \<Rightarrow> plot_ctx \<Rightarrow> (screen \<times> plot_ctx) run" where
  "render_logic_analyser fl chk env available spacing ui uis pid panel ctx =
     (case pe_view env of
        None \<Rightarrow> Ok (Waiting, ctx)
      | Some (t0, t1) \<Rightarrow>
          let header = plot_header (lp_title panel) (px_cam ctx) in
          if lp_lanes panel = [] then Ok (Hint header ''drop state or integer channels here'', ctx)
          else
            obind (scroll_zoom_x (fl_exp fl) (pa_in_rect ui) (px_scroll ctx) (pa_offset ui) (pa_width ui)
                     (ns_to_s t0, ns_to_s t1) (px_cam ctx)) (\<lambda>cam.
            let ctx = ctx\<lparr>px_cam := cam, px_scroll := lane_scroll (pa_in_rect ui) (px_scroll ctx)\<rparr>;
                grps = lane_groups (pe_by_id env) panel in
            obind (lane_height available spacing (length (lp_lanes panel)) (length grps)) (\<lambda>lane_h.
            let height = (if length grps \<le> 1 then None else Some (group_height lane_h spacing)) in
            obind (ofold (render_group fl chk env uis pid (lp_lanes panel) (t0, t1) height) grps ([], ctx)) (\<lambda>(drawn, ctx).
            Ok (Lanes_screen header lane_h drawn, ctx)))))"

section \<open>Log tables\<close>

fun on_log :: "(log_view_panel \<Rightarrow> log_view_panel) \<Rightarrow> plot_kind \<Rightarrow> plot_kind" where
  "on_log f (PK_LogView p) = PK_LogView (f p)"
| "on_log f k = k"

text \<open>
  The widgets of a table: the check boxes of the columns menu, a pick in the colour and priority menus,
  the row budget, the open filter editor of a column and its clear button, and clicks on rows by index.
\<close>

record log_ui =
  lgu_box :: "usize \<Rightarrow> bool \<Rightarrow> bool"
  lgu_colour :: "channel_id option option"
  lgu_priority :: "channel_id option option"
  lgu_max_rows :: "u32 option"
  lgu_filter :: "channel_id \<Rightarrow> filter_ui option"
  lgu_clear :: "channel_id \<Rightarrow> bool"
  lgu_click :: "usize \<Rightarrow> bool"
  lgu_double :: "usize \<Rightarrow> bool"
  lgu_width :: f64

definition column_meta :: "plot_env \<Rightarrow> log_view_panel \<Rightarrow> (usize \<times> channel_id) list" where
  "column_meta env panel = filter (\<lambda>(_, ch). pe_by_id env ch \<noteq> None) (enumerate 0 (lv_columns panel))"

definition col_kind :: "plot_env \<Rightarrow> (usize \<times> channel_id) list \<Rightarrow> channel_id \<Rightarrow> filter_kind option" where
  "col_kind env meta ch =
     (if ch \<in> snd ` set meta then map_option (\<lambda>i. filter_kind_from_channel (ci_kind i)) (pe_by_id env ch) else None)"

definition tick_column :: "log_ui \<Rightarrow> usize \<times> channel_id \<Rightarrow> log_view_panel \<Rightarrow> log_view_panel" where
  "tick_column ui = (\<lambda>(idx, _) p.
     let shown = (idx \<in> set (lv_visible p)); shown' = lgu_box ui idx shown
     in if shown' \<noteq> shown then show_column idx shown' p else p)"

text \<open>A menu offers no channel and the channels of the columns.\<close>

definition pick :: "(channel_id option \<Rightarrow> log_view_panel \<Rightarrow> log_view_panel) \<Rightarrow> (usize \<times> channel_id) list
    \<Rightarrow> channel_id option option \<Rightarrow> log_view_panel \<Rightarrow> log_view_panel" where
  "pick f meta choice p =
     (case choice of
        None \<Rightarrow> p
      | Some None \<Rightarrow> f None p
      | Some (Some ch) \<Rightarrow> if ch \<in> snd ` set meta then f (Some ch) p else p)"

definition log_menus :: "plot_env \<Rightarrow> log_ui \<Rightarrow> (usize \<times> channel_id) list \<Rightarrow> log_view_panel \<Rightarrow> log_view_panel" where
  "log_menus env ui meta p =
     (let p = fold (tick_column ui) meta p;
          p = pick colour_by meta (lgu_colour ui) p;
          p = pick (prioritise_by (col_kind env meta)) meta (lgu_priority ui) p
      in case lgu_max_rows ui of None \<Rightarrow> p | Some n \<Rightarrow> set_max_rows n p)"

definition edit_filter :: "plot_env \<Rightarrow> log_ui \<Rightarrow> (usize \<times> channel_id) list \<Rightarrow> log_column \<Rightarrow> log_view_panel \<Rightarrow> log_view_panel" where
  "edit_filter env ui meta col p =
     (let ch = lcol_id col;
          p = (case lgu_filter ui ch of
                 Some fu \<Rightarrow> render_column_filter_editor fu ch (col_kind env meta ch) p | None \<Rightarrow> p)
      in if lgu_clear ui ch then clear_filter ch p else p)"

text \<open>A header shows whether its filter is active before its editor changes it.\<close>

fun header_row :: "plot_env \<Rightarrow> log_ui \<Rightarrow> (usize \<times> channel_id) list \<Rightarrow> log_column list \<Rightarrow> log_view_panel \<Rightarrow> string list" where
  "header_row env ui meta [] p = []"
| "header_row env ui meta (c # cs) p = header_text p c # header_row env ui meta cs (edit_filter env ui meta c p)"

text \<open>A row: drawn with the highlights before it is clicked.\<close>

definition render_row :: "frame_lib \<Rightarrow> log_ui \<Rightarrow> log_view_panel \<Rightarrow> log_column list \<Rightarrow> f64 \<times> f64 \<Rightarrow> usize \<times> log_row
    \<Rightarrow> drawn_row list \<times> u64 set \<times> camera \<Rightarrow> drawn_row list \<times> u64 set \<times> camera" where
  "render_row fl ui panel cols fallback = (\<lambda>(i, row) (out, highlights, cam).
     let out = out @ [draw_row (fl_paint fl) panel cols (text_width (lgu_width ui) cols) highlights row];
         highlights = (if lgu_click ui i then click_row (lr_t row) highlights else highlights);
         (highlights, cam) = (if lgu_double ui i then double_click_row (lr_t row) fallback (highlights, cam)
                              else (highlights, cam))
     in (out, highlights, cam))"

definition render_log_view :: "frame_lib \<Rightarrow> bool \<Rightarrow> plot_env \<Rightarrow> log_ui \<Rightarrow> plot_id \<Rightarrow> log_view_panel \<Rightarrow> plot_ctx
    \<Rightarrow> (screen \<times> plot_ctx) run" where
  "render_log_view fl chk env ui pid panel ctx =
     (case pe_view env of
        None \<Rightarrow> Ok (Waiting, ctx)
      | Some (t0, t1) \<Rightarrow>
          let meta = column_meta env panel;
              ctx = ctx\<lparr>px_plots := registry_modify pid (on_log (log_menus env ui meta)) (px_plots ctx)\<rparr> in
          (case registry_get (px_plots ctx) pid of
             Some (PK_LogView panel) \<Rightarrow>
               let cols = visible_columns (pe_by_id env) panel in
               if lv_columns panel = [] then Ok (Hint (lv_title panel) ''drop a schema group here'', ctx)
               else if cols = [] then Ok (Hint (lv_title panel) ''no visible columns'', ctx)
               else let ctx = ctx\<lparr>px_plots := registry_modify pid (on_log (fold (edit_filter env ui meta) cols)) (px_plots ctx)\<rparr> in
                 (case registry_get (px_plots ctx) pid of
                    Some (PK_LogView edited) \<Rightarrow>
                      obind (log_view_rows chk (pe_store env) (pe_by_id env) edited (t0, t1)) (\<lambda>(rows, matched_count, in_window).
                      let (drawn, highlights, cam) = fold (render_row fl ui edited cols (ns_to_s t0, ns_to_s t1))
                            (enumerate 0 rows) ([], px_highlights ctx, px_cam ctx)
                      in Ok (Log_screen (lv_title panel)
                               \<lparr>lsc_headers = ''t [s]'' # header_row env ui meta cols panel,
                                lsc_status = shown_text (length rows) matched_count in_window,
                                lsc_note = (if rows = [] then Some ''no rows match'' else None), lsc_rows = drawn\<rparr>,
                             ctx\<lparr>px_highlights := highlights, px_cam := cam\<rparr>))
                  | _ \<Rightarrow> Ok (Gone, ctx))
           | _ \<Rightarrow> Ok (Gone, ctx)))"

section \<open>XY plots\<close>

definition render_xy :: "bool \<Rightarrow> plot_env \<Rightarrow> xy_plot \<Rightarrow> plot_ctx \<Rightarrow> (screen \<times> plot_ctx) run" where
  "render_xy chk env xy ctx =
     (case pe_view env of
        None \<Rightarrow> Ok (Waiting, ctx)
      | Some win \<Rightarrow>
          obind (xy_items chk (pe_store env) (pe_by_id env) xy win) (\<lambda>items.
          Ok (Plot_screen (xy_title xy) items, ctx)))"

section \<open>Any plot\<close>

record tab_ui =
  tu_pane :: pane_ui
  tu_signal :: "signal_menu option"
  tu_lane :: "usize \<Rightarrow> pane_ui \<times> lane_menu"
  tu_log :: log_ui
  tu_height :: f64
  tu_spacing :: f64

definition render_plot :: "frame_lib \<Rightarrow> bool \<Rightarrow> plot_env \<Rightarrow> tab_ui \<Rightarrow> plot_id \<Rightarrow> plot_ctx \<Rightarrow> (screen \<times> plot_ctx) run" where
  "render_plot fl chk env ui pid ctx =
     (case registry_get (px_plots ctx) pid of
        None \<Rightarrow> Ok (Gone, ctx)
      | Some (PK_Scalar panel) \<Rightarrow> render_scalar_plot fl chk env (tu_pane ui) (tu_signal ui) pid panel ctx
      | Some (PK_LogicAnalyser panel) \<Rightarrow>
          render_logic_analyser fl chk env (tu_height ui) (tu_spacing ui) (tu_pane ui) (tu_lane ui) pid panel ctx
      | Some (PK_LogView panel) \<Rightarrow> render_log_view fl chk env (tu_log ui) pid panel ctx
      | Some (PK_XY xy) \<Rightarrow> render_xy chk env xy ctx)"

end
