(* ===== verification/Frame_Safe.thy ===== *)
theory Frame_Safe
  imports Frame
begin

text \<open>
  A frame of a plot in a release build: the renderers return whatever the store holds and whatever the
  user does. The rules of the first section reduce a composed operation to its parts.
\<close>

section \<open>Operations that return\<close>

named_theorems ensured \<open>introduction rules: an operation returns a result with a property\<close>

definition ensures :: "('a, 'e) outcome \<Rightarrow> ('a \<Rightarrow> bool) \<Rightarrow> bool" where
  "ensures m P \<longleftrightarrow> (\<exists>x. m = Ok x \<and> P x)"

abbreviation returns :: "('a, 'e) outcome \<Rightarrow> bool" where
  "returns m \<equiv> ensures m (\<lambda>_. True)"

lemma ensures_Ok [simp]: "ensures (Ok x) P \<longleftrightarrow> P x"
  by (simp add: ensures_def)

lemma ensures_obind [ensured]:
  "ensures m P \<Longrightarrow> (\<And>x. P x \<Longrightarrow> m = Ok x \<Longrightarrow> ensures (f x) Q) \<Longrightarrow> ensures (obind m f) Q"
  by (auto simp: ensures_def)

lemma ensures_mono: "ensures m P \<Longrightarrow> (\<And>x. P x \<Longrightarrow> Q x) \<Longrightarrow> ensures m Q"
  by (auto simp: ensures_def)

lemma returns_omap [ensured]: "(\<And>x. x \<in> set xs \<Longrightarrow> returns (f x)) \<Longrightarrow> returns (omap f xs)"
  by (induction xs) (auto intro!: ensures_obind)

lemma returns_ofold [ensured]: "(\<And>x s. x \<in> set xs \<Longrightarrow> returns (f x s)) \<Longrightarrow> returns (ofold f xs s)"
  by (induction xs arbitrary: s) (auto intro!: ensures_obind[where P = "\<lambda>_. True"])

section \<open>Queries\<close>

lemma sub_chk_returns [simp]: "returns (sub_chk False a b)"
  by (simp add: sub_chk_def)

lemma index_at_returns: "i < length xs \<Longrightarrow> returns (index_at xs i)"
  by (simp add: ensures_def)

lemma time_window_returns:
  assumes "t0 \<le> t1"
  shows "returns (time_window samples t0 t1)"
proof -
  have "time_window samples t0 t1 \<noteq> Panic" using assms by (rule time_window_no_panic)
  then show ?thesis by (auto simp: time_window_def Let_def slice_range_def ensures_def split: if_splits)
qed

lemma downsample_returns: "returns (downsample False t0 t1 k w)"
  unfolding downsample_def Let_def
  by (intro ensures_obind[where P = "\<lambda>_. True"] returns_ofold)
    (auto simp: bucket_step_def Let_def split: prod.splits intro!: ensures_obind[where P = "\<lambda>_. True"])

lemma query_scalar_returns [simp]: "returns (query_scalar False g ch t0 t1 k)"
  by (auto simp: query_scalar_def downsample_returns split: option.splits
      intro!: ensures_obind[OF time_window_returns])

lemma query_series_returns [simp]: "returns (query_series xss ch t0 t1 k)"
  by (auto simp: query_series_def Let_def split: option.splits intro!: ensures_obind[OF time_window_returns])

lemma query_raw_returns [simp]: "returns (query_raw g ch t0 t1 k)"
  by (simp add: query_raw_def)

lemma query_text_returns [simp]: "returns (query_text g ch t0 t1 k)"
  by (simp add: query_text_def)

lemma value_bounds_returns [simp]: "returns (value_bounds False g ch)"
  by (auto simp: value_bounds_def default_value_bounds_def Let_def split: option.splits list.splits prod.splits
      intro!: ensures_obind[where P = "\<lambda>_. True"])

lemma sample_scalar_at_returns: "returns (sample_scalar_at False s t)"
proof (cases "binary_search_by (\<lambda>x. if fst x < t then Less else if fst x = t then Equal else Greater) s")
  case (Ok i)
  then show ?thesis using binary_search_by_bounds(1)[OF Ok] by (simp add: sample_scalar_at_def)
next
  case (Err i)
  then show ?thesis using binary_search_by_bounds(2)[OF Err]
    by (auto simp: sample_scalar_at_def Let_def split: prod.splits
        intro!: ensures_obind[where P = "\<lambda>_. True"] index_at_returns)
qed (use binary_search_by_bounds(3) in blast)

lemma sample_state_at_returns: "returns (sample_state_at runs t)"
proof -
  have "idx - 1 < length runs" if "idx = partition_point (\<lambda>r. sr_t_start r \<le> t) runs" "idx \<noteq> 0" for idx
    using that partition_point_le[of "\<lambda>r. sr_t_start r \<le> t" runs] by simp
  then show ?thesis by (auto simp: sample_state_at_def Let_def intro!: ensures_obind[OF index_at_returns])
qed

lemma sample_at_returns [simp]: "store_wf g \<Longrightarrow> returns (sample_at False g ch t)"
  by (auto simp: sample_at_def index_at_wf sample_scalar_at_returns sample_state_at_returns
      split: option.splits channel_kind.splits)

section \<open>What is drawn\<close>

lemma clamp_returns:
  "f64_le lo hi \<Longrightarrow> returns (f64_clamp x lo hi)"
  by (simp add: f64_clamp_def)

lemma scalar_signals_returns: "returns (scalar_signals False g by_id panel win w)"
  by (auto simp: scalar_signals_def add_signal_def Let_def split: prod.splits
      intro!: returns_ofold ensures_obind[OF query_scalar_returns])

lemma link_deltas_returns:
  assumes "store_wf g"
  shows "returns (render_link_deltas False markers g signals ylo yhi)"
proof -
  have "returns (link_leg False g signals a b ch)" for a b ch
    using assms by (auto simp: link_leg_def Let_def split: option.splits intro!: ensures_obind[OF sample_at_returns])
  then show ?thesis
    by (auto simp: render_link_deltas_def link_items_def Let_def split: prod.splits
        intro!: ensures_obind[OF returns_omap])
qed

lemma nearest_signal_returns: "returns (nearest_signal signals t y)"
proof -
  have "returns (closer_signal t y s best)" for s best
    by (auto simp: closer_signal_def Let_def min_less_iff_disj split: prod.splits intro!: ensures_obind[OF index_at_returns])
  then show ?thesis by (auto simp: nearest_signal_def intro!: ensures_obind[OF returns_ofold])
qed

lemma xy_items_returns: "store_wf g \<Longrightarrow> returns (xy_items False g by_id xy win)"
  by (auto simp: xy_items_def xy_points_def add_xy_point_def Let_def split: prod.splits
      intro!: ensures_obind[where P = "\<lambda>_. True"] returns_ofold)

lemma heatmap_returns [simp]: "returns (heatmap_color t)"
  using heatmap_total[of t] by (auto simp: ensures_def)

lemma state_fill_returns: "returns (state_fill False path mode rng v)"
  by (auto simp: state_fill_def state_frac_def split: state_lane_mode.splits prod.splits
      intro!: ensures_obind[where P = "\<lambda>_. True"])

lemma state_lane_returns:
  assumes "store_wf g"
  shows "returns (state_lane_items False lib g markers ch info labels win px)"
proof -
  have "returns (state_lane_runs False g ch win)"
    using assms by (auto simp: state_lane_runs_def Let_def split: prod.splits intro!: ensures_obind[where P = "\<lambda>_. True"])
  moreover have "returns (state_lane_range False g ch runs)" for runs
    by (auto simp: state_lane_range_def intro!: ensures_obind[OF value_bounds_returns])
  moreover have "returns (state_bar False lib path labels mode rng win px r)" for path mode rng r
    by (auto simp: state_bar_def Let_def split: prod.splits intro!: ensures_obind[OF state_fill_returns])
  ultimately show ?thesis
    unfolding state_lane_items_def Let_def by (intro ensures_obind[where P = "\<lambda>_. True"] returns_omap) simp_all
qed

lemma logic_runs_return:
  assumes "store_wf g"
  shows "returns (logic_lane_runs False g by_id ch win w)"
proof -
  have "returns (fill_leading False g ch t0 out)" "returns (hold_latest False g ch t0 t1 out)"
    "returns (logic_state_runs False g ch t0 t1)" for t0 t1 out
    using assms by (auto simp: fill_leading_def hold_latest_def logic_state_runs_def Let_def
        split: list.splits option.splits intro!: ensures_obind[where P = "\<lambda>_. True"])
  then show ?thesis
    by (auto simp: logic_lane_runs_def logic_scalar_runs_def Let_def split: prod.splits option.splits channel_kind.splits
        intro!: ensures_obind[where P = "\<lambda>_. True"])
qed

lemma format_returns [simp]: "returns (format_logic_value False v radix)"
  by (cases radix) (auto simp: show_negated_def)

lemma logic_items_return: "returns (logic_lane_items False lib g markers ch path radix runs win px)"
proof -
  have "returns (sub_i64 False a b)" for a b by (simp add: sub_i64_def Let_def)
  moreover from this have "returns (logic_bar False lib path radix vmin spn win px r)" for vmin spn r
    by (auto simp: logic_bar_def Let_def split: prod.splits intro!: ensures_obind[where P = "\<lambda>_. True"])
  moreover have "returns (logic_lane_range False g ch runs)"
    by (auto simp: logic_lane_range_def intro!: ensures_obind[OF value_bounds_returns])
  ultimately show ?thesis
    by (auto simp: logic_lane_items_def Let_def split: prod.splits intro!: ensures_obind[where P = "\<lambda>_. True"] returns_omap)
qed

lemma lane_height_returns: "returns (lane_height available spacing n k)"
  unfolding lane_height_def Let_def by (rule clamp_returns) (simp add: f64_le_def)

subsection \<open>Log tables\<close>

lemma log_rows_return: "returns (log_view_rows False g by_id panel win)"
proof -
  have "returns (state_value_at runs t)" for runs t
  proof (cases runs)
    case (Some rs)
    have "idx - 1 < length rs" if "idx = partition_point (\<lambda>r. sr_t_start r \<le> t) rs" "idx \<noteq> 0" for idx
      using that partition_point_le[of "\<lambda>r. sr_t_start r \<le> t" rs] by simp
    then show ?thesis using Some by (auto simp: Let_def intro!: ensures_obind[OF index_at_returns])
  qed simp
  then have "returns (source_cell t src)" for t src
    by (cases "(t, src)" rule: source_cell.cases) (auto simp del: state_value_at.simps intro!: ensures_obind[where P = "\<lambda>_. True"])
  then have rows: "returns (make_row sources columns t)" for sources columns t
    by (auto simp: make_row_def add_cell_def intro!: ensures_obind[where P = "\<lambda>_. True"] returns_ofold)
  have "returns (column_source g t0 t1 ch k)" for t0 t1 ch k
    by (cases k) (auto intro!: ensures_obind[where P = "\<lambda>_. True"])
  then have "returns (add_source g by_id t0 t1 ch sources)" for t0 t1 ch sources
    by (auto simp: add_source_def split: option.splits intro!: ensures_obind[where P = "\<lambda>_. True"])
  then have build: "returns (build_log_rows g by_id columns t0 t1)" for columns t0 t1
    using rows by (auto simp: build_log_rows_def split: option.splits
        intro!: ensures_obind[where P = "\<lambda>_. True"] returns_ofold returns_omap)
  have sample: "returns (sample_even_over_time False rows n)" for rows n
    by (auto simp: sample_even_over_time_def sample_step_def Let_def split: prod.splits
        intro!: ensures_obind[where P = "\<lambda>_. True"] returns_ofold)
  have "length out \<le> k \<Longrightarrow> returns (fill_tiers False k tiers out)" for k tiers out
    using sample by (induction "False" k tiers out rule: fill_tiers.induct)
      (auto simp: Let_def intro!: ensures_obind[where P = "\<lambda>_. True"])
  then have "returns (truncate_rows False rows p k)" for rows p k
    using sample by (auto simp: truncate_rows_def Let_def split: option.splits intro!: ensures_obind[where P = "\<lambda>_. True"])
  then show ?thesis
    using build by (auto simp: log_view_rows_def Let_def split: prod.splits intro!: ensures_obind[where P = "\<lambda>_. True"])
qed

section \<open>The camera and the pointer\<close>

lemma zoom_by_scroll_returns: "returns (zoom_by_scroll ex scroll offset w cur cam)"
proof -
  have "returns (zoom_window factor None cam)" for factor
    by (auto simp: zoom_window_def ABS_MAX_NS_def f64_le_def intro!: ensures_obind[OF clamp_returns])
  then show ?thesis
    by (auto simp: zoom_by_scroll_def Let_def f64_le_def split: option.splits
        intro!: ensures_obind[where P = "\<lambda>_. True"] clamp_returns)
qed

lemma camera_returns:
  "returns (scroll_zoom_x ex in_rect scroll offset w cur cam)"
  "returns (handle_camera ex middle primary delta in_rect scroll offset w cur interactive avail cam)"
  by (simp_all add: scroll_zoom_x_def handle_camera_def zoom_by_scroll_returns Let_def)

lemma interaction_returns: "returns (handle_marker_interaction False ui mode signals ylo yhi ctx)"
proof -
  have link: "returns (marker_link False a b sg s)" "returns (add_linked_to False a t c sg s)" for a b sg s t c
    by (auto simp: marker_link_def add_linked_to_def Let_def split_beta)
  have "returns (place_marker False shift sg p s)" "returns (click_markers False shift sg hit pos s)" for shift sg p s hit pos
    by (auto simp: place_marker_def click_markers_def Let_def split_beta split: option.split bool.split
        intro!: ensures_obind[where P = "\<lambda>_. True"] link)
  moreover have "returns (drag_link ui ylo yhi c)" for c
    by (auto simp: drag_link_def Let_def f64_le_def split: option.split intro!: ensures_obind[OF clamp_returns])
  ultimately show ?thesis
    by (auto simp: handle_marker_interaction_def Let_def split: option.split intro!: ensures_obind[where P = "\<lambda>_. True"])
qed

section \<open>Renderers\<close>

lemma scalar_section_returns:
  assumes "store_wf (pe_store env)"
  shows "returns (render_scalar_section fl False env ui menu pid panel win ctx)"
proof -
  have "returns (select_signal env ui pid signals markers plots)" for signals markers plots
    by (auto simp: select_signal_def Let_def split: option.split intro!: ensures_obind[OF nearest_signal_returns])
  then show ?thesis unfolding render_scalar_section_def Let_def split_beta
    by (intro ensures_obind[OF scalar_signals_returns] ensures_obind[OF link_deltas_returns[OF assms]]
      ensures_obind[OF interaction_returns] ensures_obind[where P = "\<lambda>_. True"] camera_returns(2)) simp_all
qed

lemma lane_dispatch_returns:
  assumes "store_wf (pe_store env)"
  shows "returns (render_lane_dispatch fl False env ui pid lane win ctx)"
proof -
  have i: "returns (lane_interact fl False env u w c)" for u w c
    unfolding lane_interact_def Let_def split_beta
    by (intro ensures_obind[OF interaction_returns] ensures_obind[OF camera_returns(1)]) simp
  show ?thesis
    unfolding render_lane_dispatch_def render_state_lane_def render_logic_lane_def split_beta
    by (auto split: lane_mode.split option.split channel_kind.split
        intro!: ensures_obind[OF state_lane_returns[OF assms]] ensures_obind[OF logic_runs_return[OF assms]]
          ensures_obind[OF logic_items_return] ensures_obind[OF i])
qed

lemma lane_groups_flat:
  fixes panel :: logic_analyser_panel
  shows "sum_list (map (\<lambda>g. length (snd g)) (lane_groups by_id panel)) = length (lp_lanes panel)"
    and "g \<in> set (lane_groups by_id panel) \<Longrightarrow> i \<in> set (snd g) \<Longrightarrow> i < length (lp_lanes panel)"
proof -
  let ?order = "group_then_name_order (map (resolve_lane by_id) (lp_lanes panel))"
  have flat: "concat (map (\<lambda>(k, is). map (\<lambda>i. (i, k)) is) (lane_groups by_id panel)) = ?order"
    unfolding lane_groups_def by (rule collapse_groups_flat)
  have "length ?order = length (lp_lanes panel)" by (simp add: group_then_name_order_def)
  moreover have "length (concat (map (\<lambda>(k, is). map (\<lambda>i. (i, k)) is) gs)) = sum_list (map (\<lambda>g. length (snd g)) gs)"
    for gs :: "(string \<times> usize list) list" by (induction gs) auto
  ultimately show "sum_list (map (\<lambda>g. length (snd g)) (lane_groups by_id panel)) = length (lp_lanes panel)"
    using flat by metis
  assume "g \<in> set (lane_groups by_id panel)" "i \<in> set (snd g)"
  then have "(i, fst g) \<in> set ?order" unfolding flat[symmetric] by (auto simp: split_beta intro!: bexI[of _ g])
  then show "i < length (lp_lanes panel)"
    by (auto simp: group_then_name_order_def dest!: set_zip_leftD)
qed

lemma logic_analyser_returns:
  assumes "store_wf (pe_store env)"
  shows "returns (render_logic_analyser fl False env available spacing ui uis pid panel ctx)"
proof -
  have lane: "returns (render_lane fl False env uis pid (lp_lanes panel) win i s)" if "i < length (lp_lanes panel)" for win i s
    unfolding render_lane_def split_beta
    by (intro ensures_obind[OF index_at_returns[OF that]] ensures_obind[OF lane_dispatch_returns[OF assms]]) simp
  have "returns (render_group fl False env uis pid (lp_lanes panel) win h g s)"
    if "g \<in> set (lane_groups (pe_by_id env) panel)" for win h g s
    unfolding render_group_def split_beta
    by (rule ensures_obind[OF returns_ofold[OF lane]]) (use lane_groups_flat(2)[OF that] in simp_all)
  then show ?thesis
    by (auto simp: render_logic_analyser_def Let_def split_beta split: option.split intro!: ensures_obind[OF camera_returns(1)]
        ensures_obind[OF lane_height_returns] ensures_obind[OF returns_ofold])
qed

lemma log_view_returns: "returns (render_log_view fl False env ui pid panel ctx)"
  by (auto simp: render_log_view_def Let_def split_beta split: option.split plot_kind.split
      intro!: ensures_obind[OF log_rows_return])

lemma render_plot_returns:
  assumes "store_wf (pe_store env)"
  shows "returns (render_plot fl False env ui pid ctx)"
  using scalar_section_returns[OF assms] logic_analyser_returns[OF assms] log_view_returns xy_items_returns[OF assms]
  by (auto simp: render_plot_def render_scalar_plot_def render_xy_def split: option.split plot_kind.split
      intro!: ensures_obind[where P = "\<lambda>_. True"])

end
