(* ===== verification/Frame_Inv.thy ===== *)
theory Frame_Inv
  imports Frame_Safe
begin

text \<open>
  What a frame of a plot keeps. The renderers change plots and markers only through the operations of
  \<open>view_state.rs\<close>; the locale \<open>frame_invariant\<close> states what an invariant has to promise for these operations,
  its lemmas carry the invariant through every renderer.
\<close>

section \<open>Results of operations that return\<close>

definition yields :: "('a, 'e) outcome \<Rightarrow> ('a \<Rightarrow> bool) \<Rightarrow> bool" where
  "yields m P \<longleftrightarrow> (\<forall>x. m = Ok x \<longrightarrow> P x)"

lemma yields_Ok [simp]: "yields (Ok x) P \<longleftrightarrow> P x"
  by (simp add: yields_def)

lemma yields_any [simp]: "yields m (\<lambda>_. True)"
  by (simp add: yields_def)

lemma yields_obind: "yields m P \<Longrightarrow> (\<And>x. P x \<Longrightarrow> yields (f x) Q) \<Longrightarrow> yields (obind m f) Q"
  by (auto simp: yields_def outcome_simps)

lemmas yields_skip = yields_obind[OF yields_any]

lemma yields_mono: "yields m P \<Longrightarrow> (\<And>x. P x \<Longrightarrow> Q x) \<Longrightarrow> yields m Q"
  by (auto simp: yields_def)

text \<open>A loop whose steps use up a budget.\<close>

lemma yields_ofold_budget:
  fixes w :: "'a \<Rightarrow> nat"
  assumes "J k s" and "k + sum_list (map w xs) \<le> b"
    and "\<And>k x s. x \<in> set xs \<Longrightarrow> J k s \<Longrightarrow> k + w x \<le> b \<Longrightarrow> yields (f x s) (J (k + w x))"
  shows "yields (ofold f xs s) (J (k + sum_list (map w xs)))"
  using assms
proof (induction xs arbitrary: k s)
  case (Cons x xs)
  have step: "yields (f x s) (J (k + w x))" using Cons.prems(1,2) by (intro Cons.prems(3)) auto
  have rest: "yields (ofold f xs s') (J (k + w x + sum_list (map w xs)))" if "J (k + w x) s'" for s'
    by (rule Cons.IH[OF that]) (use Cons.prems in auto)
  show ?case unfolding ofold.simps by (rule yields_obind[OF step]) (use rest in \<open>simp add: add.assoc\<close>)
qed simp

section \<open>Edits keep panels typed\<close>

lemma on_scalar_ok:
  "(\<And>p. panel_ok by_id (PK_Scalar p) \<Longrightarrow> panel_ok by_id (PK_Scalar (f p))) \<Longrightarrow> panel_ok by_id k
    \<Longrightarrow> panel_ok by_id (on_scalar f k)"
  by (cases k) (simp_all del: panel_ok.simps)

lemma on_logic_ok:
  "(\<And>p. panel_ok by_id (PK_LogicAnalyser p) \<Longrightarrow> panel_ok by_id (PK_LogicAnalyser (f p))) \<Longrightarrow> panel_ok by_id k
    \<Longrightarrow> panel_ok by_id (on_logic f k)"
  by (cases k) (simp_all del: panel_ok.simps)

lemma on_log_ok:
  "(\<And>p. hm_ok (lv_filters p) \<Longrightarrow> hm_ok (lv_filters (f p))) \<Longrightarrow> panel_ok by_id k \<Longrightarrow> panel_ok by_id (on_log f k)"
  by (cases k) simp_all

lemma click_ok:
  "panel_ok by_id (PK_Scalar p) \<Longrightarrow> panel_ok by_id (PK_Scalar (click_signal c ch p))"
  "panel_ok by_id (PK_Scalar p) \<Longrightarrow> panel_ok by_id (PK_Scalar (p\<lparr>sp_selected_signals := {}\<rparr>))"
  "panel_ok by_id (PK_Scalar p) \<Longrightarrow> panel_ok by_id (PK_Scalar (set_style ch st p))"
  by (simp_all add: click_signal_def set_style_def)

lemma log_menus_filters: "lv_filters (log_menus env ui meta p) = lv_filters p"
proof -
  have "lv_filters (fold (tick_column ui) meta p) = lv_filters p" for p
    by (induction meta arbitrary: p) (auto simp: tick_column_def show_column_def Let_def split: prod.splits)
  then show ?thesis
    by (auto simp: log_menus_def pick_def colour_by_def prioritise_by_def set_max_rows_def Let_def split: option.split)
qed

lemma edit_filter_ok: "hm_ok (lv_filters p) \<Longrightarrow> hm_ok (lv_filters (edit_filter env ui meta col p))"
proof -
  assume ok: "hm_ok (lv_filters p)"
  have put: "hm_ok (lv_filters (put_filter c b f p))" for c b f using ok by (simp add: put_filter_def)
  have "hm_ok (lv_filters (render_column_filter_editor fu c k p))" for fu c k
    using ok put by (cases "(fu, c, k, p)" rule: render_column_filter_editor.cases) (simp_all add: Let_def split_beta)
  then show ?thesis using ok by (auto simp: edit_filter_def clear_filter_def Let_def split: option.split)
qed

lemma edit_filters_ok: "hm_ok (lv_filters p) \<Longrightarrow> hm_ok (lv_filters (fold (edit_filter env ui meta) cols p))"
  by (induction cols arbitrary: p) (simp_all add: edit_filter_ok)

lemmas edits_typed = on_scalar_ok on_logic_ok on_log_ok click_ok scalar_panel_remove_ok logic_panel_remove_ok
  set_radix_ok edit_filters_ok

section \<open>Invariants\<close>

definition plot_areas :: "plot_registry \<Rightarrow> plot_id \<Rightarrow> nat" where
  "plot_areas r pid =
     (case registry_get r pid of
        Some (PK_Scalar _) \<Rightarrow> 1
      | Some (PK_LogicAnalyser p) \<Rightarrow> length (lp_lanes p)
      | _ \<Rightarrow> 0)"

text \<open>
  An invariant of plots and markers, indexed by a count: kept by edits that keep panels typed, by moving a
  channel of the store, and by a frame of pointer input, which uses up five. \<open>room\<close> says that the
  count may grow.
\<close>

locale frame_invariant =
  fixes chk :: bool and env :: plot_env and room :: "nat \<Rightarrow> bool"
    and I :: "nat \<Rightarrow> plot_registry \<Rightarrow> marker_set \<Rightarrow> bool"
  assumes weaken: "I n p s \<Longrightarrow> n \<le> m \<Longrightarrow> I m p s"
    and room_le: "room m \<Longrightarrow> n \<le> m \<Longrightarrow> room n"
    and modify: "I n p s \<Longrightarrow> (\<And>k. panel_ok (pe_by_id env) k \<Longrightarrow> panel_ok (pe_by_id env) (f k))
      \<Longrightarrow> I n (registry_modify pid f p) s"
    and move: "I n p s \<Longrightarrow> pe_by_id env ch = Some info \<Longrightarrow> I n (snd (try_move_channel src dst ch info radix p)) s"
    and pointer: "I n p (mc_markers c) \<Longrightarrow> room n \<Longrightarrow> handle_marker_interaction chk ui mode signals ylo yhi c = Ok c'
      \<Longrightarrow> I (n + 5) p (mc_markers c')"
begin

abbreviation J :: "nat \<Rightarrow> plot_ctx \<Rightarrow> bool" where
  "J n ctx \<equiv> I n (px_plots ctx) (mc_markers (px_marks ctx))"

lemma menu_move_keeps: "I n p s \<Longrightarrow> I n (menu_move env pid ch radix target p) s"
  by (auto simp: menu_move_def move split: option.split)

lemma signal_menu_keeps: "I n p s \<Longrightarrow> I n (signal_style_menu env pid m p) s"
  by (auto simp: signal_style_menu_def Let_def simp del: panel_ok.simps split: option.split plot_kind.split
      intro!: modify menu_move_keeps edits_typed)

lemma menu_mode_keeps: "I n p s \<Longrightarrow> I n (menu_mode env pid ch mode p) s"
proof (cases mode)
  case (Some m)
  have "panel_ok (pe_by_id env) (PK_LogicAnalyser (set_mode ch m p))"
    if "panel_ok (pe_by_id env) (PK_LogicAnalyser p)"
      "\<not> (m = Named \<and> \<not> (case pe_by_id env ch of None \<Rightarrow> False | Some i \<Rightarrow> channel_has_labels i))" for p
    using that(2) by (intro set_mode_ok[OF that(1)]) (cases m; auto split: option.splits)
  moreover assume "I n p s"
  ultimately show ?thesis using Some
    by (auto simp: menu_mode_def simp del: panel_ok.simps intro!: modify on_logic_ok)
qed (simp add: menu_mode_def)

lemma lane_menus_keep:
  assumes "I n p s"
  shows "I n (state_lane_menu env pid ch m p) s" and "I n (logic_lane_menu env pid ch radix m p) s"
proof -
  have m: "I n (menu_remove pid ch b q) s" "I n (menu_radix pid ch r q) s" if "I n q s" for b r q
    using that by (auto simp: menu_remove_def menu_radix_def simp del: panel_ok.simps split: option.split
        intro!: modify edits_typed)
  show "I n (state_lane_menu env pid ch m p) s" "I n (logic_lane_menu env pid ch radix m p) s"
    unfolding state_lane_menu_def logic_lane_menu_def by (intro m menu_mode_keeps menu_move_keeps assms)+
qed

lemma pointer_yields: "J n ctx \<Longrightarrow> room n \<Longrightarrow>
  yields (handle_marker_interaction chk ui mode signals ylo yhi (px_marks ctx)) (\<lambda>c. I (n + 5) (px_plots ctx) (mc_markers c))"
  by (simp add: yields_def pointer)

lemma select_yields:
  "I n p s \<Longrightarrow> yields (select_signal env ui pid signals markers p) (\<lambda>p'. I n p' s)"
  by (auto simp: select_signal_def Let_def simp del: panel_ok.simps split: option.split
      intro!: modify edits_typed yields_skip)

lemma scalar_section_yields:
  assumes "J n ctx" and "room n"
  shows "yields (render_scalar_section fl chk env ui menu pid panel win ctx) (\<lambda>(_, ctx'). J (n + 5) ctx')"
  unfolding render_scalar_section_def Let_def split_beta
  by (rule yields_skip, rule yields_skip, rule yields_obind[OF pointer_yields[OF assms]],
      rule yields_obind[OF select_yields], assumption, rule yields_skip)
    (auto split: option.split intro: signal_menu_keeps)

lemma lane_interact_yields:
  assumes "J n ctx" and "room n"
  shows "yields (lane_interact fl chk env ui win ctx) (J (n + 5))"
  unfolding lane_interact_def Let_def split_beta
  by (rule yields_obind[OF pointer_yields[OF assms]], rule yields_skip) simp

lemma lane_yields:
  assumes "J n ctx" and "room n"
  shows "yields (render_lane_dispatch fl chk env ui pid lane win ctx) (\<lambda>(_, ctx'). J (n + 5) ctx')"
proof -
  have menus: "J n (ctx\<lparr>px_plots := state_lane_menu env pid ch m (px_plots ctx)\<rparr>)"
    "J n (ctx\<lparr>px_plots := logic_lane_menu env pid ch radix m (px_plots ctx)\<rparr>)" for ch m radix
    using lane_menus_keep[OF assms(1)] by simp_all
  note interact = menus[THEN lane_interact_yields[OF _ assms(2), where win = win]]
  have stay: "J (n + 5) ctx" using assms(1) by (rule weaken) simp
  have state: "yields (obind items (\<lambda>is. obind (lane_interact fl chk env (fst ui) win
      (ctx\<lparr>px_plots := state_lane_menu env pid ch m (px_plots ctx)\<rparr>)) (\<lambda>c. Ok (is, c)))) (\<lambda>(_, c). J (n + 5) c)"
    for items :: "item list run" and ch m
    by (rule yields_skip, rule yields_obind[OF interact(1)]) simp
  have logic: "yields (obind items (\<lambda>is. obind (lane_interact fl chk env (fst ui) win
      (ctx\<lparr>px_plots := logic_lane_menu env pid ch radix m (px_plots ctx)\<rparr>)) (\<lambda>c. Ok (is, c)))) (\<lambda>(_, c). J (n + 5) c)"
    for items :: "item list run" and ch radix m
    by (rule yields_skip, rule yields_obind[OF interact(2)]) simp
  show ?thesis
  proof (cases "ll_mode lane")
    case Named
    then show ?thesis using stay state
      by (simp add: render_lane_dispatch_def render_state_lane_def split_beta split: option.split channel_kind.split)
  next
    case Numeric
    have "yields (obind runs (\<lambda>r. case (pe_by_id env ch, r) of (Some info, Some rs) \<Rightarrow> obind (items info rs) (\<lambda>is.
        obind (lane_interact fl chk env (fst ui) win (ctx\<lparr>px_plots := logic_lane_menu env pid ch radix m (px_plots ctx)\<rparr>))
          (\<lambda>c. Ok (is, c))) | _ \<Rightarrow> Ok ([], ctx))) (\<lambda>(_, c). J (n + 5) c)"
      for runs :: "logic_run list option run" and items :: "channel_info \<Rightarrow> logic_run list \<Rightarrow> item list run" and ch radix m
      using stay logic by (intro yields_skip) (simp split: option.split)
    then show ?thesis using Numeric by (simp add: render_lane_dispatch_def render_logic_lane_def split_beta)
  qed
qed

lemma logic_analyser_yields:
  assumes "J n ctx" and "room (n + 5 * length (lp_lanes panel))"
  shows "yields (render_logic_analyser fl chk env available spacing ui uis pid panel ctx)
    (\<lambda>(_, ctx'). J (n + 5 * length (lp_lanes panel)) ctx')"
proof (cases "pe_view env = None \<or> lp_lanes panel = []")
  case True
  have "J (n + 5 * length (lp_lanes panel)) ctx" using assms(1) by (rule weaken) simp
  then show ?thesis using True by (auto simp: render_logic_analyser_def Let_def split: option.split)
next
  case False
  then obtain t0 t1 where v: "pe_view env = Some (t0, t1)" by auto
  let ?lanes = "lp_lanes panel" and ?J = "\<lambda>k s. J (n + 5 * k) (snd s)" and ?gs = "lane_groups (pe_by_id env) panel"
  have lane: "yields (render_lane fl chk env uis pid ?lanes (t0, t1) i s) (?J (k + 1))"
    if "?J k s" "k + 1 \<le> length ?lanes" for i s k
  proof -
    have "room (n + 5 * k)" by (rule room_le[OF assms(2)]) (use that(2) in simp)
    note step = lane_yields[OF that(1) this]
    show ?thesis unfolding render_lane_def split_beta
      by (rule yields_skip, rule yields_obind[OF step]) (auto simp: algebra_simps)
  qed
  have group: "yields (render_group fl chk env uis pid ?lanes (t0, t1) h g s) (?J (k + length (snd g)))"
    if "?J k s" "k + length (snd g) \<le> length ?lanes" for g s k h
  proof -
    have "yields (ofold (render_lane fl chk env uis pid ?lanes (t0, t1)) (snd g) ([], snd s))
        (?J (k + sum_list (map (\<lambda>_. 1) (snd g))))"
      by (rule yields_ofold_budget[where b = "length ?lanes"]) (use that lane in \<open>auto simp: sum_list_triv\<close>)
    then show ?thesis unfolding render_group_def split_beta
      by (rule yields_obind) (auto simp: sum_list_triv)
  qed
  have c: "?J 0 ([], ctx\<lparr>px_cam := cam, px_scroll := sc\<rparr>)" for cam sc using assms(1) by simp
  have loop: "yields (ofold (render_group fl chk env uis pid ?lanes (t0, t1) h) ?gs
      ([], ctx\<lparr>px_cam := cam, px_scroll := sc\<rparr>)) (?J (length ?lanes))" for cam sc h
    using yields_ofold_budget[of ?J 0, OF c, of "\<lambda>g. length (snd g)" ?gs "length ?lanes", OF _ group]
      lane_groups_flat(1)[of "pe_by_id env" panel] by simp
  have ne: "lp_lanes panel \<noteq> []" using False by simp
  show ?thesis unfolding render_logic_analyser_def v option.case prod.case Let_def if_not_P[OF ne]
    by (rule yields_skip, rule yields_skip, rule yields_obind[OF loop]) (simp add: split_beta)
qed

lemma log_view_yields:
  assumes "J n ctx"
  shows "yields (render_log_view fl chk env ui pid panel ctx) (\<lambda>(_, ctx'). J n ctx')"
proof -
  have "I n (registry_modify pid (on_log (log_menus env ui meta)) (px_plots ctx)) (mc_markers (px_marks ctx))" for meta
    using assms by (auto simp: log_menus_filters intro!: modify on_log_ok)
  moreover have "I n (registry_modify pid (on_log (fold (edit_filter env ui meta) cols)) p) s" if "I n p s" for meta cols p s
    using that by (intro modify on_log_ok edit_filters_ok)
  ultimately show ?thesis using assms
    by (auto simp: render_log_view_def Let_def split_beta split: option.split plot_kind.split intro!: yields_skip)
qed

text \<open>The areas of a plot in which markers can be edited use up the count.\<close>

lemma render_plot_yields:
  assumes "J n ctx" and "room (n + 5 * plot_areas (px_plots ctx) pid)"
  shows "yields (render_plot fl chk env ui pid ctx) (\<lambda>(_, ctx'). J (n + 5 * plot_areas (px_plots ctx) pid) ctx')"
proof (cases "registry_get (px_plots ctx) pid")
  case (Some k)
  show ?thesis
  proof (cases k)
    case (PK_Scalar panel)
    have "J (n + 5) ctx" using assms(1) by (rule weaken) simp
    moreover have "room n" using assms(2) by (rule room_le) simp
    ultimately show ?thesis using Some PK_Scalar assms(1)
      by (auto simp: render_plot_def render_scalar_plot_def plot_areas_def split: option.split
          intro!: yields_obind[OF scalar_section_yields[OF assms(1)]])
  next
    case (PK_LogicAnalyser panel)
    then show ?thesis using logic_analyser_yields[OF assms(1)] assms(2) Some by (simp add: render_plot_def plot_areas_def)
  next
    case (PK_LogView panel)
    then show ?thesis using Some log_view_yields[OF assms(1)] by (simp add: render_plot_def plot_areas_def)
  next
    case (PK_XY xy)
    then show ?thesis using Some assms(1)
      by (auto simp: render_plot_def render_xy_def plot_areas_def split: option.split intro!: yields_skip)
  qed
qed (use assms in \<open>simp add: render_plot_def plot_areas_def\<close>)

end

section \<open>Typed plots, reachable markers\<close>

text \<open>The plots after some edits of a frame: still typed, the same ids, the next id unchanged.\<close>

definition kept :: "(channel_id \<rightharpoonup> channel_info) \<Rightarrow> plot_registry \<Rightarrow> plot_registry \<Rightarrow> bool" where
  "kept by_id r r' \<longleftrightarrow> registry_ok by_id r' \<and> pr_next_id r' = pr_next_id r \<and> fst ` set (pr_plots r') = fst ` set (pr_plots r)"

definition ids_agree :: "(channel_id \<rightharpoonup> channel_info) \<Rightarrow> bool" where
  "ids_agree by_id \<longleftrightarrow> (\<forall>ch info. by_id ch = Some info \<longrightarrow> ci_id info = ch)"

lemma kept_move:
  "ids_agree by_id \<Longrightarrow> kept by_id r p \<Longrightarrow> by_id ch = Some info
    \<Longrightarrow> kept by_id r (snd (try_move_channel src dst ch info radix p))"
  using try_move_ok[of by_id p info] by (auto simp: kept_def ids_agree_def try_move_next_keys)

interpretation typed: frame_invariant chk env "\<lambda>n. n + 8 < 2 ^ 64"
  "\<lambda>n p s. ids_agree (pe_by_id env) \<longrightarrow> kept (pe_by_id env) r p \<and> (\<exists>m\<le>n. markers_reach chk m s)" for chk env r
proof
  fix n p c ui mode signals ylo yhi c'
  assume a: "ids_agree (pe_by_id env) \<longrightarrow> kept (pe_by_id env) r p \<and> (\<exists>m\<le>n. markers_reach chk m (mc_markers c))"
    "n + 8 < 2 ^ 64" "handle_marker_interaction chk ui mode signals ylo yhi c = Ok c'"
  have "\<exists>m\<le>n + 5. markers_reach chk m (mc_markers c')" if m: "m \<le> n" "markers_reach chk m (mc_markers c)" for m
  proof -
    obtain k where "k \<le> 5" "markers_reach chk (m + k) (mc_markers c')"
      using marker_interaction_reach[OF m(2), of ui mode signals ylo yhi] a(2,3) m(1) by auto
    then show ?thesis using m(1) by (intro exI[of _ "m + k"]) simp
  qed
  then show "ids_agree (pe_by_id env) \<longrightarrow> kept (pe_by_id env) r p \<and> (\<exists>m\<le>n + 5. markers_reach chk m (mc_markers c'))"
    using a(1) by blast
qed (auto simp: kept_move, auto simp: kept_def registry_ok_modify registry_modify_keys intro: order_trans)

lemma render_plot_gone:
  "render_plot fl chk env ui pid ctx = Ok (scr, ctx') \<Longrightarrow> scr = Gone \<longleftrightarrow> registry_get (px_plots ctx) pid = None"
  by (auto simp: render_plot_def render_scalar_plot_def render_logic_analyser_def render_log_view_def render_xy_def
      outcome_simps Let_def split_beta registry_get_modify split: option.splits plot_kind.splits if_splits)

section \<open>Properties\<close>


definition pane_ex :: pane_ui where
  "pane_ex = \<lparr>pa_pointer = ui_ex, pa_middle = False, pa_primary = False, pa_delta = Fin 0, pa_in_rect = True,
     pa_offset = Some (Fin 10), pa_width = Fin 400, pa_width_px = 400, pa_px_per_sec = Fin 40,
     pa_bounds = (Fin 0, Fin 10), pa_ctrl = False, pa_hover_t = Some (Fin 2), pa_hovered = True\<rparr>"

definition log_ui_ex :: log_ui where
  "log_ui_ex = \<lparr>lgu_box = (\<lambda>_ b. b), lgu_colour = None, lgu_priority = None, lgu_max_rows = None,
     lgu_filter = (\<lambda>_. None), lgu_clear = (\<lambda>_. False), lgu_click = (\<lambda>_. False), lgu_double = (\<lambda>_. False),
     lgu_width = Fin 400\<rparr>"

definition tab_ex :: tab_ui where
  "tab_ex = \<lparr>tu_pane = pane_ex, tu_signal = None,
     tu_lane = (\<lambda>_. (pane_ex, \<lparr>lm_move = Some 0, lm_mode = Some Named, lm_radix = Some Bin, lm_remove = False\<rparr>)),
     tu_log = log_ui_ex, tu_height = Fin 300, tu_spacing = Fin 4\<rparr>"

definition env_ex :: plot_env where
  "env_ex = \<lparr>pe_store = store_run [Add_scalar_int ''imu.speed'', Push_scalar 0 10 (Fin 4), Push_scalar 0 20 (Fin 8)],
     pe_view = Some (5, 30),
     pe_by_id = [0 \<mapsto> \<lparr>ci_id = 0, ci_path = ''imu.speed'', ci_kind = CK_Scalar, ci_integer_storage = True\<rparr>],
     pe_marker_mode = True\<rparr>"

definition ctx_ex :: plot_ctx where
  "ctx_ex = \<lparr>px_plots = \<lparr>pr_plots = [(0, PK_Scalar (scalar_panel_new ''a'')),
       (1, PK_LogicAnalyser \<lparr>lp_title = ''b'', lp_lanes = [\<lparr>ll_ch = 0, ll_mode = Numeric, ll_radix = Hex\<rparr>]\<rparr>)],
       pr_next_id = 2\<rparr>,
     px_cam = camera_default,
     px_marks = \<lparr>mc_markers = markers_new, mc_dragging_marker = None, mc_dragging_link = None\<rparr>,
     px_cursor_t = None, px_highlights = {}, px_scroll = Fin 3\<rparr>"

definition lib_ex :: frame_lib where
  "lib_ex = \<lparr>fl_exp = (\<lambda>x. x), fl_paint = plain_paint, fl_times = (\<lambda>_. []), fl_channels = (\<lambda>_. [])\<rparr>"


end
