(* ===== verification/Update.thy ===== *)
theory Update
  imports Reachable Frame_Inv
begin

text \<open>
  One frame of the application: \<open>ViewerApp::update\<close> of \<open>viewer/crates/btelem-viewer/src/app.rs\<close> with the
  top bar, its menus, the channel tree, the cursor panel and the tabs. What the user does in the frame
  and what the libraries provide are records of arguments. The frame is shown to be a run of the
  transition system of \<open>Reachable\<close>.
\<close>

section \<open>Libraries\<close>

text \<open>The docking library, JSON, the directory of layouts, and what the renderers use.\<close>

record ('d, 'u, 'v) app_lib =
  al_dock :: "('d, 'u, 'v) dock_lib"
  al_split :: "plot_id list \<Rightarrow> 'd \<Rightarrow> 'd"
  al_from_slice :: "bytes \<Rightarrow> 'v layout option"
  al_to_vec :: "'v layout \<Rightarrow> bytes option"
  al_hash_order :: "(u64, usize list) hashmap \<Rightarrow> (u64 \<times> usize list) list"
  al_config_dir :: "string option"
  al_entries :: "file_system \<Rightarrow> (string \<times> bytes option) list option"
  al_frame :: frame_lib

section \<open>Starting\<close>

text \<open>
  \<open>main\<close>: a path that does not exist ends the program with a message; otherwise the window builds the
  application.
\<close>

definition missing_path :: "(string \<Rightarrow> bool) \<Rightarrow> args \<Rightarrow> string option" where
  "missing_path path_exists args =
     (case (ar_file args, ar_layout args) of
        (Some f, l) \<Rightarrow>
          if \<not> path_exists f then Some (''error: file not found: '' @ f)
          else (case l of
                  Some p \<Rightarrow> if path_exists p then None else Some (''error: layout file not found: '' @ p)
                | None \<Rightarrow> None)
      | (None, Some p) \<Rightarrow> if path_exists p then None else Some (''error: layout file not found: '' @ p)
      | (None, None) \<Rightarrow> None)"

definition viewer_main :: "(string \<Rightarrow> bool) \<Rightarrow> ('d, 'u, 'v) app_lib \<Rightarrow> nat \<Rightarrow> (connect_result list \<times> bool) list \<Rightarrow> args
    \<Rightarrow> string + 'd viewer option run" where
  "viewer_main path_exists L now attempts args =
     (case missing_path path_exists args of
        Some msg \<Rightarrow> Inl msg
      | None \<Rightarrow> Inr (viewer_new (al_dock L) (al_split L) now attempts args))"

lemma viewer_main_session:
  "viewer_main path_exists L now attempts args = Inr (Ok (Some v))
    \<Longrightarrow> session chk (al_dock L) (al_split L) (al_from_slice L) 2 (fs, [], v)"
  by (auto simp: viewer_main_def split: option.splits intro: session.start)

section \<open>The top bar\<close>

text \<open>The Layouts menu offers the saved layouts by name.\<close>

record layouts_ui =
  lu_save :: bool
  lu_save_as :: bool
  lu_load :: "string option"
  lu_delete :: "string option"

definition layouts_menu :: "('d, 'u, 'v) app_lib \<Rightarrow> layouts_ui \<Rightarrow> file_system \<times> 'd viewer \<Rightarrow> (file_system \<times> 'd viewer) run" where
  "layouts_menu L ui = (\<lambda>(fs, v).
     let saved = (case list_layouts (al_from_slice L) (al_entries L fs) of Ok names \<Rightarrow> names | _ \<Rightarrow> []) in
     obind (if lu_save ui then menu_save_layout (al_dock L) (al_to_vec L) (al_config_dir L) fs v else Ok (fs, v)) (\<lambda>(fs, v).
     let v = on_key (lu_save_as ui) menu_save_as v in
     obind (case lu_load ui of
              Some name \<Rightarrow>
                if name \<in> set saved
                then do_load_layout (al_dock L) (al_hash_order L) (al_from_slice L) (al_config_dir L) (fs_files fs) name v
                else Ok v
            | None \<Rightarrow> Ok v) (\<lambda>v.
     Ok (fs, case lu_delete ui of Some name \<Rightarrow> if name \<in> set saved then menu_delete name v else v | None \<Rightarrow> v))))"

text \<open>The Capture menu: a click on Save or Open opens a dialog, which returns a path or nothing.\<close>

record capture_ui =
  cu_save :: "string option option"
  cu_open :: "string option option"
  cu_clear :: bool

definition do_open_capture :: "bool \<Rightarrow> nat \<Rightarrow> ('d, 'u, 'v) app_lib \<Rightarrow> string option \<Rightarrow> file_system \<Rightarrow> 'd viewer
    \<Rightarrow> 'd viewer run" where
  "do_open_capture chk now L choice fs v =
     (case choice of
        Some path \<Rightarrow> load_capture_file chk now (al_dock L) (al_from_slice L) path fs v
      | None \<Rightarrow> Ok v)"

text \<open>Whether Save and Clear are enabled is decided before either acts.\<close>

definition capture_menu :: "bool \<Rightarrow> nat \<Rightarrow> ('d, 'u, 'v) app_lib \<Rightarrow> capture_ui \<Rightarrow> file_system \<times> 'd viewer
    \<Rightarrow> (file_system \<times> 'd viewer) run" where
  "capture_menu chk now L ui = (\<lambda>(fs, v).
     let enabled = has_data (vw_capture v); v = on_key (cu_clear ui) menu_clear v in
     obind (case cu_save ui of
              Some choice \<Rightarrow> if enabled then do_save_capture (al_dock L) (al_to_vec L) choice fs v else Ok (fs, v)
            | None \<Rightarrow> Ok (fs, v)) (\<lambda>(fs, v).
     obind (case cu_open ui of Some choice \<Rightarrow> do_open_capture chk now L choice fs v | None \<Rightarrow> Ok v) (\<lambda>v.
     Ok (fs, v))))"

text \<open>The text on the right.\<close>

definition counts_text :: "f64 \<Rightarrow> 'd viewer \<Rightarrow> string" where
  "counts_text rate v =
     show_nat (length (st_channels (vw_store v))) @ '' channels'' @ middle_dot
       @ ''rev '' @ show_nat (unat (st_revision (vw_store v))) @ middle_dot
       @ fmt_fixed 0 rate @ '' samp/s'' @ middle_dot
       @ show_nat (markers_len (vw_markers v)) @ '' markers''"

record bar_ui =
  bu_expired :: bool
  bu_connection :: bool
  bu_follow :: bool
  bu_pan :: bool
  bu_window :: "f64 option"
  bu_scalar :: bool
  bu_logic :: bool
  bu_log :: bool
  bu_marker :: bool
  bu_home :: bool
  bu_layouts :: layouts_ui
  bu_capture :: capture_ui

text \<open>The buttons up to the two menus.\<close>

definition bar_buttons :: "('d, 'u, 'v) app_lib \<Rightarrow> bar_ui \<Rightarrow> 'd viewer \<Rightarrow> 'd viewer" where
  "bar_buttons L ui v =
     (let v = expire_flash (bu_expired ui) v;
          v = on_key (bu_connection ui) open_connection_dialog v;
          v = on_key (bu_follow ui) (\<lambda>v. v\<lparr>vw_cam := pick_time_base Follow (vw_cam v)\<rparr>) v;
          v = on_key (bu_pan ui) (\<lambda>v. v\<lparr>vw_cam := pick_time_base Pan (vw_cam v)\<rparr>) v;
          v = (case bu_window ui of Some secs \<Rightarrow> v\<lparr>vw_cam := pick_window secs (vw_cam v)\<rparr> | None \<Rightarrow> v);
          v = on_key (bu_scalar ui) (add_numbered (al_dock L) (\<lambda>t. PK_Scalar (scalar_panel_new t)) ''scalar'') v;
          v = on_key (bu_logic ui) (add_numbered (al_dock L) (\<lambda>t. PK_LogicAnalyser (logic_panel_new t)) ''logic'') v;
          v = on_key (bu_log ui) (add_numbered (al_dock L) (\<lambda>t. PK_LogView (log_view_new t [])) ''log'') v;
          v = on_key (bu_marker ui) (\<lambda>v. v\<lparr>vw_marker_mode := \<not> vw_marker_mode v\<rparr>) v
      in on_key (bu_home ui) (\<lambda>v. v\<lparr>vw_cam := camera_reset (vw_cam v)\<rparr>) v)"

definition top_bar :: "bool \<Rightarrow> nat \<Rightarrow> ('d, 'u, 'v) app_lib \<Rightarrow> bar_ui \<Rightarrow> file_system \<times> 'd viewer
    \<Rightarrow> (string \<times> file_system \<times> 'd viewer) run" where
  "top_bar chk now L ui = (\<lambda>(fs, v).
     obind (layouts_menu L (bu_layouts ui) (fs, bar_buttons L ui v)) (\<lambda>s.
     obind (capture_menu chk now L (bu_capture ui) s) (\<lambda>(fs, v).
     let (rate, v) = sample_rate now v in Ok (counts_text rate v, fs, v))))"

section \<open>The channel tree\<close>

record tree_ui =
  te_query :: "string \<Rightarrow> string"
  te_ctrl :: bool
  te_shift :: bool
  te_click :: "channel_id \<Rightarrow> bool"
  te_drag :: "channel_id option"
  te_group :: "string \<Rightarrow> bool"

text \<open>A row: what a drag that starts here carries, and a click.\<close>

definition tree_row :: "tree_ui \<Rightarrow> channel_id list \<Rightarrow> channel_info \<Rightarrow> drag_payload option \<times> 'd viewer
    \<Rightarrow> drag_payload option \<times> 'd viewer" where
  "tree_row ui visible c = (\<lambda>(drag, v).
     (if te_drag ui = Some (ci_id c) then Some (row_payload (te_shift ui) c visible (vw_tree_selection v)) else drag,
      if te_click ui (ci_id c)
      then let (sel, anchor) = update_selection visible (ci_id c) (te_ctrl ui) (te_shift ui)
                 (vw_tree_selection v, vw_tree_anchor v)
           in v\<lparr>vw_tree_selection := sel, vw_tree_anchor := anchor\<rparr>
      else v))"

definition tree_group :: "tree_ui \<Rightarrow> channel_id list \<Rightarrow> string \<times> channel_info list \<Rightarrow> drag_payload option \<times> 'd viewer
    \<Rightarrow> drag_payload option \<times> 'd viewer" where
  "tree_group ui visible = (\<lambda>(head, items) (drag, v).
     let hits = filter (\<lambda>c. matches_query (ci_path c) (vw_tree_query v)) items in
     if hits = [] then (drag, v)
     else let (drag, v) = fold (tree_row ui visible) hits (drag, v)
          in (drag, if te_group ui head then v\<lparr>vw_pending_log_view := Some (DP_Group head (map ci_id items))\<rparr> else v))"

definition tree_panel :: "tree_ui \<Rightarrow> 'd viewer \<Rightarrow> drag_payload option \<times> 'd viewer" where
  "tree_panel ui v =
     (let v = v\<lparr>vw_tree_query := te_query ui (vw_tree_query v)\<rparr>;
          chs = st_channels (vw_store v)
      in fold (tree_group ui (visible_channels (vw_tree_query v) chs)) (group_by_struct chs)
           (None, prune_selection chs v))"

section \<open>The cursor panel\<close>

text \<open>The time, the values under the cursor by plot, the markers, and the links; nothing without a cursor.\<close>

definition cursor_panel :: "bool \<Rightarrow> ('d, 'u, 'v) dock_lib \<Rightarrow> 'd viewer
    \<Rightarrow> (string \<times> (string \<times> (string \<times> string option) list) list \<times> (string \<times> bool \<times> f64 \<times> usize) list
        \<times> (string \<times> string \<times> f64 \<times> (string \<times> f64) list) list) option run" where
  "cursor_panel chk lib v =
     (case vw_cursor_t v of
        None \<Rightarrow> Ok None
      | Some t \<Rightarrow>
          obind (cursor_rows chk lib v) (\<lambda>blocks.
          obind (link_rows chk (vw_store v) (vw_markers v)) (\<lambda>links.
          Ok (Some (''t = '' @ fmt_fixed 6 (ns_to_s t) @ '' s'', blocks, marker_rows t (vw_markers v), links)))))"

section \<open>Tabs\<close>

definition tab_title :: "plot_registry \<Rightarrow> plot_id \<Rightarrow> string" where
  "tab_title plots pid =
     (case registry_get plots pid of
        Some k \<Rightarrow> plot_title k
      | None \<Rightarrow> ''[PlotId('' @ show_nat (unat pid) @ '')]'')"

text \<open>The background of a tab while something is dragged.\<close>

definition tab_tint :: "plot_registry \<Rightarrow> (channel_id \<rightharpoonup> channel_info) \<Rightarrow> plot_id \<Rightarrow> drag_payload option \<Rightarrow> colour option" where
  "tab_tint plots by_id pid payload =
     (case Option.bind (registry_get plots pid) (\<lambda>plot. Option.bind payload (\<lambda>p. tint_for_drop p plot by_id)) of
        Some Accept \<Rightarrow> Some (from_rgba_unmultiplied 80 160 80 30)
      | Some Reject \<Rightarrow> Some (from_rgba_unmultiplied 160 80 80 30)
      | None \<Rightarrow> None)"

text \<open>What happens on a tab: the widgets of its plot, a drag in flight, a drop, closing, renaming.\<close>

record tab_input =
  ti_ui :: tab_ui
  ti_payload :: "drag_payload option"
  ti_drop :: "drag_payload option"
  ti_close :: bool
  ti_rename :: bool

record tabs_state =
  ts_ctx :: plot_ctx
  ts_xy_drag :: xy_drag_accumulator
  ts_new_plots :: "plot_kind list"
  ts_removed :: "plot_id list"
  ts_rename :: "(plot_id \<times> string) option"
  ts_shown :: "(string \<times> colour option \<times> screen) list"

definition tab_drop :: "store \<Rightarrow> (channel_id, channel_info) hashmap \<Rightarrow> plot_id \<Rightarrow> drag_payload option \<Rightarrow> tabs_state
    \<Rightarrow> tabs_state" where
  "tab_drop g by_id pid dropped s =
     (case dropped of
        None \<Rightarrow> s
      | Some payload \<Rightarrow>
          let d = drop_on_plot g by_id pid payload
                \<lparr>ds_plots = px_plots (ts_ctx s), ds_new_plots = ts_new_plots s, ds_xy_drag = ts_xy_drag s\<rparr>
          in s\<lparr>ts_ctx := (ts_ctx s)\<lparr>px_plots := ds_plots d\<rparr>, ts_new_plots := ds_new_plots d, ts_xy_drag := ds_xy_drag d\<rparr>)"

definition show_tab :: "frame_lib \<Rightarrow> bool \<Rightarrow> plot_env \<Rightarrow> (channel_id, channel_info) hashmap \<Rightarrow> plot_id \<times> tab_input
    \<Rightarrow> tabs_state \<Rightarrow> tabs_state run" where
  "show_tab fl chk env by_id = (\<lambda>(pid, t) s.
     let plots = px_plots (ts_ctx s); title = tab_title plots pid; tint = tab_tint plots (pe_by_id env) pid (ti_payload t);
         s = (if ti_close t then s\<lparr>ts_removed := ts_removed s @ [pid]\<rparr> else s);
         s = (if ti_rename t
              then s\<lparr>ts_rename := Some (pid, case registry_get plots pid of Some k \<Rightarrow> plot_title k | None \<Rightarrow> [])\<rparr> else s) in
     obind (render_plot fl chk env (ti_ui t) pid (ts_ctx s)) (\<lambda>(scr, ctx).
     Ok (tab_drop (pe_store env) by_id pid (ti_drop t)
           (s\<lparr>ts_ctx := ctx, ts_shown := ts_shown s @ [(title, tint, scr)]\<rparr>))))"

section \<open>A frame\<close>

text \<open>\<open>fi_dock\<close>: what the user does to the arrangement of the tabs; \<open>fi_tabs\<close>: the tabs that are shown.\<close>

record 'd frame_input =
  fi_now :: nat
  fi_idle :: bool
  fi_refresh :: bool
  fi_typing :: bool
  fi_fresh :: bool
  fi_keys :: keys
  fi_bar :: bar_ui
  fi_addrs :: "connect_result list"
  fi_connection :: connection
  fi_connect :: popup
  fi_save_as_edit :: "string \<Rightarrow> string"
  fi_save_as :: popup
  fi_delete :: popup
  fi_clear :: popup
  fi_rename_edit :: "string \<Rightarrow> string"
  fi_rename :: popup
  fi_tree :: tree_ui
  fi_scroll :: f64
  fi_tabs :: "(plot_id \<times> tab_input) list"
  fi_dock :: "'d \<Rightarrow> 'd"
  fi_dock_drop :: "drag_payload option"

text \<open>What the tabs borrow from the application, and what they leave.\<close>

definition borrow_ctx :: "f64 \<Rightarrow> 'd viewer \<Rightarrow> plot_ctx" where
  "borrow_ctx scroll v =
     \<lparr>px_plots = vw_plots v, px_cam = vw_cam v,
      px_marks = \<lparr>mc_markers = vw_markers v, mc_dragging_marker = vw_dragging_marker v, mc_dragging_link = vw_dragging_link v\<rparr>,
      px_cursor_t = vw_cursor_t v, px_highlights = vw_log_highlights v, px_scroll = scroll\<rparr>"

definition return_ctx :: "plot_ctx \<Rightarrow> 'd viewer \<Rightarrow> 'd viewer" where
  "return_ctx ctx v =
     v\<lparr>vw_plots := px_plots ctx, vw_cam := px_cam ctx, vw_markers := mc_markers (px_marks ctx),
       vw_dragging_marker := mc_dragging_marker (px_marks ctx), vw_dragging_link := mc_dragging_link (px_marks ctx),
       vw_cursor_t := px_cursor_t ctx, vw_log_highlights := px_highlights ctx\<rparr>"

text \<open>The dialogs and panels around the plots, in the order of the frame.\<close>

definition frame_dialogs :: "bool \<Rightarrow> ('d, 'u, 'v) app_lib \<Rightarrow> 'd frame_input \<Rightarrow> file_system \<times> 'd viewer
    \<Rightarrow> (file_system \<times> 'd viewer) run" where
  "frame_dialogs chk L i = (\<lambda>(fs, v).
     obind (connection_dialog (fi_now i) (fi_addrs i) (fi_connection i) (fi_connect i) v) (\<lambda>v.
     obind (save_as_dialog (al_dock L) (al_to_vec L) (al_config_dir L) (fi_save_as i) fs
              (v\<lparr>vw_save_as_buffer := map_option (fi_save_as_edit i) (vw_save_as_buffer v)\<rparr>)) (\<lambda>(fs, v).
     obind (delete_confirm_dialog (al_config_dir L) (fi_delete i) fs v) (\<lambda>(fs, v).
     let v = confirm_clear_dialog (fi_clear i) v;
         v = rename_tab_dialog (fi_rename i)
               (v\<lparr>vw_rename_tab := map_option (\<lambda>(pid, buf). (pid, fi_rename_edit i buf)) (vw_rename_tab v)\<rparr>)
     in Ok (fs, snd (tree_panel (fi_tree i) v))))))"

text \<open>The tabs and the end of the frame.\<close>

definition frame_tabs :: "bool \<Rightarrow> ('d, 'u, 'v) app_lib \<Rightarrow> 'd frame_input \<Rightarrow> 'd viewer
    \<Rightarrow> ((string \<times> colour option \<times> screen) list \<times> 'd viewer) run" where
  "frame_tabs chk L i v =
     obind (compute_view chk (vw_cam v) (time_bounds (vw_store v))) (\<lambda>view.
     let by_id = hm_collect (map (\<lambda>c. (ci_id c, c)) (st_channels (vw_store v)));
         env = \<lparr>pe_store = vw_store v, pe_view = view, pe_by_id = hm_get by_id, pe_marker_mode = vw_marker_mode v\<rparr>;
         s = \<lparr>ts_ctx = borrow_ctx (fi_scroll i) v, ts_xy_drag = vw_xy_drag v, ts_new_plots = [], ts_removed = [],
              ts_rename = None, ts_shown = []\<rparr> in
     obind (ofold (show_tab (al_frame L) chk env by_id) (fi_tabs i) s) (\<lambda>s.
     let v = (return_ctx (ts_ctx s) v)\<lparr>vw_xy_drag := ts_xy_drag s, vw_dock := fi_dock i (vw_dock v)\<rparr>;
         v = (case ts_rename s of Some req \<Rightarrow> v\<lparr>vw_rename_tab := Some req\<rparr> | None \<Rightarrow> v);
         new_plots = collect_plots (fi_dock_drop i) (vw_pending_log_view v) (ts_new_plots s);
         v = v\<lparr>vw_pending_log_view := None\<rparr>
     in Ok (ts_shown s, finish_frame (al_dock L) (al_split L) (ts_removed s) new_plots v)))"

definition update :: "bool \<Rightarrow> ('d, 'u, 'v) app_lib \<Rightarrow> 'd frame_input \<Rightarrow> file_system \<times> 'd viewer
    \<Rightarrow> ((string \<times> colour option \<times> screen) list \<times> file_system \<times> 'd viewer) run" where
  "update chk L i = (\<lambda>(fs, v).
     obind (process_pending chk (fi_now i) (al_dock L) (al_from_slice L) fs v) (\<lambda>v.
     let v = poll_redraw (fi_idle i) v in
     obind (if fi_refresh i then refresh_group_counts chk v else Ok v) (\<lambda>v.
     obind (handle_global_keys chk (fi_typing i) (fi_fresh i) (fi_keys i) v) (\<lambda>v.
     obind (top_bar chk (fi_now i) L (fi_bar i) (fs, v)) (\<lambda>(_, s).
     obind (frame_dialogs chk L i s) (\<lambda>(fs, v).
     obind (cursor_panel chk (al_dock L) v) (\<lambda>_.
     obind (frame_tabs chk L i v) (\<lambda>(shown, v).
     Ok (shown, fs, v)))))))))"

section \<open>A frame is a run of the session\<close>

text \<open>
  The data, the plots and the markers of a state of the session; the rest of the viewer is free, since a
  step of the kind \<open>view\<close> may change it.
\<close>

definition reached :: "bool \<Rightarrow> ('d, 'u, 'v) app_lib \<Rightarrow> file_system \<Rightarrow> plot_kind list
    \<Rightarrow> store \<times> capture \<times> plot_registry \<times> marker_set \<Rightarrow> bool" where
  "reached chk L fs ps c \<longleftrightarrow>
     (\<exists>n v. session chk (al_dock L) (al_split L) (al_from_slice L) n (fs, ps, v) \<and> core v = c)"

lemma reachedI: "session chk (al_dock L) (al_split L) (al_from_slice L) n (fs, ps, v) \<Longrightarrow> reached chk L fs ps (core v)"
  by (auto simp: reached_def)

lemma reachedE:
  fixes L :: "('d, 'u, 'v) app_lib" and v :: "'d viewer"
  assumes "reached chk L fs ps (core v)"
  obtains n where "session chk (al_dock L) (al_split L) (al_from_slice L) n (fs, ps, v)"
proof -
  obtain n u where u: "session chk (al_dock L) (al_split L) (al_from_slice L) n (fs, ps, u)" "core u = core v"
    using assms by (auto simp: reached_def)
  have "session chk (al_dock L) (al_split L) (al_from_slice L) n (fs, ps, v)"
    by (rule session.view[OF u(1)]) (use u(2) in simp_all)
  then show thesis by (rule that)
qed

lemma reached_disk: "reached chk L fs ps c \<Longrightarrow> reached chk L fs' ps c"
  unfolding reached_def by (blast intro: session.disk)

lemma reached_step:
  fixes L :: "('d, 'u, 'v) app_lib" and v v' :: "'d viewer"
  assumes "reached chk L fs ps (core v)"
    and "\<And>n. session chk (al_dock L) (al_split L) (al_from_slice L) n (fs, ps, v)
      \<Longrightarrow> \<exists>n'. session chk (al_dock L) (al_split L) (al_from_slice L) n' (fs', ps', v')"
  shows "reached chk L fs' ps' (core v')"
  using assms by (elim reachedE) (blast intro: reachedI)

lemma reached_group:
  fixes L :: "('d, 'u, 'v) app_lib" and v :: "'d viewer"
  assumes "reached chk L fs ps (core v)"
  shows "reached chk L fs (ps @ group_view payload) (core v)"
proof (cases "group_view payload = []")
  case False
  then obtain name chs where p: "payload = Some (DP_Group name chs)"
    by (cases payload rule: group_view.cases) auto
  obtain n where n: "session chk (al_dock L) (al_split L) (al_from_slice L) n (fs, ps, v)" using assms by (rule reachedE)
  have "drop_into 0 (DP_Group name chs) ps v = (ps @ group_view payload, v)" by (simp add: drop_into_def Let_def p)
  from session.drop[OF n this] show ?thesis by (rule reachedI)
qed (use assms in simp)

subsection \<open>Around the plots\<close>

lemma bar_buttons_reached:
  fixes L :: "('d, 'u, 'v) app_lib" and v :: "'d viewer"
  assumes "reached chk L fs ps (core v)"
  shows "reached chk L fs ps (core (bar_buttons L ui v))"
proof -
  have add: "reached chk L fs ps (core (on_key b (add_numbered (al_dock L) ctor word) u))"
    if "reached chk L fs ps (core u)" for b ctor word and u :: "'d viewer"
  proof -
    have "reached chk L fs ps (core (add_numbered (al_dock L) ctor word u))"
      by (rule reached_step[OF that]) (rule exI, rule session.add_plot)
    then show ?thesis using that by (simp add: on_key_def)
  qed
  have keep: "core (expire_flash b u) = core u" "core (on_key b open_connection_dialog u) = core u"
    "core (case w of Some secs \<Rightarrow> u\<lparr>vw_cam := f secs\<rparr> | None \<Rightarrow> u) = core u"
    "core (on_key b (\<lambda>v. v\<lparr>vw_cam := h v\<rparr>) u) = core u" "core (on_key b (\<lambda>v. v\<lparr>vw_marker_mode := m v\<rparr>) u) = core u"
    for b f w h m and u :: "'d viewer"
    by (auto simp: expire_flash_def on_key_def open_connection_dialog_def split: option.split)
  show ?thesis unfolding bar_buttons_def Let_def keep(4,5)
    by (intro add) (simp only: keep assms)
qed

lemma layouts_menu_reached:
  fixes L :: "('d, 'u, 'v) app_lib" and v :: "'d viewer"
  assumes "reached chk L fs ps (core v)"
  shows "yields (layouts_menu L ui (fs, v)) (\<lambda>(fs', v'). reached chk L fs' ps (core v'))"
proof -
  have save: "yields (if b then menu_save_layout (al_dock L) (al_to_vec L) (al_config_dir L) fs v else Ok (fs, v))
      (\<lambda>(fs', v'). reached chk L fs' ps (core v'))" for b
    using assms dialogs_keep_core(3) reached_disk by (fastforce simp: yields_def)
  have load: "yields (case lu_load ui of Some name \<Rightarrow> if name \<in> S
        then do_load_layout (al_dock L) (al_hash_order L) (al_from_slice L) (al_config_dir L) (fs_files fs) name u else Ok u
      | None \<Rightarrow> Ok u) (\<lambda>u'. reached chk L fs ps (core u'))" if "reached chk L fs ps (core u)" for u :: "'d viewer" and fs S
  proof (cases "lu_load ui")
    case (Some name)
    have "reached chk L fs ps (core u')"
      if "do_load_layout (al_dock L) (al_hash_order L) (al_from_slice L) (al_config_dir L) (fs_files fs) name u = Ok u'" for u'
      by (rule reached_step[OF \<open>reached chk L fs ps (core u)\<close>]) (rule exI, erule session.load_layout[OF _ that])
    then show ?thesis using Some \<open>reached chk L fs ps (core u)\<close> by (auto simp: yields_def)
  qed (use that in simp)
  have keep: "core (on_key b menu_save_as u) = core u"
    "core (case d of Some name \<Rightarrow> if name \<in> S then menu_delete name u else u | None \<Rightarrow> u) = core u" for b d S and u :: "'d viewer"
    by (auto simp: on_key_def menu_save_as_def menu_delete_def split: option.split)
  show ?thesis unfolding layouts_menu_def Let_def prod.case
    by (rule yields_obind[OF save], clarify, rule yields_obind[OF load]) (simp_all add: keep)
qed

lemma capture_menu_reached:
  fixes L :: "('d, 'u, 'v) app_lib" and v :: "'d viewer"
  assumes "reached chk L fs ps (core v)"
  shows "yields (capture_menu chk now L ui (fs, v)) (\<lambda>(fs', v'). reached chk L fs' ps (core v'))"
proof -
  have keep: "core (on_key b menu_clear v) = core v" for b by (auto simp: on_key_def menu_clear_def)
  have save: "yields (case cu_save ui of Some choice \<Rightarrow> if b then do_save_capture (al_dock L) (al_to_vec L) choice fs (on_key d menu_clear v)
        else Ok (fs, on_key d menu_clear v) | None \<Rightarrow> Ok (fs, on_key d menu_clear v))
      (\<lambda>(fs', v'). reached chk L fs' ps (core v'))" for b d
    using assms keep[of d] saves_keep_core(1) reached_disk by (fastforce simp: yields_def split: option.splits if_splits)
  have "yields (case cu_open ui of Some choice \<Rightarrow> do_open_capture chk now L choice fs u | None \<Rightarrow> Ok u)
      (\<lambda>u'. reached chk L fs ps (core u'))" if "reached chk L fs ps (core u)" for u :: "'d viewer" and fs
  proof -
    have "reached chk L fs ps (core u')" if "load_capture_file chk now (al_dock L) (al_from_slice L) path fs u = Ok u'" for path u'
      by (rule reached_step[OF \<open>reached chk L fs ps (core u)\<close>]) (rule exI, erule session.open_capture[OF _ that])
    then show ?thesis using that by (auto simp: yields_def do_open_capture_def split: option.splits)
  qed
  note open_file = this
  show ?thesis unfolding capture_menu_def Let_def prod.case
    by (rule yields_obind[OF save], clarify, rule yields_obind[OF open_file]) simp_all
qed

lemma tree_panel_core: "core (snd (tree_panel ui v)) = core v"
proof -
  have row: "core (snd (tree_row ui visible c s)) = core (snd s)" for visible c and s :: "drag_payload option \<times> 'a viewer"
    by (simp add: tree_row_def split_beta Let_def)
  have rows: "core (snd (fold (tree_row ui visible) cs s)) = core (snd s)" for visible cs and s :: "drag_payload option \<times> 'a viewer"
    using row by (induction cs arbitrary: s) simp_all
  have "core (snd (tree_group ui visible g s)) = core (snd s)" for visible g and s :: "drag_payload option \<times> 'a viewer"
    using rows[of visible _ s] by (simp add: tree_group_def split_beta Let_def)
  then have "core (snd (fold (tree_group ui visible) gs s)) = core (snd s)" for visible gs and s :: "drag_payload option \<times> 'a viewer"
    by (induction gs arbitrary: s) simp_all
  then show ?thesis by (simp add: tree_panel_def Let_def prune_selection_def split: option.split)
qed

lemma frame_dialogs_reached:
  fixes L :: "('d, 'u, 'v) app_lib" and v :: "'d viewer"
  assumes "reached chk L fs ps (core v)"
  shows "yields (frame_dialogs chk L i (fs, v)) (\<lambda>(fs', v'). reached chk L fs' ps (core v'))"
proof -
  have connect: "yields (connection_dialog now addrs edited p v) (\<lambda>v'. reached chk L fs ps (core v'))" for now addrs edited p
  proof -
    have "reached chk L fs ps (core v')" if "connection_dialog now addrs edited p v = Ok v'" for v'
      by (rule reached_step[OF assms]) (rule exI, erule session.connect[OF _ that])
    then show ?thesis by (simp add: yields_def)
  qed
  have save: "yields (save_as_dialog (al_dock L) (al_to_vec L) (al_config_dir L) p fs (u\<lparr>vw_save_as_buffer := b\<rparr>))
      (\<lambda>(fs', v'). reached chk L fs' ps (core v'))" if "reached chk L fs ps (core u)" for p b and u :: "'d viewer"
    using that dialogs_keep_core(1) reached_disk by (fastforce simp: yields_def)
  have delete: "yields (delete_confirm_dialog (al_config_dir L) p fs u) (\<lambda>(fs', v'). reached chk L fs' ps (core v'))"
    if "reached chk L fs ps (core u)" for p fs and u :: "'d viewer"
    using that dialogs_keep_core(2) reached_disk by (fastforce simp: yields_def)
  have clear: "reached chk L fs ps (core (confirm_clear_dialog p u))" if "reached chk L fs ps (core u)" for p fs and u :: "'d viewer"
    by (rule reached_step[OF that]) (rule exI, erule session.clear)
  have rename: "reached chk L fs ps (core (rename_tab_dialog p u))" if "reached chk L fs ps (core u)" for p fs and u :: "'d viewer"
  proof -
    obtain n where n: "session chk (al_dock L) (al_split L) (al_from_slice L) n (fs, ps, u)" using \<open>reached chk L fs ps (core u)\<close> by (rule reachedE)
    have "reached chk L fs ps (core (u\<lparr>vw_plots := registry_modify pid f (vw_plots u)\<rparr>))" for pid f
      using reachedI[OF session.edit[OF n]] .
    then show ?thesis using that
      by (auto simp: rename_tab_dialog_def rename_tab_def Let_def split: option.split popup.split)
  qed
  show ?thesis unfolding frame_dialogs_def Let_def prod.case
  proof (rule yields_obind[OF connect], rule yields_obind[OF save], assumption, clarify, rule yields_obind[OF delete], assumption, clarify)
    fix fs' and u :: "'d viewer" assume u: "reached chk L fs' ps (core u)"
    have "reached chk L fs' ps (core ((confirm_clear_dialog q u)\<lparr>vw_rename_tab := b\<rparr>))" for q b using clear[OF u] by simp
    from rename[OF this] show "yields (Ok (fs', snd (tree_panel (fi_tree i) (rename_tab_dialog (fi_rename i)
        ((confirm_clear_dialog (fi_clear i) u)\<lparr>vw_rename_tab := map_option (\<lambda>(pid, buf). (pid, fi_rename_edit i buf))
          (vw_rename_tab (confirm_clear_dialog (fi_clear i) u))\<rparr>)))))
      (\<lambda>(fs', v'). reached chk L fs' ps (core v'))" by (simp add: tree_panel_core)
  qed
qed

subsection \<open>Plots\<close>

text \<open>The edits of the renderers are steps of the session.\<close>

interpretation steps: frame_invariant chk env "\<lambda>_. True" "\<lambda>_ p s. reached chk L fs ps (g, cap, p, s)" for chk env L fs ps g cap
proof
  fix p s assume "reached chk L fs ps (g, cap, p, s)"
  then obtain n v where n: "session chk (al_dock L) (al_split L) (al_from_slice L) n (fs, ps, v)" "core v = (g, cap, p, s)"
    by (auto simp: reached_def)
  show "reached chk L fs ps (g, cap, registry_modify pid f p, s)" for pid f
    using reachedI[OF session.edit[OF n(1)], of pid f] n(2) by simp
  show "reached chk L fs ps (g, cap, snd (try_move_channel src dst ch info radix p), s)" for src dst ch info radix
    using reachedI[OF session.move[OF n(1)], of src dst ch info radix] n(2) by simp
next
  fix p c ui mode signals ylo yhi c'
  assume "reached chk L fs ps (g, cap, p, mc_markers c)"
    and h: "handle_marker_interaction chk ui mode signals ylo yhi c = Ok c'"
  then obtain n v where n: "session chk (al_dock L) (al_split L) (al_from_slice L) n (fs, ps, v)" "core v = (g, cap, p, mc_markers c)"
    by (auto simp: reached_def)
  have "session chk (al_dock L) (al_split L) (al_from_slice L) n (fs, ps, v\<lparr>vw_marker_mode := mode\<rparr>)"
    by (rule session.view[OF n(1)]) simp_all
  from reachedI[OF session.pointer[OF this, where ctx = c and ctx' = c' and ui = ui and signals = signals and ylo = ylo and yhi = yhi]]
  show "reached chk L fs ps (g, cap, p, mc_markers c')" using n(2) h by simp
qed simp_all

lemma show_tab_reached:
  assumes "reached chk L fs (ts_new_plots s) (g, cap, px_plots (ts_ctx s), mc_markers (px_marks (ts_ctx s)))"
    and "pe_store env = g" and "by_id = hm_collect (map (\<lambda>c. (ci_id c, c)) (st_channels g))"
  shows "yields (show_tab fl chk env by_id t s)
    (\<lambda>s'. reached chk L fs (ts_new_plots s') (g, cap, px_plots (ts_ctx s'), mc_markers (px_marks (ts_ctx s'))))"
proof -
  note plot = steps.render_plot_yields[where chk = chk and env = env and L = L and fs = fs and ps = "ts_new_plots s" and g = g and cap = cap,
      OF assms(1) TrueI, where fl = fl and ui = "ti_ui (snd t)" and pid = "fst t"]
  have drop: "reached chk L fs (ts_new_plots (tab_drop g by_id pid d u)) (g, cap, px_plots (ts_ctx (tab_drop g by_id pid d u)),
      mc_markers (px_marks (ts_ctx (tab_drop g by_id pid d u))))"
    if r: "reached chk L fs (ts_new_plots u) (g, cap, px_plots (ts_ctx u), mc_markers (px_marks (ts_ctx u)))" for u pid d
  proof (cases d)
    case (Some payload)
    obtain n v where n: "session chk (al_dock L) (al_split L) (al_from_slice L) n (fs, ts_new_plots u, v)"
      "core v = (g, cap, px_plots (ts_ctx u), mc_markers (px_marks (ts_ctx u)))" using r by (auto simp: reached_def)
    have "session chk (al_dock L) (al_split L) (al_from_slice L) n (fs, ts_new_plots u, v\<lparr>vw_xy_drag := ts_xy_drag u\<rparr>)"
      by (rule session.view[OF n(1)]) simp_all
    from session.drop[OF this surjective_pairing, THEN reachedI, of pid payload] n(2) show ?thesis
      by (simp add: tab_drop_def Some drop_into_def Let_def assms(3))
  qed (use r in \<open>simp add: tab_drop_def\<close>)
  define s0 where "s0 = (if ti_close (snd t) then s\<lparr>ts_removed := ts_removed s @ [fst t]\<rparr> else s)"
  define s1 where "s1 = (if ti_rename (snd t) then s0\<lparr>ts_rename := Some (fst t,
      case registry_get (px_plots (ts_ctx s)) (fst t) of Some k \<Rightarrow> plot_title k | None \<Rightarrow> [])\<rparr> else s0)"
  have s1: "ts_ctx s1 = ts_ctx s" "ts_new_plots s1 = ts_new_plots s" by (simp_all add: s1_def s0_def)
  show ?thesis unfolding show_tab_def Let_def split_beta s0_def[symmetric] s1_def[symmetric] s1(1) assms(2)
    by (rule yields_obind[OF plot], unfold yields_Ok, rule drop) (simp add: s1(2) split_beta)
qed

lemma frame_end_reached:
  fixes L :: "('d, 'u, 'v) app_lib" and v :: "'d viewer"
  shows "reached chk L fs ps (core v) \<Longrightarrow> reached chk L fs [] (core (finish_frame (al_dock L) (al_split L) removed ps v))"
  by (erule reached_step) (rule exI, rule session.frame_end)

lemma frame_tabs_reached:
  fixes L :: "('d, 'u, 'v) app_lib" and v :: "'d viewer"
  assumes "reached chk L fs [] (core v)"
  shows "yields (frame_tabs chk L i v) (\<lambda>(_, v'). reached chk L fs [] (core v') \<and> \<not> registry_is_empty (vw_plots v'))"
proof -
  let ?by_id = "hm_collect (map (\<lambda>c. (ci_id c, c)) (st_channels (vw_store v)))"
  let ?s0 = "\<lparr>ts_ctx = borrow_ctx (fi_scroll i) v, ts_xy_drag = vw_xy_drag v, ts_new_plots = [], ts_removed = [],
      ts_rename = None, ts_shown = []\<rparr>"
  let ?P = "\<lambda>s. reached chk L fs (ts_new_plots s) (vw_store v, vw_capture v, px_plots (ts_ctx s), mc_markers (px_marks (ts_ctx s)))"
  have "?P ?s0" using assms by (simp add: borrow_ctx_def)
  then have loop: "yields (ofold (show_tab (al_frame L) chk \<lparr>pe_store = vw_store v, pe_view = view, pe_by_id = hm_get ?by_id,
      pe_marker_mode = vw_marker_mode v\<rparr> ?by_id) (fi_tabs i) ?s0) ?P" for view
    using yields_ofold_budget[of "\<lambda>_. ?P" 0 ?s0 "\<lambda>_. 0" "fi_tabs i" 0] show_tab_reached by force
  define w where "w s = (let u = (return_ctx (ts_ctx s) v)\<lparr>vw_xy_drag := ts_xy_drag s, vw_dock := fi_dock i (vw_dock v)\<rparr>
    in case ts_rename s of Some req \<Rightarrow> u\<lparr>vw_rename_tab := Some req\<rparr> | None \<Rightarrow> u)" for s :: tabs_state
  have core: "core ((w s)\<lparr>vw_pending_log_view := None\<rparr>) = (vw_store v, vw_capture v, px_plots (ts_ctx s), mc_markers (px_marks (ts_ctx s)))" for s
    by (simp add: w_def return_ctx_def Let_def split: option.split)
  have fin: "reached chk L fs [] (core (finish_frame (al_dock L) (al_split L) removed
      (collect_plots (fi_dock_drop i) (vw_pending_log_view (w s)) (ts_new_plots s)) ((w s)\<lparr>vw_pending_log_view := None\<rparr>)))"
    if "?P s" for s removed
    unfolding collect_plots_def append_assoc[symmetric]
    by (intro frame_end_reached reached_group) (simp only: core that)
  show ?thesis unfolding frame_tabs_def Let_def w_def[unfolded Let_def, symmetric]
    by (rule yields_skip, rule yields_obind[OF loop]) (use fin finish_frame_nonempty in simp)
qed

end
