(* ===== verification/Update_Safe.thy ===== *)
theory Update_Safe
  imports Update
begin

text \<open>
  A frame of the application in a release build returns: the only operation of a frame that may panic on
  outside data is opening a capture file.
\<close>

section \<open>Connecting\<close>

lemma open_stream_no_panic: "fst (open_stream s g) \<noteq> Panic"
proof -
  have "fst (read_fill n acc s) \<noteq> Panic" for n acc s
    by (induction n acc s rule: read_fill.induct) (auto simp: read_fill.simps stream_read_def split: prod.splits sum.splits if_splits)
  then have "fst (read_exact_or_eof n s) \<noteq> Panic" "fst (tcp_read_u32 s) \<noteq> Panic" for n s
    by (auto simp: read_exact_or_eof_def tcp_read_u32_def split: prod.splits outcome.splits) (metis fst_conv)+
  then show ?thesis
    using schema_decode_total build_loop_no_panic
    by (auto simp: open_stream_def channel_map_build_def split: prod.splits outcome.splits) (metis fst_conv)+
qed

lemma connect_once_no_panic: "fst (connect_once addrs e g) \<noteq> Panic"
  by (induction addrs e g rule: connect_once.induct) (simp_all add: open_stream_no_panic)

abbreviation wf_viewer :: "'d viewer \<Rightarrow> bool" where
  "wf_viewer v \<equiv> store_wf (vw_store v)"

lemma reaches_wf: "state_reaches st st' \<Longrightarrow> store_wf (fst st) \<Longrightarrow> store_wf (fst st')"
  by (auto simp: state_reaches_def intro!: fold_invariant[where P = store_wf] store_step_wf)

lemma connect_source_ensures: "wf_viewer v \<Longrightarrow> ensures (connect_source now addrs v) wf_viewer"
proof -
  assume wf: "wf_viewer v"
  obtain r g cap where t: "tcp_connect now addrs (data_of v) = (r, g, cap)" by (metis prod_cases3)
  have "r \<noteq> Panic" using t connect_once_no_panic[of addrs None "vw_store v"]
    by (auto simp: tcp_connect_def split: if_splits prod.splits outcome.splits)
  moreover have "store_wf g" using reaches_wf[OF conjunct1[OF tcp_connect_reaches[OF t]]] wf by simp
  ultimately show ?thesis by (cases r) (simp_all add: connect_source_def t Let_def)
qed

lemma connection_dialog_ensures: "wf_viewer v \<Longrightarrow> ensures (connection_dialog now addrs edited p v) wf_viewer"
proof -
  assume wf: "wf_viewer v"
  have "wf_viewer (reset_data (u\<lparr>vw_handle := None\<rparr>))" if "wf_viewer u" for u :: "'a viewer"
    using that store_step_wf[of _ Clear] by (simp add: reset_data_def)
  then have "ensures (reconnect now addrs u) wf_viewer" if "wf_viewer u" for u :: "'a viewer"
    using that connect_source_ensures by (auto simp: reconnect_def)
  then show ?thesis using wf by (cases p) (auto simp: connection_dialog_def Let_def intro!: ensures_obind[where P = wf_viewer])
qed

section \<open>Menus and dialogs\<close>

abbreviation wf_saved :: "file_system \<times> 'd viewer \<Rightarrow> bool" where
  "wf_saved s \<equiv> wf_viewer (snd s)"

lemma core_wf: "core v' = core v \<Longrightarrow> wf_viewer v \<Longrightarrow> wf_viewer v'"
  by simp

lemma saves_return:
  "returns (do_save_capture lib to_vec choice fs v)" "returns (do_save_layout lib to_vec config_dir name fs v)"
  "returns (do_delete_layout config_dir name fs v)"
  by (auto simp: do_save_capture_def do_save_layout_def do_delete_layout_def save_btlm_def save_layout_def delete_layout_def
      Let_def split_beta split: option.split)

lemma keeps_ensures: "returns m \<Longrightarrow> (\<And>fs' v'. m = Ok (fs', v') \<Longrightarrow> core v' = core v) \<Longrightarrow> wf_viewer v \<Longrightarrow> ensures m wf_saved"
  by (auto simp: ensures_def)

lemma dialogs_ensure:
  fixes v :: "'d viewer"
  assumes "wf_viewer v"
  shows "ensures (save_as_dialog lib to_vec config_dir p fs v) wf_saved"
    and "ensures (delete_confirm_dialog config_dir p fs v) wf_saved"
    and "ensures (menu_save_layout lib to_vec config_dir fs v) wf_saved"
    and "ensures (do_save_capture lib to_vec choice fs v) wf_saved"
proof -
  have r: "returns (save_as_dialog lib to_vec config_dir p fs v)" "returns (delete_confirm_dialog config_dir p fs v)"
    "returns (menu_save_layout lib to_vec config_dir fs v)"
    using saves_return by (auto simp: save_as_dialog_def delete_confirm_dialog_def menu_save_layout_def Let_def
        split: option.split popup.split)
  show "ensures (save_as_dialog lib to_vec config_dir p fs v) wf_saved"
    by (rule keeps_ensures[OF r(1)], erule dialogs_keep_core, rule assms)
  show "ensures (delete_confirm_dialog config_dir p fs v) wf_saved"
    by (rule keeps_ensures[OF r(2)], erule dialogs_keep_core, rule assms)
  show "ensures (menu_save_layout lib to_vec config_dir fs v) wf_saved"
    by (rule keeps_ensures[OF r(3)], erule dialogs_keep_core, rule assms)
  show "ensures (do_save_capture lib to_vec choice fs v) wf_saved"
    by (rule keeps_ensures[OF saves_return(1)], erule saves_keep_core, rule assms)
qed

lemma install_layout_store: "vw_store (snd (install_layout lib layout v)) = vw_store v"
  by (simp add: install_layout_def Let_def split_beta)

lemma load_layout_ensures:
  "wf_viewer v \<Longrightarrow> ensures (do_load_layout lib hash_order from_slice config_dir files name v) wf_viewer"
  "wf_viewer v \<Longrightarrow> wf_viewer (load_layout_file lib from_slice path fs v)"
  by (auto simp: do_load_layout_def load_layout_def load_layout_file_def flash_def install_layout_store split_beta Let_def
      split: option.split outcome.split)

lemma bar_buttons_store: "vw_store (bar_buttons L ui v) = vw_store v"
  by (simp add: bar_buttons_def Let_def on_key_def expire_flash_def open_connection_dialog_def add_numbered_def add_tab_def
      split_beta split: option.split)

lemma layouts_menu_ensures:
  fixes L :: "('d, 'u, 'v) app_lib" and v :: "'d viewer"
  assumes "wf_viewer v"
  shows "ensures (layouts_menu L ui (fs, v)) wf_saved"
proof -
  have save: "ensures (if b then menu_save_layout (al_dock L) (al_to_vec L) (al_config_dir L) fs v else Ok (fs, v)) wf_saved" for b
    using assms by (simp add: dialogs_ensure(3))
  have load: "ensures (case lu_load ui of Some name \<Rightarrow> if name \<in> S
        then do_load_layout (al_dock L) (al_hash_order L) (al_from_slice L) (al_config_dir L) files name u else Ok u
      | None \<Rightarrow> Ok u) wf_viewer" if "wf_viewer u" for S files and u :: "'d viewer"
    using that by (auto simp: load_layout_ensures(1) split: option.split)
  have keep: "wf_viewer (on_key b menu_save_as u)" "wf_viewer (case d of Some name \<Rightarrow> if name \<in> S then menu_delete name u else u | None \<Rightarrow> u)"
    if "wf_viewer u" for b d S and u :: "'d viewer"
    using that by (auto simp: on_key_def menu_save_as_def menu_delete_def split: option.split)
  show ?thesis unfolding layouts_menu_def Let_def prod.case
    by (rule ensures_obind[OF save], clarify, rule ensures_obind[OF load]) (simp_all add: keep)
qed

lemma capture_menu_ensures:
  fixes L :: "('d, 'u, 'v) app_lib" and v :: "'d viewer"
  assumes "wf_viewer v" and "\<forall>path. cu_open ui \<noteq> Some (Some path)"
  shows "ensures (capture_menu chk now L ui (fs, v)) wf_saved"
proof -
  have keep: "wf_viewer (on_key b menu_clear v)" for b using assms(1) by (simp add: on_key_def menu_clear_def)
  then have save: "ensures (case cu_save ui of Some choice \<Rightarrow> if e then do_save_capture (al_dock L) (al_to_vec L) choice fs (on_key b menu_clear v)
      else Ok (fs, on_key b menu_clear v) | None \<Rightarrow> Ok (fs, on_key b menu_clear v)) wf_saved" for b e
    by (auto simp: dialogs_ensure(4) split: option.split)
  have "ensures (case cu_open ui of Some choice \<Rightarrow> do_open_capture chk now L choice fs u | None \<Rightarrow> Ok u) wf_viewer"
    if "wf_viewer u" for fs and u :: "'d viewer"
    using that assms(2) by (auto simp: do_open_capture_def split: option.split)
  note no_file = this
  show ?thesis unfolding capture_menu_def Let_def prod.case
    by (rule ensures_obind[OF save], clarify, rule ensures_obind[OF no_file]) simp_all
qed

lemma top_bar_ensures:
  fixes L :: "('d, 'u, 'v) app_lib" and v :: "'d viewer"
  assumes "wf_viewer v" and "\<forall>path. cu_open (bu_capture ui) \<noteq> Some (Some path)"
  shows "ensures (top_bar chk now L ui (fs, v)) (\<lambda>(_, s). wf_saved s)"
proof -
  have bar: "wf_viewer (bar_buttons L ui v)" using assms(1) by (simp add: bar_buttons_store)
  show ?thesis unfolding top_bar_def prod.case Let_def
    by (rule ensures_obind[OF layouts_menu_ensures[OF bar]], clarify, rule ensures_obind[OF capture_menu_ensures[OF _ assms(2)]])
      (auto simp: sample_rate_def Let_def split_beta)
qed

lemma tree_panel_store: "vw_store (snd (tree_panel ui v)) = vw_store v"
  using tree_panel_core[of ui v] by simp

lemma frame_dialogs_ensures:
  fixes L :: "('d, 'u, 'v) app_lib" and v :: "'d viewer"
  assumes "wf_viewer v"
  shows "ensures (frame_dialogs chk L i (fs, v)) wf_saved"
proof -
  have clear: "wf_viewer (confirm_clear_dialog p u)" if "wf_viewer u" for p and u :: "'d viewer"
    using that store_step_wf[of _ Clear] by (simp add: confirm_clear_dialog_def do_clear_def reset_data_def flash_def Let_def split: popup.split)
  have rename: "vw_store (rename_tab_dialog p u) = vw_store u" for p and u :: "'d viewer"
    by (simp add: rename_tab_dialog_def rename_tab_def Let_def split: option.split popup.split)
  have save: "ensures (save_as_dialog (al_dock L) (al_to_vec L) (al_config_dir L) p fs (u\<lparr>vw_save_as_buffer := b\<rparr>)) wf_saved"
    if "wf_viewer u" for p fs b and u :: "'d viewer"
    using that by (simp add: dialogs_ensure(1))
  show ?thesis unfolding frame_dialogs_def Let_def prod.case
    by (rule ensures_obind[OF connection_dialog_ensures[OF assms]], rule ensures_obind[OF save], assumption, clarify,
        rule ensures_obind[OF dialogs_ensure(2)], simp) (auto simp: tree_panel_store rename clear)
qed

section \<open>Keys, panels and tabs\<close>

lemma add_chk_returns [simp]: "returns (add_chk False a b)"
  by (simp add: add_chk_def)

lemma compute_view_returns: "returns (compute_view False cam data)"
  by (auto simp: compute_view_def Let_def split: option.split time_base.split intro!: ensures_obind[OF add_chk_returns])

lemma keys_ensure: "wf_viewer v \<Longrightarrow> ensures (handle_global_keys False typing fresh ks v) wf_viewer"
  by (auto simp: handle_global_keys_def Let_def on_key_def press_g_def press_delete_def press_escape_def
      split: option.split prod.split intro!: ensures_obind[OF compute_view_returns])

lemma refresh_ensures: "wf_viewer v \<Longrightarrow> ensures (refresh_group_counts False v) wf_viewer"
  by (auto simp: refresh_group_counts_def count_group_def Let_def split: option.split intro!: ensures_obind[OF returns_ofold])

lemma cursor_panel_returns:
  assumes "wf_viewer v"
  shows "returns (cursor_panel False lib v)"
proof -
  have "returns (cursor_row False by_id t (vw_store v) ch)" "returns (link_delta False (vw_store v) a b ch)" for by_id t ch a b
    using assms by (auto simp: cursor_row_def link_delta_def split: option.split intro!: ensures_obind[OF sample_at_returns])
  then show ?thesis
    by (auto simp: cursor_panel_def cursor_rows_def link_rows_def split: option.split prod.split
        intro!: ensures_obind[where P = "\<lambda>_. True"] returns_omap)
qed

lemma frame_tabs_returns:
  assumes "wf_viewer v"
  shows "returns (frame_tabs False L i v)"
proof -
  have "returns (show_tab fl False env by_id t s)" if "store_wf (pe_store env)" for fl env by_id t s
    by (auto simp: show_tab_def Let_def split_beta intro!: ensures_obind[OF render_plot_returns[OF that]])
  then show ?thesis using assms
    by (auto simp: frame_tabs_def Let_def intro!: ensures_obind[OF compute_view_returns] ensures_obind[OF returns_ofold])
qed

lemma update_ensures:
  fixes L :: "('d, 'u, 'v) app_lib" and v :: "'d viewer"
  assumes "store_wf (vw_store v)" and "vw_pending_file v = None"
    and "\<forall>path. cu_open (bu_capture (fi_bar i)) \<noteq> Some (Some path)"
  shows "returns (update False L i (fs, v))"
proof -
  have pending: "ensures (process_pending False now (al_dock L) (al_from_slice L) fs v) wf_viewer" for now
    using assms(1,2) by (auto simp: process_pending_def load_layout_ensures(2) split: option.split)
  have refresh: "ensures (if b then refresh_group_counts False (poll_redraw d u) else Ok (poll_redraw d u)) wf_viewer"
    if "wf_viewer u" for b d and u :: "'d viewer"
  proof -
    have "wf_viewer (poll_redraw d u)" using that by (simp add: poll_redraw_def Let_def)
    then show ?thesis by (simp add: refresh_ensures)
  qed
  show ?thesis unfolding update_def Let_def prod.case
    by (rule ensures_obind[OF pending], rule ensures_obind[OF refresh], assumption, rule ensures_obind[OF keys_ensure], assumption,
        rule ensures_obind[OF top_bar_ensures[OF _ assms(3)]], assumption, clarify, rule ensures_obind[OF frame_dialogs_ensures], simp,
        clarify, rule ensures_obind[OF cursor_panel_returns], simp, rule ensures_obind[OF frame_tabs_returns]) auto
qed

section \<open>Properties\<close>


text \<open>A frame in which the user presses M, adds a log table, drops a channel on the first plot and renames it.\<close>

definition app_lib_ex :: "(plot_id list, usize list, usize list) app_lib" where
  "app_lib_ex = \<lparr>al_dock = one_leaf, al_split = (\<lambda>ids d. d @ ids), al_from_slice = (\<lambda>_. None), al_to_vec = (\<lambda>_. None),
     al_hash_order = (\<lambda>m. m), al_config_dir = None, al_entries = (\<lambda>_. None), al_frame = lib_ex\<rparr>"

definition frame_ex :: "plot_id list frame_input" where
  "frame_ex = \<lparr>fi_now = 0, fi_idle = False, fi_refresh = True, fi_typing = False, fi_fresh = True,
     fi_keys = \<lparr>k_f = False, k_g = False, k_shift = False, k_home = False, k_m = True, k_delete = False, k_escape = False\<rparr>,
     fi_bar = \<lparr>bu_expired = False, bu_connection = False, bu_follow = False, bu_pan = True, bu_window = None, bu_scalar = False,
       bu_logic = False, bu_log = True, bu_marker = False, bu_home = False,
       bu_layouts = \<lparr>lu_save = False, lu_save_as = False, lu_load = None, lu_delete = None\<rparr>,
       bu_capture = \<lparr>cu_save = None, cu_open = None, cu_clear = False\<rparr>\<rparr>,
     fi_addrs = [], fi_connection = connection_default, fi_connect = Stay, fi_save_as_edit = (\<lambda>b. b), fi_save_as = Stay,
     fi_delete = Stay, fi_clear = Stay, fi_rename_edit = (\<lambda>b. b), fi_rename = Stay,
     fi_tree = \<lparr>te_query = (\<lambda>q. q), te_ctrl = False, te_shift = False, te_click = (\<lambda>_. False), te_drag = None,
       te_group = (\<lambda>_. False)\<rparr>,
     fi_scroll = Fin 0,
     fi_tabs = [(0, \<lparr>ti_ui = tab_ex, ti_payload = None, ti_drop = Some (DP_Channel 0), ti_close = False, ti_rename = True\<rparr>)],
     fi_dock = (\<lambda>d. d), fi_dock_drop = None\<rparr>"

definition viewer_ex :: "plot_id list viewer" where
  "viewer_ex = (viewer_blank one_leaf (\<lambda>ids d. d @ ids) \<lparr>ar_addr = [], ar_file = Some ''a.btlm'', ar_layout = None\<rparr>)
     \<lparr>vw_pending_file := None\<rparr>"

abbreviation fs_ex :: file_system where
  "fs_ex \<equiv> \<lparr>fs_files = Map.empty, fs_writable = (\<lambda>_. True)\<rparr>"

lemma viewer_ex: "store_wf (vw_store viewer_ex)" "vw_pending_file viewer_ex = None"
  "cu_open (bu_capture (fi_bar frame_ex)) \<noteq> Some (Some path)"
  by (simp_all add: viewer_ex_def viewer_blank_def frame_ex_def Let_def split_beta)


text \<open>
  C8. A frame of a release build returns, whatever the user does in it, whatever the plots, the markers,
  the camera, the connection and the saved layouts are: no query, renderer, menu or dialog panics on a
  well-formed store. The one operation that is left out is opening a capture file, whose bytes come from
  outside.
\<close>

theorem update_returns:
  fixes L :: "('d, 'u, 'v) app_lib" and v :: "'d viewer"
  assumes "store_wf (vw_store v)" and "vw_pending_file v = None"
    and "\<forall>path. cu_open (bu_capture (fi_bar i)) \<noteq> Some (Some path)"
  shows "\<exists>shown fs' v'. update False L i (fs, v) = Ok (shown, fs', v')"
  using update_ensures[OF assms] by (auto simp: ensures_def)

theorem update_returns_witness:
  "\<exists>shown fs' v'. update False app_lib_ex frame_ex (fs_ex, viewer_ex) = Ok (shown, fs', v')"
  by (rule update_returns) (simp_all add: viewer_ex)

end
