(* ===== verification/Soak.thy ===== *)
theory Soak
  imports Tcp Store_Log
begin

text \<open>
  The headless soak harness \<open>viewer/xtask/src/main.rs\<close>: the connection retries, the query round it runs
  while the ingest thread fills the store, and the figures of its report. The run as a whole is in
  \<open>Harness\<close>.
\<close>

section \<open>Connecting\<close>

text \<open>Up to forty attempts; \<open>None\<close> is the panic of \<open>expect\<close>. A failed attempt may leave channels behind.\<close>

fun soak_connect :: "nat \<Rightarrow> nat \<Rightarrow> connect_result list list \<Rightarrow> store \<Rightarrow> ((stream \<times> channel_map) \<times> store) run" where
  "soak_connect now 0 attempts g = Panic"
| "soak_connect now (Suc n) attempts g =
     (let (addrs, rest) = (case attempts of [] \<Rightarrow> ([], []) | a # as \<Rightarrow> (a, as)) in
      case tcp_connect now addrs (g, None) of
        (Ok h, g', _) \<Rightarrow> Ok (h, g')
      | (Err _, g', _) \<Rightarrow> soak_connect now n rest g'
      | (Panic, _) \<Rightarrow> Panic)"

section \<open>The query round\<close>

definition soak_query :: "bool \<Rightarrow> store \<Rightarrow> timestamp \<Rightarrow> timestamp \<Rightarrow> channel_info \<Rightarrow> unit \<Rightarrow> unit run" where
  "soak_query chk g t0 t1 c u =
     (case ci_kind c of
        CK_Scalar \<Rightarrow> obind (query_scalar chk g (ci_id c) t0 t1 1024) (\<lambda>_. Ok ())
      | CK_State _ \<Rightarrow> (let _ = query_state g (ci_id c) t0 t1 in Ok ())
      | CK_Text \<Rightarrow> Ok ())"

definition soak_round :: "bool \<Rightarrow> store \<Rightarrow> unit run" where
  "soak_round chk g =
     (case time_bounds g of
        None \<Rightarrow> Ok ()
      | Some (t0, t1) \<Rightarrow> ofold (soak_query chk g t0 t1) (st_channels g) ())"

section \<open>The report\<close>

definition channel_samples :: "bool \<Rightarrow> store \<Rightarrow> channel_info \<Rightarrow> u64 run" where
  "channel_samples chk g c =
     (case ci_kind c of
        CK_Scalar \<Rightarrow> obind (query_scalar chk g (ci_id c) 0 (- 1) USIZE_MAX) (\<lambda>bs. Ok (of_nat (length bs)))
      | CK_State _ \<Rightarrow> Ok (of_nat (length (query_state g (ci_id c) 0 (- 1))))
      | CK_Text \<Rightarrow> Ok 0)"

definition count_channel :: "bool \<Rightarrow> store \<Rightarrow> channel_info \<Rightarrow> u64 list \<times> u64 \<Rightarrow> (u64 list \<times> u64) run" where
  "count_channel chk g c = (\<lambda>(spc, acc).
     obind (channel_samples chk g c) (\<lambda>n. obind (add_chk chk acc n) (\<lambda>acc.
     Ok (spc @ [n], acc))))"

definition soak_counts :: "bool \<Rightarrow> store \<Rightarrow> (u64 list \<times> u64) run" where
  "soak_counts chk g = ofold (count_channel chk g) (st_channels g) ([], 0)"

definition rss_slope :: "f64 \<Rightarrow> f64 \<Rightarrow> f64 \<Rightarrow> f64" where
  "rss_slope rss_start rss_end elapsed =
     (if f64_lt (Fin 0) elapsed then f64_div (f64_mul (f64_sub rss_end rss_start) (Fin 3600)) elapsed else Fin 0)"

definition samples_per_sec :: "u64 \<Rightarrow> f64 \<Rightarrow> f64" where
  "samples_per_sec n elapsed =
     f64_div (f64_of_int (uint n)) (f64_max elapsed (f64_round (1 / 10 ^ 9)))"

text \<open>The closure \<open>p\<close> over the sorted query times.\<close>

definition percentile :: "nat list \<Rightarrow> f64 \<Rightarrow> nat run" where
  "percentile q_us p =
     (if q_us = [] then Ok 0
      else let n = f64_of_int (int (length q_us));
               idx = f64_to_u64 (f64_min (f64_mul n p) (f64_sub n (Fin 1)))
           in index_at q_us (unat idx))"

section \<open>Counting\<close>

text \<open>What is counted of a channel: its samples before the end of time; for a state channel, its runs.\<close>

definition counted :: "store \<Rightarrow> channel_info \<Rightarrow> nat" where
  "counted g c =
     (case ci_kind c of
        CK_Scalar \<Rightarrow> length (window 0 (- 1) (st_scalars g ! unat (ci_id c)))
      | CK_State _ \<Rightarrow> length (query_state g (ci_id c) 0 (- 1))
      | CK_Text \<Rightarrow> 0)"

definition ids_in_range :: "store \<Rightarrow> bool" where
  "ids_in_range g \<longleftrightarrow> (\<forall>c\<in>set (st_channels g). unat (ci_id c) < length (st_channels g))"

lemma store_run_ids: "ids_in_range (store_run ops)"
proof -
  have lt: "unat (of_nat n :: channel_id) < Suc n" for n by (simp add: unat_of_nat less_Suc_eq_le)
  have "ids_in_range (store_step op g)" if "ids_in_range g" for op g
    using that lt
    by (cases op; simp add: ids_in_range_def add_defs push_defs register_word_bits_def store_clear_def less_SucI)
  then show ?thesis
    unfolding store_run_def by (intro fold_invariant[where P = ids_in_range]) (simp_all add: ids_in_range_def store_new_def)
qed

lemma channel_samples_counted:
  assumes "ops_in_order ops log_new" and "c \<in> set (st_channels (store_run ops))" and "counted (store_run ops) c \<le> USIZE_MAX"
  shows "channel_samples chk (store_run ops) c = Ok (of_nat (counted (store_run ops) c))"
proof (cases "ci_kind c")
  case CK_Scalar
  let ?g = "store_run ops" and ?i = "unat (ci_id c)"
  have i: "?i < length (st_scalars ?g)"
    using store_run_ids[of ops] store_run_wf[of ops] assms(2) by (auto simp: ids_in_range_def store_wf_def)
  have "sorted (map fst (st_scalars ?g ! ?i))"
    using log_run_sorted[OF assms(1)] i
    by (auto simp: store_refines_log_raw store_of_log_def log_sorted_def series_sorted_def)
  then have "(time_window (st_scalars ?g ! ?i) 0 (- 1) :: _ run) = Ok (window 0 (- 1) (st_scalars ?g ! ?i))"
    by (simp add: time_window_sorted window_def)
  then show ?thesis
    using CK_Scalar i assms(3)
    by (simp add: channel_samples_def query_scalar_def counted_def get_at_def USIZE_MAX_def)
qed (simp_all add: channel_samples_def counted_def)



section \<open>Percentiles\<close>

text \<open>The index is always in range, whatever the fraction.\<close>

lemma percentile_total:
  assumes "length q \<le> 2 ^ 53"
  shows "\<exists>x. percentile q p = Ok x \<and> (q \<noteq> [] \<longrightarrow> x \<in> set q)"
proof (cases "q = []")
  case False
  define m where "m = int (length q)"
  have m: "1 \<le> m" "m \<le> 2 ^ 53" using False assms by (cases q; simp add: m_def)+
  have n: "f64_of_int m = Fin (of_int m)" "f64_of_int (m - 1) = Fin (of_int (m - 1))"
    using m by (intro f64_of_int_exact; simp)+
  then have s: "f64_sub (f64_of_int m) (Fin 1) = Fin (of_int (m - 1))"
    by (simp add: f64_sub_def f64_of_int_def)
  define j where "j = f64_to_int 0 (2 ^ 64 - 1) (f64_min (f64_mul (f64_of_int m) p) (Fin (of_int (m - 1))))"
  have "trunc_rat r \<le> m - 1" if "r \<le> of_int (m - 1)" for r
  proof (cases "0 \<le> r")
    case True
    then show ?thesis using that by (simp add: trunc_rat_def) linarith
  next
    case False
    then have "0 \<le> \<lfloor>- r\<rfloor>" by simp
    then have "- \<lfloor>- r\<rfloor> \<le> m - 1" using m(1) by linarith
    then show ?thesis using False by (simp add: trunc_rat_def del: floor_minus)
  qed
  then have j: "0 \<le> j" "j \<le> m - 1"
    using m by (auto simp: j_def f64_min_def f64_to_int_def not_less min_less_iff_disj split: f64.splits if_splits)
  obtain i where i: "j = int i" using j(1) nonneg_int_cases by blast
  then have "i < 2 ^ 64" using j(2) m(2) by simp
  then have "unat (of_int j :: u64) = nat j" by (simp add: i unat_of_nat)
  moreover have "nat j < length q" using j by (simp add: m_def)
  moreover have "percentile q p = index_at q (unat (of_int j :: u64))"
    using False unfolding percentile_def Let_def m_def[symmetric] s j_def[symmetric] f64_to_u64_def by simp
  ultimately show ?thesis by (simp add: index_at_def)
qed (simp add: percentile_def)

end
