(* ===== verification/Harness.thy ===== *)
theory Harness
  imports Soak Frame_Safe
begin

text \<open>
  The soak harness \<open>viewer/xtask/src/main.rs\<close> as a whole: resident memory read from the text of
  \<open>/proc/self/status\<close>, the arguments of the spawned server, the run with its query rounds beside the ingest
  thread, and the report that is printed. The clock, the network and the two status texts are
  arguments.
\<close>

section \<open>Numbers in texts\<close>

text \<open>\<open>f64::from_str\<close>: a sign, then a word for an infinity or a NaN, or digits with a point and an exponent.\<close>

definition is_digit :: "char \<Rightarrow> bool" where
  "is_digit c \<longleftrightarrow> char_digit c \<noteq> None"

definition split_sign :: "string \<Rightarrow> bool \<times> string" where
  "split_sign s =
     (case s of
        [] \<Rightarrow> (False, [])
      | c # cs \<Rightarrow> if c = CHR ''-'' then (True, cs) else if c = CHR ''+'' then (False, cs) else (False, s))"

fun parse_exponent :: "string \<Rightarrow> int option" where
  "parse_exponent [] = Some 0"
| "parse_exponent (c # cs) =
     (let (neg, ds) = split_sign cs in
      if c \<notin> {CHR ''e'', CHR ''E''} \<or> ds = [] then None
      else map_option (\<lambda>n. if neg then - int n else int n) (parse_digits 0 ds))"

definition parse_number :: "string \<Rightarrow> rat option" where
  "parse_number s =
     (let whole = takeWhile is_digit s; rest = dropWhile is_digit s;
          (frac, rest) = (case rest of
             [] \<Rightarrow> ([], [])
           | c # cs \<Rightarrow> if c = CHR ''.'' then (takeWhile is_digit cs, dropWhile is_digit cs) else ([], rest)) in
      if whole = [] \<and> frac = [] then None
      else case (parse_digits 0 (whole @ frac), parse_exponent rest) of
             (Some n, Some e) \<Rightarrow> Some (of_nat n * 10 powi (e - int (length frac)))
           | _ \<Rightarrow> None)"

definition parse_f64 :: "string \<Rightarrow> f64 option" where
  "parse_f64 s =
     (let (neg, body) = split_sign s; word = to_ascii_lowercase body in
      if word \<in> {''inf'', ''infinity''} then Some (FInf neg)
      else if word = ''nan'' then Some FNaN
      else map_option (\<lambda>r. f64_round (if neg then - r else r)) (parse_number body))"

text \<open>\<open>str::lines\<close>, and the first word of a text.\<close>

function str_lines :: "string \<Rightarrow> string list" where
  "str_lines s =
     (if s = [] then []
      else let line = takeWhile (\<lambda>c. c \<noteq> CHR 0x0A) s; rest = dropWhile (\<lambda>c. c \<noteq> CHR 0x0A) s
           in (if rest \<noteq> [] \<and> line \<noteq> [] \<and> last line = CHR 0x0D then butlast line else line) # str_lines (tl rest))"
  by pat_completeness auto
termination
proof (relation "measure length")
  fix s rest :: string assume "s \<noteq> []" and "rest = dropWhile (\<lambda>c. c \<noteq> CHR 0x0A) s"
  then show "(tl rest, s) \<in> measure length"
    using length_dropWhile_le[of "\<lambda>c. c \<noteq> CHR 0x0A" s] by (cases rest) (auto simp: neq_Nil_conv)
qed simp

declare str_lines.simps [simp del]

definition first_word :: "string \<Rightarrow> string option" where
  "first_word s =
     (let cs = dropWhile is_whitespace (str_chars s)
      in if cs = [] then None else Some (concat (takeWhile (\<lambda>c. \<not> is_whitespace c) cs)))"

section \<open>Resident memory\<close>

definition rss_mb :: "string option \<Rightarrow> f64" where
  "rss_mb status =
     (case status of
        None \<Rightarrow> Fin 0
      | Some s \<Rightarrow>
          (case List.map_filter (strip_prefix ''VmRSS:'') (str_lines s) of
             [] \<Rightarrow> Fin 0
           | rest # _ \<Rightarrow> f64_div (unwrap_or (Fin 0) (Option.bind (first_word rest) parse_f64)) (Fin 1024)))"

section \<open>A run\<close>

text \<open>The command line of the server that \<open>--spawn\<close> starts: the port is what follows the last colon.\<close>

definition spawn_args :: "string \<Rightarrow> u64 \<Rightarrow> string list" where
  "spawn_args addr entries =
     [case rsplit_once CHR '':'' addr of Some (_, port) \<Rightarrow> port | None \<Rightarrow> addr, show_nat (unat entries)]"

text \<open>\<open>Duration::from_secs_f64\<close> in nanoseconds: it panics on numbers that no duration has.\<close>

fun duration_from_secs_f64 :: "f64 \<Rightarrow> nat run" where
  "duration_from_secs_f64 (Fin r) =
     (if r < 0 \<or> 2 ^ 64 \<le> r then Panic else Ok (nat (round_half_even (r * 10 ^ 9))))"
| "duration_from_secs_f64 _ = Panic"

definition query_period :: "f64 \<Rightarrow> nat run" where
  "query_period query_hz = duration_from_secs_f64 (f64_div (Fin 1) (f64_max query_hz (Fin 1)))"

text \<open>
  What the harness meets. A turn of the query loop: the time since the start when the loop tests it, how
  often the ingest thread has read its stop flag by then, and the microseconds the round takes.
\<close>

record soak_turn =
  tn_elapsed :: nat
  tn_reads :: nat
  tn_us :: nat

record soak_world =
  sw_now :: nat
  sw_attempts :: "connect_result list list"
  sw_reconnects :: "connect_result list list"
  sw_turns :: "soak_turn list"
  sw_elapsed :: f64
  sw_reads :: nat
  sw_status_start :: "string option"
  sw_status_end :: "string option"

record soak_report =
  so_duration_s :: f64
  so_channels :: usize
  so_samples_per_channel :: "u64 list"
  so_total_samples :: u64
  so_samples_per_sec :: f64
  so_store_revision :: u64
  so_rss_mb_start :: f64
  so_rss_mb_end :: f64
  so_rss_slope :: f64
  so_query_p50_us :: nat
  so_query_p99_us :: nat

text \<open>The ingest thread, stopped after a number of reads of its flag.\<close>

definition soak_ingest :: "bool \<Rightarrow> soak_world \<Rightarrow> (stream \<times> channel_map) \<times> store \<Rightarrow> nat \<Rightarrow> unit ires \<times> ingest_state" where
  "soak_ingest chk w = (\<lambda>((s, m), g) k. run_with_reconnect chk (sw_now w) k s m (sw_reconnects w) (g, None))"

definition soak_turns :: "bool \<Rightarrow> (nat \<Rightarrow> store) \<Rightarrow> nat \<Rightarrow> soak_turn list \<Rightarrow> nat list run" where
  "soak_turns chk store_at dur turns =
     ofold (\<lambda>t q_us. obind (soak_round chk (store_at (tn_reads t))) (\<lambda>_. Ok (q_us @ [tn_us t])))
       (takeWhile (\<lambda>t. tn_elapsed t < dur) turns) []"

definition soak_measure :: "bool \<Rightarrow> soak_world \<Rightarrow> store \<Rightarrow> nat list \<Rightarrow> soak_report run" where
  "soak_measure chk w g q_us =
     obind (soak_counts chk g) (\<lambda>(spc, n).
     let rss_start = rss_mb (sw_status_start w); rss_end = rss_mb (sw_status_end w); q_us = sort q_us in
     obind (percentile q_us (Fin (1 / 2))) (\<lambda>p50.
     obind (percentile q_us (f64_round (99 / 100))) (\<lambda>p99.
     Ok \<lparr>so_duration_s = sw_elapsed w, so_channels = length (st_channels g), so_samples_per_channel = spc,
         so_total_samples = n, so_samples_per_sec = samples_per_sec n (sw_elapsed w),
         so_store_revision = st_revision g, so_rss_mb_start = rss_start, so_rss_mb_end = rss_end,
         so_rss_slope = rss_slope rss_start rss_end (sw_elapsed w), so_query_p50_us = p50, so_query_p99_us = p99\<rparr>)))"

definition replay :: "bool \<Rightarrow> f64 \<Rightarrow> f64 \<Rightarrow> soak_world \<Rightarrow> soak_report run" where
  "replay chk duration_s query_hz w =
     obind (soak_connect (sw_now w) 40 (sw_attempts w) store_new) (\<lambda>h.
     obind (duration_from_secs_f64 duration_s) (\<lambda>dur.
     obind (query_period query_hz) (\<lambda>_.
     obind (soak_turns chk (\<lambda>k. fst (snd (soak_ingest chk w h k))) dur (sw_turns w)) (\<lambda>q_us.
     case soak_ingest chk w h (sw_reads w) of
       (Panic, _) \<Rightarrow> Panic
     | (_, g, _) \<Rightarrow> soak_measure chk w g q_us))))"

section \<open>The printed report\<close>

definition quoted :: "string \<Rightarrow> string" where
  "quoted s = CHR 0x22 # s @ [CHR 0x22]"

fun separated :: "string \<Rightarrow> string list \<Rightarrow> string" where
  "separated sep [] = []"
| "separated sep [x] = x"
| "separated sep (x # y # xs) = x @ sep @ separated sep (y # xs)"

definition report_text :: "soak_report \<Rightarrow> string" where
  "report_text r =
     ''{'' @ separated '','' (map (\<lambda>(name, v). quoted name @ '':'' @ v)
       [(''duration_s'', fmt_fixed 3 (so_duration_s r)),
        (''channels'', show_nat (so_channels r)),
        (''samples_per_channel'', ''['' @ separated '', '' (map (\<lambda>n. show_nat (unat n)) (so_samples_per_channel r)) @ '']''),
        (''total_samples'', show_nat (unat (so_total_samples r))),
        (''samples_per_sec'', fmt_fixed 1 (so_samples_per_sec r)),
        (''store_revision'', show_nat (unat (so_store_revision r))),
        (''rss_mb_start'', fmt_fixed 2 (so_rss_mb_start r)),
        (''rss_mb_end'', fmt_fixed 2 (so_rss_mb_end r)),
        (''rss_slope_mb_per_hour'', fmt_fixed 2 (so_rss_slope r)),
        (''query_p50_us'', show_nat (so_query_p50_us r)),
        (''query_p99_us'', show_nat (so_query_p99_us r))]) @ ''}''"

section \<open>Percentiles are ordered\<close>

lemma percentile_index:
  fixes q :: "nat list" and a :: rat
  assumes "q \<noteq> []" and "length q \<le> 2 ^ 53" and "0 \<le> a" "a \<le> 1"
  defines "i \<equiv> \<lfloor>min (rnd (of_nat (length q) * a)) (of_nat (length q) - 1)\<rfloor>"
  shows "percentile q (Fin a) = Ok (q ! nat i)" and "nat i < length q" and "0 \<le> i"
proof -
  define m where "m = int (length q)"
  have m: "1 \<le> m" "m \<le> 2 ^ 53" using assms(1,2) by (cases q; simp add: m_def)+
  have n: "f64_of_int m = Fin (of_int m)" "f64_of_int (m - 1) = Fin (of_int (m - 1))"
    using m by (intro f64_of_int_exact; simp)+
  then have s: "f64_sub (f64_of_int m) (Fin 1) = Fin (of_int (m - 1))"
    by (simp add: f64_sub_def f64_of_int_def)
  have "of_int m * a \<le> of_int m * 1" using assms(4) m(1) by (intro mult_left_mono) simp_all
  also have "\<dots> \<le> 2 ^ 53" using m(2) by (metis mult_1_right of_int_le_iff of_int_numeral of_int_power)
  also have "(2 ^ 53 :: rat) \<le> 2 powi 1000" by simp
  finally have "f64_mul (f64_of_int m) (Fin a) = Fin (rnd (of_int m * a))"
    using assms(3) m(1) by (simp add: n(1) f64_round_rnd)
  then have f: "f64_min (f64_mul (f64_of_int m) (Fin a)) (Fin (of_int (m - 1))) = Fin (min (rnd (of_int m * a)) (of_int (m - 1)))"
    by (simp add: f64_min_def min_def)
  have i: "i = \<lfloor>min (rnd (of_int m * a)) (of_int (m - 1))\<rfloor>" by (simp add: i_def m_def)
  have p: "0 \<le> min (rnd (of_int m * a)) (of_int (m - 1))" using assms(3) m(1) by (simp add: rnd_nonneg)
  then show "0 \<le> i" by (simp add: i)
  have le: "i \<le> m - 1" unfolding i by (metis floor_mono floor_of_int min.cobounded2)
  then show lt: "nat i < length q" using m(1) \<open>0 \<le> i\<close> by (simp add: m_def)
  have "f64_to_int 0 (2 ^ 64 - 1) (Fin (min (rnd (of_int m * a)) (of_int (m - 1)))) = i"
    using p le m \<open>0 \<le> i\<close> by (simp add: f64_to_int_def trunc_rat_def i[symmetric] del: of_int_diff)
  then have "f64_to_u64 (f64_min (f64_mul (f64_of_int m) (Fin a)) (f64_sub (f64_of_int m) (Fin 1))) = of_int i"
    unfolding s f by (simp add: f64_to_u64_def)
  moreover have "unat (of_int i :: u64) = nat i"
  proof -
    obtain k where "i = int k" using \<open>0 \<le> i\<close> nonneg_int_cases by blast
    then show ?thesis using le m by (simp add: unat_of_nat)
  qed
  ultimately show "percentile q (Fin a) = Ok (q ! nat i)"
    using assms(1) lt unfolding percentile_def Let_def m_def[symmetric] by (simp add: index_at_def)
qed

lemma percentile_mono:
  assumes "sorted q" and "length q \<le> 2 ^ 53" and "0 \<le> a" "a \<le> b" "b \<le> 1"
    and "percentile q (Fin a) = Ok x" and "percentile q (Fin b) = Ok y"
  shows "x \<le> y"
proof (cases "q = []")
  case False
  let ?n = "of_nat (length q) :: rat" and ?i = "\<lambda>a. \<lfloor>min (rnd (of_nat (length q) * a)) (of_nat (length q) - 1)\<rfloor>"
  have ab: "0 \<le> b" "a \<le> 1" using assms(3-5) by simp_all
  have "rnd (?n * a) \<le> rnd (?n * b)" using assms(3,4) by (intro rnd_mono mult_left_mono) simp_all
  then have "?i a \<le> ?i b" by (intro floor_mono min.mono) simp_all
  then show ?thesis
    using percentile_index[OF False assms(2,3) ab(2)] percentile_index[OF False assms(2) ab(1) assms(5)] assms(1,6,7)
    by (auto intro!: sorted_nth_mono nat_mono)
qed (use assms(6,7) in \<open>simp add: percentile_def\<close>)

section \<open>The run returns\<close>

lemma query_period_returns: "\<exists>d. query_period hz = Ok d"
proof -
  have "\<exists>d. duration_from_secs_f64 (f64_div (Fin 1) (Fin r)) = Ok d" if "1 \<le> r" for r
  proof -
    have "0 \<le> 1 / r" "1 / r \<le> 2 powi 0" using that by simp_all
    moreover have "(2::rat) powi 0 \<le> 2 powi 1000" by simp
    moreover have "rnd (1 / r) \<le> 2 powi 0" by (rule rnd_le_powi) (use that in simp_all)
    ultimately have "f64_round (1 / r) = Fin (rnd (1 / r))" "0 \<le> rnd (1 / r)" "rnd (1 / r) \<le> 2 powi 0"
      by (auto intro: f64_round_rnd rnd_nonneg order_trans)
    then show ?thesis using that by auto
  qed
  from this this[of 1] show ?thesis by (cases hz) (auto simp: query_period_def f64_max_def not_less)
qed

lemma ofold_Ok: "(\<And>x s. x \<in> set xs \<Longrightarrow> f x s = Ok (h x s)) \<Longrightarrow> ofold f xs s = Ok (fold h xs s)"
  by (induction xs arbitrary: s) simp_all

lemma query_scalar_Ok: "\<exists>bs. query_scalar False g ch t0 t1 k = Ok bs"
  using query_scalar_returns[of g ch t0 t1 k] by (auto simp: ensures_def)

lemma soak_round_Ok: "soak_round False g = Ok ()"
proof -
  have "soak_query False g t0 t1 c u = Ok ()" for t0 t1 c u
    using query_scalar_Ok[of g "ci_id c" t0 t1 1024] by (auto simp: soak_query_def split: channel_kind.split)
  then show ?thesis by (auto simp: soak_round_def ofold_Ok[where h = "\<lambda>_ _. ()"] split: option.split)
qed

lemma soak_turns_Ok:
  "soak_turns False store_at dur turns = Ok (map tn_us (takeWhile (\<lambda>t. tn_elapsed t < dur) turns))"
proof -
  have "fold (\<lambda>t q. q @ [tn_us t]) ts q = q @ map tn_us ts" for ts :: "soak_turn list" and q
    by (induction ts arbitrary: q) simp_all
  then show ?thesis by (simp add: soak_turns_def soak_round_Ok ofold_Ok[where h = "\<lambda>t q. q @ [tn_us t]"])
qed

lemma soak_counts_Ok: "\<exists>spc n. soak_counts False g = Ok (spc, n) \<and> length spc = length (st_channels g)"
proof -
  have "\<exists>n. channel_samples False g c = Ok n" for c
    using query_scalar_Ok[of g "ci_id c" 0 "- 1" USIZE_MAX] by (auto simp: channel_samples_def split: channel_kind.split)
  then obtain h where h: "channel_samples False g c = Ok (h c)" for c by metis
  have "ofold (count_channel False g) cs (spc, n) = Ok (spc @ map h cs, n + sum_list (map h cs))" for cs spc n
    by (induction cs arbitrary: spc n) (simp_all add: count_channel_def h add_chk_def add.assoc)
  from this[of "st_channels g" "[]" 0] show ?thesis by (simp add: soak_counts_def)
qed

lemma soak_connect_reaches:
  "soak_connect now n attempts g = Ok (sm, g') \<Longrightarrow> state_reaches (g, None) (g', None)"
proof (induction now n attempts g rule: soak_connect.induct)
  case (2 now n attempts g)
  obtain addrs rest where a: "(case attempts of [] \<Rightarrow> ([], []) | a # as \<Rightarrow> (a, as)) = (addrs, rest)" by force
  obtain r g1 cap where t: "tcp_connect now addrs (g, None) = (r, g1, cap)" by (metis prod_cases3)
  then have s: "state_reaches (g, None) (g1, None)"
    by (auto simp: tcp_connect_def split: if_splits prod.splits outcome.splits dest!: connect_once_reaches intro: registers_state)
  show ?case
    using "2.prems" "2.IH"[OF a[symmetric] refl t[symmetric] _ refl] s state_reaches_trans[OF s] by (cases r) (auto simp: a t)
qed simp

text \<open>
  C34. Once a connection attempt has succeeded, the soak harness prints a report, in a release build, however
  the network behaves, unless the ingest thread itself panics: the report counts the store that the
  thread leaves, which its operations produce, in one figure per channel; and its percentiles are
  ordered and are times that were measured, or zero when no round was run.
\<close>

theorem replay_reports:
  assumes "soak_connect (sw_now w) 40 (sw_attempts w) store_new = Ok h"
    and "f64_le (Fin 0) duration_s" "f64_lt duration_s (Fin (2 ^ 64))"
    and "fst (soak_ingest False w h (sw_reads w)) \<noteq> Panic" and "length (sw_turns w) \<le> 2 ^ 53"
  shows "\<exists>rep ops. replay False duration_s query_hz w = Ok rep
    \<and> fst (snd (soak_ingest False w h (sw_reads w))) = store_run ops
    \<and> soak_counts False (store_run ops) = Ok (so_samples_per_channel rep, so_total_samples rep)
    \<and> length (so_samples_per_channel rep) = so_channels rep
    \<and> so_query_p50_us rep \<le> so_query_p99_us rep
    \<and> {so_query_p50_us rep, so_query_p99_us rep} \<subseteq> insert 0 (tn_us ` set (sw_turns w))"
proof -
  let ?i = "soak_ingest False w h (sw_reads w)"
  obtain s m g where h: "h = ((s, m), g)" by (metis prod.exhaust)
  obtain r g' cap where i: "?i = (r, g', cap)" by (metis prod_cases3)
  have "state_reaches (store_new, None) (g', cap)"
    using soak_connect_reaches[OF assms(1)[unfolded h]] run_with_reconnect_reaches[OF i[unfolded soak_ingest_def h prod.case]]
    by (auto simp: h intro: state_reaches_trans)
  then obtain ops where ops: "g' = store_run ops" by (auto simp: state_reaches_def store_run_def)
  obtain spc n where c: "soak_counts False g' = Ok (spc, n)" "length spc = length (st_channels g')"
    using soak_counts_Ok by blast
  obtain d where d: "duration_from_secs_f64 duration_s = Ok d" using assms(2,3) by (cases duration_s) (auto simp: f64_le_def)
  obtain e where e: "query_period query_hz = Ok e" using query_period_returns by blast
  let ?q = "map tn_us (takeWhile (\<lambda>t. tn_elapsed t < d) (sw_turns w))"
  have q: "set ?q \<subseteq> tn_us ` set (sw_turns w)" "length (sort ?q) \<le> 2 ^ 53"
    using assms(5) length_takeWhile_le[of "\<lambda>t. tn_elapsed t < d" "sw_turns w"] by (auto dest: set_takeWhileD)
  have f: "f64_round (99 / 100) = Fin (rnd (99 / 100))" "1 / 2 \<le> rnd (99 / 100)" "rnd (99 / 100) \<le> 1"
    using f64_round_rnd[of "99 / 100"] rnd_ge_powi[of "- 1" "99 / 100"] rnd_le_powi[of 0 "99 / 100"]
    by (simp_all add: power_int_minus)
  have "\<exists>x. percentile (sort ?q) p = Ok x \<and> x \<in> insert 0 (tn_us ` set (sw_turns w))" for p
    using percentile_total[OF q(2), of p] q(1) by (cases "sort ?q = []") (auto simp: percentile_def)
  then obtain x y where xy: "percentile (sort ?q) (Fin (1 / 2)) = Ok x" "percentile (sort ?q) (Fin (rnd (99 / 100))) = Ok y"
    "{x, y} \<subseteq> insert 0 (tn_us ` set (sw_turns w))"
    by (metis empty_subsetI insert_subset)
  have "x \<le> y" using percentile_mono[OF _ q(2) _ f(2,3) xy(1,2)] by simp
  moreover have "r \<noteq> Panic" using assms(4) i by simp
  ultimately show ?thesis
    using assms(1) d e i c ops xy f(1) by (cases r) (auto simp: replay_def soak_turns_Ok soak_measure_def Let_def)
qed


text \<open>A server that sends an empty schema.\<close>

definition world_ex :: soak_world where
  "world_ex = \<lparr>sw_now = 0, sw_attempts = [[], [Inl [Data [3, 0, 0, 0], Data [0, 0, 0]]]], sw_reconnects = [],
     sw_turns = [\<lparr>tn_elapsed = 0, tn_reads = 0, tn_us = 7\<rparr>, \<lparr>tn_elapsed = 2 * 10 ^ 9, tn_reads = 0, tn_us = 9\<rparr>],
     sw_elapsed = Fin 1, sw_reads = 0, sw_status_start = None, sw_status_end = None\<rparr>"

theorem replay_reports_witness:
  "\<exists>rep. replay False (Fin 1) (Fin 60) world_ex = Ok rep \<and> so_query_p50_us rep \<le> so_query_p99_us rep"
proof -
  have c: "case open_stream [Data [3, 0, 0, 0], Data [0, 0, 0]] store_new of (Ok _, _) \<Rightarrow> True | _ \<Rightarrow> False"
    by code_simp
  have "\<exists>h. soak_connect (sw_now world_ex) (Suc (Suc n)) (sw_attempts world_ex) store_new = Ok h" for n
    using c by (auto simp: world_ex_def tcp_connect_def split: prod.splits outcome.splits)
  from this[of 38] obtain h where h: "soak_connect (sw_now world_ex) 40 (sw_attempts world_ex) store_new = Ok h" by auto
  have "fst (soak_ingest False world_ex h (sw_reads world_ex)) \<noteq> Panic"
    by (simp add: soak_ingest_def world_ex_def run_with_reconnect_def packet_loop.simps reconnect_loop.simps split_beta)
  from replay_reports[OF h _ _ this, of "Fin 1" "Fin 60"] show ?thesis
    by (auto simp: world_ex_def f64_le_def)
qed

end
