(* ===== verification/Spec2Isabelle.thy ===== *)
theory Spec2Isabelle
  imports Labels Replay Heat Update_Safe Harness
begin

text \<open>
  A verification library for the btelem viewer: the Rust workspace under \<open>viewer\<close>. Embedded programs
  write telemetry records; the viewer receives them over TCP as framed packets preceded by a schema,
  keeps them in an in-memory store and in a ring of raw packets, saves and reopens captures, and shows
  the channels in panels.

  \<^bold>\<open>Parts, theories, sources\<close> (paths under \<open>viewer/crates\<close> unless noted)

  \<^item> \<open>Prelude\<close>: outcomes (value, error, panic), checked machine arithmetic (\<open>chk\<close> says whether overflow
    checks are compiled in), slices and indexing that panic, folds and maps that stop at a failure.
    \<open>Float64\<close>, \<open>Float32\<close>: binary64 and binary32 as exact rationals with round-to-nearest-even, the two formats
    being interpretations of one locale. \<open>Slices\<close>: little-endian words,
    binary search, partition points. \<open>Utf8\<close>, \<open>Strings\<close>: UTF-8 validation and lossy conversion, hash maps as
    association lists, string routines. \<open>Ids\<close>: the contract of a counter of identifiers, a locale
    interpreted on plots, markers and links.
  \<^item> \<open>Wire\<close>, \<open>Schema\<close>: \<open>btelem-wire\<close>, the packet and schema decoders and field values. The tables of a schema
    share the locale of a fixed-width codec, interpreted on entries, enums and bitfields.
  \<^item> \<open>Store\<close>, \<open>Store_Scalar\<close>, \<open>Store_State\<close>, \<open>Store_Log\<close>: \<open>btelem-store\<close>, the store with its queries. The abstract
    specification is the log of samples per channel (\<open>log_store\<close>); \<open>store_of_log\<close> is the refinement.
  \<^item> \<open>Capture\<close>: \<open>btelem-capture\<close>, the packet ring, \<open>.btlm\<close> files, file names.
  \<^item> \<open>Mapper\<close>, \<open>Tcp\<close>: \<open>btelem-ingest\<close>, the channel map from a schema, the dispatch of records, and the TCP
    thread with its reconnects. A stream is the list of events its reads meet.
  \<^item> \<open>Panels\<close>, \<open>Labels\<close>, \<open>Camera\<close>, \<open>Markers\<close>: \<open>btelem-viewer/src/view_state.rs\<close>. \<open>Layout\<close>, \<open>Layout_Roundtrip\<close>:
    \<open>layout.rs\<close>. \<open>Rows\<close>, \<open>Lanes\<close>, \<open>Interact\<close>: what \<open>plot_renderers.rs\<close> computes before it draws.
  \<^item> \<open>Colours\<close>, \<open>Drawing\<close>, \<open>Frame\<close>: \<open>plot_renderers.rs\<close>, colours, the drawing calls, and the renderers as wholes:
    functions from the borrowed state (\<open>plot_env\<close>, \<open>plot_ctx\<close>) and the input of the widgets to a screen and
    the state they leave. \<open>Heat\<close>: heat maps. \<open>Frame_Safe\<close>: the renderers return. \<open>Frame_Inv\<close>: the locale
    \<open>frame_invariant\<close> says what an invariant must allow to survive any renderer; it is interpreted on the
    types of the panels and the reach of the markers, and in \<open>Update\<close> on the steps of the session.
  \<^item> \<open>Session\<close>, \<open>App\<close>: \<open>app.rs\<close>, the application state and its handlers. \<open>Reachable\<close>: the session as a
    transition system over them. \<open>Replay\<close>: saving and reopening. \<open>Update\<close>, \<open>Update_Safe\<close>: \<open>ViewerApp::update\<close>, the
    frame that calls them in order, with its bars, trees and tabs.
  \<^item> \<open>Soak\<close>, \<open>Harness\<close>: \<open>viewer/xtask/src/main.rs\<close>, the headless soak harness.

  \<^bold>\<open>How state and operations correspond to the code\<close>

  A struct is a record, an enum a datatype, a method that mutates its receiver a function that returns
  it changed; fallible code returns an \<open>outcome\<close>, in which a panic is a value of its own. Integers are
  words of the width the code uses; \<open>usize\<close> is a natural number where it counts elements in memory.
  Loops are structural recursions or functions with a measure. Four loops of the code have no bound
  of their own and get one from what ends them: the ingest thread reads its stop flag at every turn,
  and the model counts the reads that find it unset (\<open>packet_loop\<close>, \<open>reconnect_loop\<close>); a connection is a
  finite list of events, and \<open>packet_loop_ends\<close> shows that the loop ends on it by itself; the initial
  connection loop takes the list of its attempts (\<open>connect_retry\<close>); the query loop of the soak harness takes
  the list of its turns (\<open>soak_turns\<close>). No theorem is conditional on a bound
  being large enough without showing which bound is.

  \<^bold>\<open>What the lemmas show\<close>

  \<^item> Decoding: the decoders never panic, accept exactly what the device writes, and return what the bytes
    say. Dispatch appends to each channel exactly the value of its field.
  \<^item> Store: it refines the log; queries return envelopes, held values, windows and bounds of what was
    pushed, within their budgets, and never panic in a release build.
  \<^item> Ring and files: the ring is the longest recent suffix within its budget; a saved file reads back.
  \<^item> Network: framing is independent of how the stream is cut, the loop ends with the stream, and no
    traffic leaves the states that the operations of the store and of the ring reach.
  \<^item> Workspace: panels keep their types, identifiers are never reused, marker sets stay consistent,
    layouts round-trip, tables and lanes show the data they are made from.
  \<^item> Drawing: a heat map shows the order of the values through all rounding; whatever the pointer and the
    menus do, a renderer returns, keeps the panels typed and the plots in place, and changes the markers
    only by their own operations.
  \<^item> Frames: a frame of a release build returns, and it is a run of the session, so that what is shown of
    sessions holds after every frame.
  \<^item> Soak: a run that connects prints a report, whose counts are those of the store it leaves.
  \<^item> Session: whatever the user and the network do, every component stays in a state that its own
    operations reach, and a saved session reopens with the same data and workspace.

  \<^bold>\<open>Parameters\<close>

  The dock library (\<open>dock_lib\<close>, with the laws \<open>dock_laws\<close>), the JSON serialiser and parser, the order in
  which a hash map or a hash set is traversed where it matters, the exponential function, the colour
  arithmetic of the toolkit (\<open>paint_lib\<close>), pixel sizes and distances, the clock, the file system, and the
  choices made in menus, dialogs and file pickers. The input of a frame is the record \<open>frame_input\<close>, the
  libraries are the record \<open>app_lib\<close>.

  \<^bold>\<open>Not modelled\<close>

  The rasterisation of the drawing calls, fonts and the pixel geometry of widgets; labels that only repeat
  a field in a menu; locks and the interleaving inside one operation
  (the steps of a session interleave whole operations, as the locks of the store and the ring do);
  the flag parser; the sign of zero and the payload of a NaN; write errors in the middle of a file; running
  out of memory; in \<open>Harness\<close>, starting and killing the server process; the C and Python sides of the
  repository, except for the formats they write, which appear as encoders.
\<close>

section \<open>Untrusted bytes\<close>

text \<open>
  C23. Bytes from the network or from a file cannot bring the viewer down while they are decoded: on every
  byte string the packet decoder and the schema decoder return a value or an error, never a panic.
\<close>

theorem decoders_never_panic: "decode_packet bs \<noteq> Panic \<and> schema_decode bs \<noteq> Panic"
  using decode_packet_total schema_decode_total by blast

end
